(* ===== verification/Prelude.thy ===== *)
theory Prelude
  imports Complex_Main "HOL-Library.Product_Lexorder" "HOL-Library.Multiset"
begin

section \<open>Prelude\<close>

text \<open>
  What every other theory shares: the exceptions the program raises or sees, results as
  sums, the SQL constructs its statements are made of (\<open>UPDATE .. WHERE\<close>,
  \<open>DELETE .. WHERE\<close>, \<open>LIMIT\<close>, \<open>FOR UPDATE SKIP LOCKED\<close>), Python's
  \<^verbatim>\<open>timedelta(seconds=..)\<close>, and generic lemmas about lists and rows.
  Instants and durations are integers in microseconds, the resolution of both
  PostgreSQL's \<^verbatim>\<open>timestamptz\<close> and Python's \<^verbatim>\<open>timedelta\<close>.
\<close>

named_theorems table_simps \<open>how the SQL constructs act on tables\<close>
named_theorems row_defs \<open>the SET clauses of the statements\<close>
named_theorems op_defs \<open>the operations on the database\<close>

subsection \<open>Exceptions and results\<close>

text \<open>
  The constructors are Python's and psycopg's exception classes. \<open>TaskError\<close> stands for
  any \<^verbatim>\<open>Exception\<close> a task raises that the library does not treat specially;
  \<open>SystemExit\<close> is the one class here that is a \<^verbatim>\<open>BaseException\<close> but not an
  \<^verbatim>\<open>Exception\<close>.
\<close>

datatype exn =
    KeyError string
  | ValueError string
  | ZeroDivisionError
  | OverflowError string
  | ZoneInfoNotFoundError string
  | OperationalError string
  | DataError string
  | IntegrityError string
  | CardinalityViolation string
  | PermanentError string
  | LeaseLost
  | TypeError string
  | RuntimeError string
  | IndexError string
  | TaskError string
  | SystemExit

type_synonym 'a result = "exn + 'a"

definition bind_result :: "'a result \<Rightarrow> ('a \<Rightarrow> 'b result) \<Rightarrow> 'b result" where
  "bind_result r f = (case r of Inl x \<Rightarrow> Inl x | Inr a \<Rightarrow> f a)"

lemma bind_result_simps [simp]:
  "bind_result (Inl x) f = Inl x"
  "bind_result (Inr a) f = f a"
  by (simp_all add: bind_result_def)

lemma bind_result_Inr_iff [simp]:
  "bind_result r f = Inr b \<longleftrightarrow> (\<exists>a. r = Inr a \<and> f a = Inr b)"
  by (cases r) simp_all

subsection \<open>Time\<close>

type_synonym micros = int

definition seconds :: "int \<Rightarrow> micros" where
  "seconds n = n * 1000000"

text \<open>
  \<^verbatim>\<open>timedelta(seconds=x)\<close> for a float rounds to the nearest microsecond, ties to
  even. Floats are modelled as reals.
\<close>

definition round_half_even :: "real \<Rightarrow> int" where
  "round_half_even x =
     (let f = \<lfloor>x\<rfloor>; r = x - of_int f
      in if r < 1 / 2 then f else if 1 / 2 < r then f + 1 else if even f then f else f + 1)"

definition timedelta_seconds :: "real \<Rightarrow> micros" where
  "timedelta_seconds s = round_half_even (s * 1000000)"

lemma round_half_even_of_int [simp]: "round_half_even (of_int n) = n"
  by (simp add: round_half_even_def)

lemma round_half_even_lower: "of_int n \<le> x \<Longrightarrow> n \<le> round_half_even x"
proof -
  assume "of_int n \<le> x"
  then have "n \<le> \<lfloor>x\<rfloor>" by (simp add: le_floor_iff)
  then show ?thesis by (simp add: round_half_even_def Let_def)
qed

lemma round_half_even_upper:
  assumes "x \<le> of_int n"
  shows "round_half_even x \<le> n"
proof (cases "x = of_int n")
  case True
  then show ?thesis by simp
next
  case False
  with assms have "x < of_int n" by simp
  then have "\<lfloor>x\<rfloor> < n" by (simp add: floor_less_iff)
  then show ?thesis by (auto simp: round_half_even_def Let_def)
qed

lemma timedelta_seconds_nonneg: "0 \<le> s \<Longrightarrow> 0 \<le> timedelta_seconds s"
  unfolding timedelta_seconds_def by (rule round_half_even_lower) simp

lemma timedelta_seconds_le: "s \<le> of_int n \<Longrightarrow> timedelta_seconds s \<le> seconds n"
  unfolding timedelta_seconds_def seconds_def by (rule round_half_even_upper) simp

lemma timedelta_seconds_of_int [simp]: "timedelta_seconds (of_int n) = seconds n"
proof -
  have "of_int n * 1000000 = (of_int (n * 1000000) :: real)" by simp
  then show ?thesis
    unfolding timedelta_seconds_def seconds_def by (simp only: round_half_even_of_int)
qed

subsection \<open>Decimal numerals\<close>

fun nat_str :: "nat \<Rightarrow> string" where
  "nat_str n = (if n < 10 then [char_of (48 + n)] else nat_str (n div 10) @ [char_of (48 + n mod 10)])"

declare nat_str.simps [simp del]

definition int_str :: "int \<Rightarrow> string" where
  "int_str i = (if i < 0 then ''-'' @ nat_str (nat (- i)) else nat_str (nat i))"

subsection \<open>SQL constructs over tables\<close>

text \<open>A table is the list of its rows in heap order.\<close>

definition update_where :: "('r \<Rightarrow> bool) \<Rightarrow> ('r \<Rightarrow> 'r) \<Rightarrow> 'r list \<Rightarrow> 'r list" where
  "update_where P f rs = map (\<lambda>r. if P r then f r else r) rs"

definition delete_where :: "('r \<Rightarrow> bool) \<Rightarrow> 'r list \<Rightarrow> 'r list" where
  "delete_where P rs = filter (\<lambda>r. \<not> P r) rs"

text \<open>\<open>LIMIT n\<close>; PostgreSQL rejects a negative limit.\<close>

definition pg_limit :: "int \<Rightarrow> 'r list \<Rightarrow> 'r list result" where
  "pg_limit n rs =
     (if n < 0 then Inl (DataError ''LIMIT must not be negative'')
      else Inr (take (nat n) rs))"

text \<open>
  \<open>FOR UPDATE SKIP LOCKED\<close>: rows another transaction holds are passed over. The lock
  step runs below the limit, so skipped rows do not count towards it.
\<close>

definition skip_locked :: "('r \<Rightarrow> 'k) \<Rightarrow> 'k list \<Rightarrow> 'r list \<Rightarrow> 'r list" where
  "skip_locked key held rs = filter (\<lambda>r. key r \<notin> set held) rs"

lemma update_where_simps [simp]:
  "update_where P f [] = []"
  "update_where P f (r # rs) = (if P r then f r else r) # update_where P f rs"
  by (simp_all add: update_where_def)

lemma length_update_where [simp]: "length (update_where P f rs) = length rs"
  by (simp add: update_where_def)

lemma set_update_where [table_simps]:
  "set (update_where P f rs) = (\<lambda>r. if P r then f r else r) ` set rs"
  by (simp add: update_where_def)

lemma update_where_append [simp]:
  "update_where P f (xs @ ys) = update_where P f xs @ update_where P f ys"
  by (simp add: update_where_def)

lemma update_where_cong:
  "(\<And>r. r \<in> set rs \<Longrightarrow> P r = Q r) \<Longrightarrow> (\<And>r. r \<in> set rs \<Longrightarrow> Q r \<Longrightarrow> f r = g r) \<Longrightarrow>
   update_where P f rs = update_where Q g rs"
  by (simp add: update_where_def)

lemma update_where_none: "(\<And>r. r \<in> set rs \<Longrightarrow> \<not> P r) \<Longrightarrow> update_where P f rs = rs"
  by (simp add: update_where_def map_idI)

lemma update_where_same: "(\<And>r. r \<in> set rs \<Longrightarrow> P r \<Longrightarrow> f r = r) \<Longrightarrow> update_where P f rs = rs"
  by (simp add: update_where_def map_idI)

lemma map_update_where [table_simps]:
  "(\<And>r. r \<in> set rs \<Longrightarrow> P r \<Longrightarrow> g (f r) = g r) \<Longrightarrow> map g (update_where P f rs) = map g rs"
  by (simp add: update_where_def)

lemma set_delete_where [table_simps]: "set (delete_where P rs) = {r \<in> set rs. \<not> P r}"
  by (simp add: delete_where_def)

lemma distinct_map_delete_where: "distinct (map g rs) \<Longrightarrow> distinct (map g (delete_where P rs))"
  by (simp add: delete_where_def distinct_map_filter)

lemma set_skip_locked [table_simps]: "set (skip_locked key held rs) = {r \<in> set rs. key r \<notin> set held}"
  by (simp add: skip_locked_def)

lemma skip_locked_none [simp]: "skip_locked key [] rs = rs"
  by (simp add: skip_locked_def)

lemma pg_limit_InrD: "pg_limit n rs = Inr ys \<Longrightarrow> 0 \<le> n \<and> ys = take (nat n) rs"
  by (simp add: pg_limit_def split: if_splits)

lemma pg_limit_nonneg [simp]: "0 \<le> n \<Longrightarrow> pg_limit n rs = Inr (take (nat n) rs)"
  by (simp add: pg_limit_def)

lemma pg_limit_neg [simp]: "n < 0 \<Longrightarrow> pg_limit n rs = Inl (DataError ''LIMIT must not be negative'')"
  by (simp add: pg_limit_def)

subsection \<open>Rows by key\<close>

text \<open>A row found by its primary key, and how the constructs act on it.\<close>

definition row_at :: "('r \<Rightarrow> 'k) \<Rightarrow> 'r list \<Rightarrow> 'k \<Rightarrow> 'r option" where
  "row_at key rs k = find (\<lambda>r. key r = k) rs"

lemma row_at_simps [simp]:
  "row_at key [] k = None"
  "row_at key (r # rs) k = (if key r = k then Some r else row_at key rs k)"
  by (simp_all add: row_at_def)

lemma row_at_append:
  "row_at key (xs @ ys) k = (case row_at key xs k of None \<Rightarrow> row_at key ys k | Some r \<Rightarrow> Some r)"
  by (induction xs) auto

lemma row_at_SomeD: "row_at key rs k = Some r \<Longrightarrow> r \<in> set rs \<and> key r = k"
  by (induction rs) (auto split: if_splits)

lemma row_at_None_iff: "row_at key rs k = None \<longleftrightarrow> k \<notin> key ` set rs"
  by (induction rs) auto

lemma row_at_in_set: "distinct (map key rs) \<Longrightarrow> r \<in> set rs \<Longrightarrow> row_at key rs (key r) = Some r"
  by (induction rs) (auto simp: rev_image_eqI)

lemma row_at_iff: "distinct (map key rs) \<Longrightarrow> row_at key rs k = Some r \<longleftrightarrow> r \<in> set rs \<and> key r = k"
  by (auto dest: row_at_SomeD row_at_in_set)

lemma row_at_update_where [table_simps]:
  "(\<And>r. P r \<Longrightarrow> key (f r) = key r) \<Longrightarrow>
   row_at key (update_where P f rs) k = map_option (\<lambda>r. if P r then f r else r) (row_at key rs k)"
  by (induction rs) auto

lemma row_at_delete_where:
  "distinct (map key rs) \<Longrightarrow> row_at key (delete_where P rs) k =
     (case row_at key rs k of None \<Rightarrow> None | Some r \<Rightarrow> if P r then None else Some r)"
proof (induction rs)
  case (Cons r rs)
  have "P r \<Longrightarrow> key r = k \<Longrightarrow> row_at key (delete_where P rs) k = None"
    using Cons.prems by (auto simp: row_at_None_iff set_delete_where)
  with Cons show ?case by (auto simp: delete_where_def)
qed (simp add: delete_where_def)

subsection \<open>Sorting, limits and permutations\<close>

lemma take_sorted_prefix:
  fixes g :: "'a \<Rightarrow> 'b :: linorder"
  assumes "sorted (map g xs)" "x \<in> set (take n xs)" "y \<in> set (drop n xs)"
  shows "g x \<le> g y"
proof -
  have "sorted (map g (take n xs) @ map g (drop n xs))"
    by (simp add: assms(1) flip: map_append)
  with assms(2,3) show ?thesis by (simp add: sorted_append)
qed

lemma set_take_drop: "set xs = set (take n xs) \<union> set (drop n xs)"
  by (metis append_take_drop_id set_append)

lemma take_all_set: "length xs \<le> n \<Longrightarrow> set (take n xs) = set xs"
  by simp

lemma distinct_map_perm: "mset xs = mset ys \<Longrightarrow> distinct (map g xs) = distinct (map g ys)"
  by (metis mset_eq_imp_distinct_iff mset_map)

lemma sorted_map_filter: "sorted (map g xs) \<Longrightarrow> sorted (map g (filter P xs))"
  by (induction xs) auto

lemma count_list_distinct: "distinct xs \<Longrightarrow> x \<in> set xs \<Longrightarrow> count_list xs x = 1"
  by (induction xs) (auto simp: count_list_0_iff)

lemma find_append:
  "find P (xs @ ys) = (case find P xs of None \<Rightarrow> find P ys | Some x \<Rightarrow> Some x)"
  by (induction xs) auto

lemma length_filter_mono: "(\<And>x. P x \<Longrightarrow> Q x) \<Longrightarrow> length (filter P xs) \<le> length (filter Q xs)"
  by (induction xs) (auto intro: le_SucI)

lemma length_filter_update_where:
  "(\<And>r. P r \<Longrightarrow> \<not> Q (f r)) \<Longrightarrow> length (filter Q (update_where P f rs)) \<le> length (filter Q rs)"
  by (induction rs) (auto intro: le_SucI)

lemma length_filter_key_member:
  assumes "distinct (map g rs)" "set ks \<subseteq> g ` set rs" "distinct ks"
  shows "length (filter (\<lambda>r. g r \<in> set ks) rs) = length ks"
proof -
  have "distinct (map g (filter (\<lambda>r. g r \<in> set ks) rs))"
    by (simp add: assms(1) distinct_map_filter)
  then have "length (filter (\<lambda>r. g r \<in> set ks) rs) = card (set (map g (filter (\<lambda>r. g r \<in> set ks) rs)))"
    by (metis distinct_card length_map)
  also have "set (map g (filter (\<lambda>r. g r \<in> set ks) rs)) = set ks"
    using assms(2) by auto
  also have "card (set ks) = length ks"
    using assms(3) by (rule distinct_card)
  finally show ?thesis .
qed

end
