(* ===== verification/Schema.thy ===== *)
theory Schema
  imports Prelude
begin

section \<open>The database schema\<close>

text \<open>
  \<^verbatim>\<open>sql/schema.sql\<close>: the rows of the \<^verbatim>\<open>jobs\<close>, \<^verbatim>\<open>effects\<close> and
  \<^verbatim>\<open>schedules\<close> tables, with their column defaults, and the database the operations
  act on. \<open>jobs_id_seq\<close> is the sequence behind the \<^verbatim>\<open>bigserial\<close> primary key: a
  value drawn from it is never given back, not even by a rollback. \<open>notifies\<close> holds the
  notifications the open transaction has queued, which PostgreSQL delivers when it commits,
  identical ones collapsed.
\<close>

datatype status = Pending | Running | Succeeded | Dead

text \<open>The text the column holds.\<close>

primrec status_text :: "status \<Rightarrow> string" where
  "status_text Pending = ''pending''"
| "status_text Running = ''running''"
| "status_text Succeeded = ''succeeded''"
| "status_text Dead = ''dead''"

datatype json =
    JNull
  | JBool bool
  | JInt int
  | JFloat real
  | JStr string
  | JArr "json list"
  | JObj "(string \<times> json) list"

type_synonym args = "(string \<times> json) list"

record job =
  jid :: int
  task :: string
  args :: args
  idempotency_key :: "string option"
  status :: status
  run_at :: micros
  attempts :: int
  max_attempts :: int
  recoveries :: int
  max_recoveries :: int
  locked_by :: "string option"
  locked_until :: "micros option"
  last_error :: "string option"
  created_at :: micros
  finished_at :: "micros option"

text \<open>A row of \<open>INSERT INTO jobs (task, args, idempotency_key)\<close>: the other columns default.\<close>

definition new_job :: "micros \<Rightarrow> int \<Rightarrow> string \<Rightarrow> args \<Rightarrow> string option \<Rightarrow> job" where
  "new_job t i tsk a k =
     \<lparr> jid = i, task = tsk, args = a, idempotency_key = k, status = Pending, run_at = t,
       attempts = 0, max_attempts = 5, recoveries = 0, max_recoveries = 10,
       locked_by = None, locked_until = None, last_error = None,
       created_at = t, finished_at = None \<rparr>"

datatype every = Hour | Day

record schedule =
  sname :: string
  stask :: string
  sargs :: args
  interval_seconds :: "int option"
  every :: "every option"
  at_time :: "micros option"
  time_zone :: "string option"
  max_lateness_seconds :: "int option"
  next_run_at :: micros
  screated_at :: micros

text \<open>The two table constraints of \<^verbatim>\<open>schedules\<close>.\<close>

definition schedules_interval_or_clock :: "schedule \<Rightarrow> bool" where
  "schedules_interval_or_clock s \<longleftrightarrow> ((interval_seconds s = None) \<noteq> (every s = None))"

definition schedules_clock_complete :: "schedule \<Rightarrow> bool" where
  "schedules_clock_complete s \<longleftrightarrow>
     every s = None \<or> (at_time s \<noteq> None \<and> time_zone s \<noteq> None)"

record db =
  jobs :: "job list"
  jobs_id_seq :: int
  effects :: "string list"
  schedules :: "schedule list"
  notifies :: "string list"

definition empty_db :: db where
  "empty_db = \<lparr> jobs = [], jobs_id_seq = 1, effects = [], schedules = [], notifies = [] \<rparr>"

text \<open>
  What a statement sees besides the tables: the transaction's \<open>now()\<close>, the ids of the
  rows of \<^verbatim>\<open>jobs\<close> that other open transactions have locked, and the order in which the
  server happens to visit the rows where the statement asks for none. That order is the
  planner's choice: all that is known of it is that it visits every row once.
\<close>

record stmt =
  now :: micros
  locked :: "int list"
  scan :: "job list \<Rightarrow> job list"

definition scan_ok :: "stmt \<Rightarrow> bool" where
  "scan_ok e \<longleftrightarrow> (\<forall>rs. mset (scan e rs) = mset rs)"

lemma set_scan [simp]: "scan_ok e \<Longrightarrow> set (scan e rs) = set rs"
  by (metis scan_ok_def set_mset_mset)

lemma length_scan [simp]: "scan_ok e \<Longrightarrow> length (scan e rs) = length rs"
  by (metis scan_ok_def size_mset)

lemma distinct_map_scan: "scan_ok e \<Longrightarrow> distinct (map g (scan e rs)) = distinct (map g rs)"
  unfolding scan_ok_def by (rule distinct_map_perm) simp

text \<open>\<open>pg_notify\<close>: queue a notification unless the transaction already queued it.\<close>

definition pg_notify :: "string \<Rightarrow> db \<Rightarrow> db" where
  "pg_notify ch d =
     (if ch \<in> set (notifies d) then d else d\<lparr>notifies := notifies d @ [ch]\<rparr>)"

lemma pg_notify_sel [simp]:
  "jobs (pg_notify ch d) = jobs d"
  "jobs_id_seq (pg_notify ch d) = jobs_id_seq d"
  "effects (pg_notify ch d) = effects d"
  "schedules (pg_notify ch d) = schedules d"
  by (simp_all add: pg_notify_def)

lemma notifies_pg_notify: "set (notifies (pg_notify ch d)) = insert ch (set (notifies d))"
  by (auto simp: pg_notify_def)

lemma distinct_notifies_pg_notify:
  "distinct (notifies d) \<Longrightarrow> distinct (notifies (pg_notify ch d))"
  by (simp add: pg_notify_def)

text \<open>
  Transactions. The commit of the view a transaction worked on delivers its notifications;
  a rollback restores the tables it started from, but not the sequence.
\<close>

definition commit_tx :: "db \<Rightarrow> string list \<times> db" where
  "commit_tx d = (notifies d, d\<lparr>notifies := []\<rparr>)"

definition rollback_tx :: "db \<Rightarrow> db \<Rightarrow> db" where
  "rollback_tx before d = before\<lparr>jobs_id_seq := jobs_id_seq d\<rparr>"

lemma rollback_tx_sel [simp]:
  "jobs (rollback_tx b d) = jobs b"
  "jobs_id_seq (rollback_tx b d) = jobs_id_seq d"
  "effects (rollback_tx b d) = effects b"
  "schedules (rollback_tx b d) = schedules b"
  "notifies (rollback_tx b d) = notifies b"
  by (simp_all add: rollback_tx_def)

subsection \<open>Table invariants\<close>

text \<open>
  What every job row the operations write satisfies: a pending row is unlocked and
  unfinished, a running one has an owner and a lease and is unfinished, a succeeded one is
  finished, a dead one is finished and unlocked; the counters are not negative.
\<close>

primrec status_row_ok :: "status \<Rightarrow> job \<Rightarrow> bool" where
  "status_row_ok Pending j \<longleftrightarrow> locked_by j = None \<and> locked_until j = None \<and> finished_at j = None"
| "status_row_ok Running j \<longleftrightarrow> locked_by j \<noteq> None \<and> locked_until j \<noteq> None \<and> finished_at j = None"
| "status_row_ok Succeeded j \<longleftrightarrow> finished_at j \<noteq> None"
| "status_row_ok Dead j \<longleftrightarrow> locked_by j = None \<and> locked_until j = None \<and> finished_at j \<noteq> None"

definition row_ok :: "job \<Rightarrow> bool" where
  "row_ok j \<longleftrightarrow> status_row_ok (status j) j \<and> 0 \<le> attempts j \<and> 0 \<le> recoveries j"

text \<open>The primary key, the sequence ahead of it, and the unique key.\<close>

definition keys_of :: "job list \<Rightarrow> string list" where
  "keys_of rs = List.map_filter idempotency_key rs"

definition jobs_ok :: "db \<Rightarrow> bool" where
  "jobs_ok d \<longleftrightarrow>
     distinct (map jid (jobs d)) \<and> distinct (keys_of (jobs d)) \<and>
     (\<forall>j \<in> set (jobs d). jid j < jobs_id_seq d \<and> row_ok j)"

lemma keys_of_simps [simp]:
  "keys_of [] = []"
  "keys_of (j # rs) = (case idempotency_key j of None \<Rightarrow> keys_of rs | Some k \<Rightarrow> k # keys_of rs)"
  "keys_of (xs @ ys) = keys_of xs @ keys_of ys"
  by (simp_all add: keys_of_def List.map_filter_def split: option.split)

lemma set_keys_of: "k \<in> set (keys_of rs) \<longleftrightarrow> (\<exists>j \<in> set rs. idempotency_key j = Some k)"
  by (induction rs) (auto split: option.splits)

lemma keys_of_update_where [table_simps]:
  "(\<And>j. j \<in> set rs \<Longrightarrow> P j \<Longrightarrow> idempotency_key (f j) = idempotency_key j) \<Longrightarrow>
   keys_of (update_where P f rs) = keys_of rs"
  by (induction rs) (auto split: option.splits)

lemma distinct_keys_delete_where: "distinct (keys_of rs) \<Longrightarrow> distinct (keys_of (delete_where P rs))"
  by (induction rs) (auto simp: delete_where_def set_keys_of split: option.splits)

lemma jobs_okD:
  assumes "jobs_ok d"
  shows "distinct (map jid (jobs d))" "distinct (keys_of (jobs d))"
    "j \<in> set (jobs d) \<Longrightarrow> jid j < jobs_id_seq d" "j \<in> set (jobs d) \<Longrightarrow> row_ok j"
  using assms by (auto simp: jobs_ok_def)

lemma jobs_ok_empty [simp]: "jobs_ok empty_db"
  by (simp add: jobs_ok_def empty_db_def)

lemma row_ok_new_job [simp]: "row_ok (new_job t i tsk a k)"
  by (simp add: row_ok_def new_job_def)

lemma jobs_ok_frame:
  "jobs d' = jobs d \<Longrightarrow> jobs_id_seq d \<le> jobs_id_seq d' \<Longrightarrow> jobs_ok d \<Longrightarrow> jobs_ok d'"
  by (auto simp: jobs_ok_def)

end
