(* ===== verification/Jobs.thy ===== *)
theory Jobs
  imports Schema
begin

section \<open>The operations on jobs\<close>

text \<open>
  \<^verbatim>\<open>src/durable_queue/jobs.py\<close>, one definition per function, with the \<open>SET\<close>
  clause and the \<open>WHERE\<close> clause of each statement as definitions of their own. A
  function that commits applies \<open>conn_commit\<close> to the database it returns. One that can
  raise returns an \<open>exn + _\<close>; raising leaves the database as it was, since the open
  transaction is rolled back.
\<close>

definition conn_commit :: "db \<Rightarrow> db" where
  "conn_commit d = snd (commit_tx d)"

lemma conn_commit_sel [simp]:
  "jobs (conn_commit d) = jobs d"
  "jobs_id_seq (conn_commit d) = jobs_id_seq d"
  "effects (conn_commit d) = effects d"
  "schedules (conn_commit d) = schedules d"
  "notifies (conn_commit d) = []"
  by (simp_all add: conn_commit_def commit_tx_def)

definition JOB_NOTIFY_CHANNEL :: string where
  "JOB_NOTIFY_CHANNEL = ''durable_queue_jobs''"

definition DEFAULT_LEASE_SECONDS :: int where
  "DEFAULT_LEASE_SECONDS = 30"

definition DEFAULT_REAP_BATCH :: int where
  "DEFAULT_REAP_BATCH = 100"

subsection \<open>Enqueueing\<close>

text \<open>The row an \<open>ON CONFLICT (idempotency_key)\<close> finds; two nulls do not conflict.\<close>

definition conflicting :: "string option \<Rightarrow> job list \<Rightarrow> job option" where
  "conflicting k rs = (if k = None then None else find (\<lambda>j. idempotency_key j = k) rs)"

text \<open>
  One row through the \<open>INSERT .. ON CONFLICT .. DO UPDATE .. RETURNING id\<close>. The sequence
  is drawn from before the conflict is looked for.
\<close>

definition insert_job :: "micros \<Rightarrow> string \<Rightarrow> args \<Rightarrow> string option \<Rightarrow> db \<Rightarrow> int \<times> db" where
  "insert_job t tsk a k d =
     (let i = jobs_id_seq d; d' = d\<lparr>jobs_id_seq := i + 1\<rparr>
      in case conflicting k (jobs d) of
           None \<Rightarrow> (i, d'\<lparr>jobs := jobs d @ [new_job t i tsk a k]\<rparr>)
         | Some j \<Rightarrow> (jid j, d'\<lparr>jobs := update_where (\<lambda>r. jid r = jid j)
                                    (\<lambda>r. r\<lparr>idempotency_key := k\<rparr>) (jobs d)\<rparr>))"

definition enqueue :: "stmt \<Rightarrow> string \<Rightarrow> args \<Rightarrow> string option \<Rightarrow> db \<Rightarrow> int \<times> db" where
  "enqueue e tsk a k d =
     (case insert_job (now e) tsk a k d of (i, d') \<Rightarrow> (i, pg_notify JOB_NOTIFY_CHANNEL d'))"

text \<open>
  \<open>unnest(args, keys)\<close> pads the shorter array with nulls: a missing key is a job without
  one, a missing \<open>args\<close> violates the column's \<open>NOT NULL\<close>.
\<close>

fun unnest2 :: "'a list \<Rightarrow> 'b option list \<Rightarrow> ('a option \<times> 'b option) list" where
  "unnest2 [] [] = []"
| "unnest2 (a # as) [] = (Some a, None) # unnest2 as []"
| "unnest2 [] (k # ks) = (None, k) # unnest2 [] ks"
| "unnest2 (a # as) (k # ks) = (Some a, k) # unnest2 as ks"

text \<open>
  The rows of one \<open>INSERT .. SELECT\<close>, in order. \<open>touched\<close> holds the ids this statement
  has inserted or updated: PostgreSQL raises an error if \<open>ON CONFLICT DO UPDATE\<close> would
  affect one of them a second time.
\<close>

fun insert_all :: "micros \<Rightarrow> string \<Rightarrow> (args option \<times> string option) list \<Rightarrow> int list \<Rightarrow> db
    \<Rightarrow> (int list \<times> db) result" where
  "insert_all t tsk [] touched d = Inr ([], d)"
| "insert_all t tsk ((None, k) # rows) touched d =
     Inl (IntegrityError ''null value in column args'')"
| "insert_all t tsk ((Some a, k) # rows) touched d =
     (case conflicting k (jobs d) of
        Some j \<Rightarrow>
          if jid j \<in> set touched
          then Inl (CardinalityViolation ''ON CONFLICT DO UPDATE command cannot affect row a second time'')
          else (case insert_job t tsk a k d of (i, d') \<Rightarrow>
                  bind_result (insert_all t tsk rows (i # touched) d')
                    (\<lambda>(is, d''). Inr (i # is, d'')))
      | None \<Rightarrow>
          (case insert_job t tsk a k d of (i, d') \<Rightarrow>
             bind_result (insert_all t tsk rows (i # touched) d')
               (\<lambda>(is, d''). Inr (i # is, d''))))"

definition enqueue_many :: "stmt \<Rightarrow> string \<Rightarrow> args list \<Rightarrow> string option list option \<Rightarrow> db
    \<Rightarrow> (int list \<times> db) result" where
  "enqueue_many e tsk args_list idempotency_keys d =
     (if args_list = [] then Inr ([], d)
      else
        let ks = (case idempotency_keys of
                    None \<Rightarrow> replicate (length args_list) None
                  | Some ks \<Rightarrow> ks)
        in bind_result (insert_all (now e) tsk (unnest2 args_list ks) [] d)
             (\<lambda>(is, d'). Inr (is, if is = [] then d' else pg_notify JOB_NOTIFY_CHANNEL d')))"

subsection \<open>Claiming and leases\<close>

type_synonym claimed = "int \<times> string \<times> args"

definition due :: "micros \<Rightarrow> job \<Rightarrow> bool" where
  "due t j \<longleftrightarrow> status j = Pending \<and> run_at j \<le> t"

definition claim_row :: "string \<Rightarrow> micros \<Rightarrow> job \<Rightarrow> job" where
  [row_defs]: "claim_row w u j = j\<lparr>status := Running, locked_by := Some w, locked_until := Some u\<rparr>"

definition claim_select :: "stmt \<Rightarrow> int \<Rightarrow> job list \<Rightarrow> int list result" where
  "claim_select e batch_size rs =
     bind_result
       (pg_limit batch_size
          (skip_locked jid (locked e)
             (sort_key (\<lambda>j. (run_at j, jid j)) (filter (due (now e)) rs))))
       (\<lambda>js. Inr (map jid js))"

definition claim_jobs :: "stmt \<Rightarrow> string \<Rightarrow> int \<Rightarrow> int \<Rightarrow> db \<Rightarrow> (claimed list \<times> db) result" where
  "claim_jobs e worker_id lease_seconds batch_size d =
     bind_result (claim_select e batch_size (jobs d))
       (\<lambda>ids.
          let hit = (\<lambda>j. jid j \<in> set ids);
              set_clause = claim_row worker_id (now e + seconds lease_seconds)
          in Inr (map (\<lambda>j. (jid j, task j, args j)) (scan e (map set_clause (filter hit (jobs d)))),
                  conn_commit (d\<lparr>jobs := update_where hit set_clause (jobs d)\<rparr>)))"

definition claim_next_job :: "stmt \<Rightarrow> string \<Rightarrow> int \<Rightarrow> db \<Rightarrow> (claimed option \<times> db) result" where
  "claim_next_job e worker_id lease_seconds d =
     bind_result (claim_jobs e worker_id lease_seconds 1 d)
       (\<lambda>(rows, d'). Inr (case rows of [] \<Rightarrow> (None, d') | r # _ \<Rightarrow> (Some r, d')))"

text \<open>The guard every write to a lease carries.\<close>

definition owned :: "string \<Rightarrow> job \<Rightarrow> bool" where
  "owned w j \<longleftrightarrow> locked_by j = Some w \<and> status j = Running"

definition lease_row :: "micros \<Rightarrow> job \<Rightarrow> job" where
  [row_defs]: "lease_row u j = j\<lparr>locked_until := Some u\<rparr>"

definition extend_lease :: "stmt \<Rightarrow> int \<Rightarrow> string \<Rightarrow> int \<Rightarrow> db \<Rightarrow> db" where
  "extend_lease e job_id worker_id lease_seconds d =
     conn_commit (d\<lparr>jobs := update_where (\<lambda>j. jid j = job_id \<and> owned worker_id j)
                     (lease_row (now e + seconds lease_seconds)) (jobs d)\<rparr>)"

definition extend_leases :: "stmt \<Rightarrow> int list \<Rightarrow> string \<Rightarrow> int \<Rightarrow> db \<Rightarrow> db" where
  "extend_leases e job_ids worker_id lease_seconds d =
     (if job_ids = [] then d
      else conn_commit (d\<lparr>jobs := update_where (\<lambda>j. jid j \<in> set job_ids \<and> owned worker_id j)
                           (lease_row (now e + seconds lease_seconds)) (jobs d)\<rparr>))"

subsection \<open>Reaping\<close>

definition expired :: "micros \<Rightarrow> job \<Rightarrow> bool" where
  "expired t j \<longleftrightarrow> status j = Running \<and> (case locked_until j of None \<Rightarrow> False | Some u \<Rightarrow> u < t)"

definition poisoned :: "job \<Rightarrow> bool" where
  "poisoned j \<longleftrightarrow> max_recoveries j \<le> recoveries j + 1"

definition reap_dead_row :: "micros \<Rightarrow> job \<Rightarrow> job" where
  [row_defs]: "reap_dead_row t j =
     j\<lparr>status := Dead, finished_at := Some t, recoveries := recoveries j + 1,
       locked_by := None, locked_until := None,
       last_error := Some ''worker repeatedly died while running this job''\<rparr>"

definition reap_recover_row :: "job \<Rightarrow> job" where
  [row_defs]: "reap_recover_row j =
     j\<lparr>status := Pending, recoveries := recoveries j + 1,
       locked_by := None, locked_until := None\<rparr>"

definition reap_select :: "stmt \<Rightarrow> (job \<Rightarrow> bool) \<Rightarrow> int \<Rightarrow> job list \<Rightarrow> int list result" where
  "reap_select e P reap_batch rs =
     bind_result (pg_limit reap_batch (skip_locked jid (locked e) (scan e (filter P rs))))
       (\<lambda>js. Inr (map jid js))"

definition reap_sweep :: "stmt \<Rightarrow> (job \<Rightarrow> bool) \<Rightarrow> (job \<Rightarrow> job) \<Rightarrow> int \<Rightarrow> db \<Rightarrow> (int \<times> db) result" where
  "reap_sweep e P f reap_batch d =
     bind_result (reap_select e P reap_batch (jobs d))
       (\<lambda>ids. Inr (int (length (filter (\<lambda>j. jid j \<in> set ids) (jobs d))),
                    d\<lparr>jobs := update_where (\<lambda>j. jid j \<in> set ids) f (jobs d)\<rparr>))"

text \<open>The two sweeps. On an autocommit connection each has a \<open>now()\<close> of its own.\<close>

definition reap_dead :: "stmt \<Rightarrow> int \<Rightarrow> db \<Rightarrow> (int \<times> db) result" where
  "reap_dead e = reap_sweep e (\<lambda>j. expired (now e) j \<and> poisoned j) (reap_dead_row (now e))"

definition reap_recover :: "stmt \<Rightarrow> int \<Rightarrow> db \<Rightarrow> (int \<times> db) result" where
  "reap_recover e = reap_sweep e (expired (now e)) reap_recover_row"

definition reap_expired_jobs :: "stmt \<Rightarrow> stmt \<Rightarrow> int \<Rightarrow> db \<Rightarrow> (int \<times> db) result" where
  "reap_expired_jobs e1 e2 reap_batch d =
     bind_result (reap_dead e1 reap_batch d) (\<lambda>(dead_lettered, d1).
       bind_result (reap_recover e2 reap_batch d1) (\<lambda>(recovered, d2).
         Inr (dead_lettered + recovered, conn_commit d2)))"

subsection \<open>When a worker is next needed\<close>

definition min_opt :: "micros list \<Rightarrow> micros option" where
  "min_opt ts = (if ts = [] then None else Some (Min (set ts)))"

text \<open>\<open>least\<close> ignores nulls.\<close>

fun pg_least :: "micros option \<Rightarrow> micros option \<Rightarrow> micros option" where
  "pg_least None b = b"
| "pg_least a None = a"
| "pg_least (Some a) (Some b) = Some (min a b)"

definition next_due :: "db \<Rightarrow> micros option" where
  "next_due d =
     pg_least (min_opt (map run_at (filter (\<lambda>j. status j = Pending) (jobs d))))
       (min_opt (List.map_filter locked_until (filter (\<lambda>j. status j = Running) (jobs d))))"

definition seconds_until_due :: "stmt \<Rightarrow> db \<Rightarrow> real option \<times> db" where
  "seconds_until_due e d =
     (map_option (\<lambda>t. of_int (t - now e) / 1000000) (next_due d), conn_commit d)"

subsection \<open>Giving jobs back, completing and failing them\<close>

definition release_row :: "job \<Rightarrow> job" where
  [row_defs]: "release_row j = j\<lparr>status := Pending, locked_by := None, locked_until := None\<rparr>"

definition release_jobs :: "int list \<Rightarrow> string \<Rightarrow> db \<Rightarrow> int \<times> db" where
  "release_jobs job_ids worker_id d =
     (if job_ids = [] then (0, d)
      else
        let hit = (\<lambda>j. jid j \<in> set job_ids \<and> owned worker_id j)
        in (int (length (filter hit (jobs d))),
            conn_commit (d\<lparr>jobs := update_where hit release_row (jobs d)\<rparr>)))"

definition succeed_row :: "micros \<Rightarrow> job \<Rightarrow> job" where
  [row_defs]: "succeed_row t j = j\<lparr>status := Succeeded, finished_at := Some t\<rparr>"

definition mark_succeeded_in_transaction :: "stmt \<Rightarrow> int \<Rightarrow> string \<Rightarrow> db \<Rightarrow> bool \<times> db" where
  "mark_succeeded_in_transaction e job_id worker_id d =
     (let hit = (\<lambda>j. jid j = job_id \<and> owned worker_id j)
      in (filter hit (jobs d) \<noteq> [],
          d\<lparr>jobs := update_where hit (succeed_row (now e)) (jobs d)\<rparr>))"

definition mark_succeeded :: "stmt \<Rightarrow> int \<Rightarrow> string \<Rightarrow> db \<Rightarrow> bool \<times> db" where
  "mark_succeeded e job_id worker_id d =
     (case mark_succeeded_in_transaction e job_id worker_id d of
        (still_owned, d') \<Rightarrow> (still_owned, conn_commit d'))"

text \<open>
  \<^verbatim>\<open>random.uniform(0, b)\<close> is \<open>b * random()\<close>; \<open>u\<close> is the sample, from \<open>[0, 1)\<close>.
  \<open>2 ** attempts\<close> is an exact integer that the multiplication by a float converts, which
  raises from \<open>2 ** 1024\<close> on.
\<close>

definition compute_backoff :: "real \<Rightarrow> int \<Rightarrow> real \<Rightarrow> real \<Rightarrow> real result" where
  "compute_backoff u att base_seconds max_seconds =
     (if 1024 \<le> att then Inl (OverflowError ''int too large to convert to float'')
      else let upper_bound = min max_seconds (base_seconds * 2 powi att)
           in Inr (upper_bound * u))"

definition count_failure_row :: "int option \<Rightarrow> job \<Rightarrow> job" where
  [row_defs]: "count_failure_row limit j =
     j\<lparr>attempts := attempts j + 1,
       max_attempts := (case limit of None \<Rightarrow> max_attempts j | Some m \<Rightarrow> m)\<rparr>"

definition fail_dead_row :: "micros \<Rightarrow> string \<Rightarrow> job \<Rightarrow> job" where
  [row_defs]: "fail_dead_row t err j =
     j\<lparr>status := Dead, finished_at := Some t, last_error := Some err,
       locked_by := None, locked_until := None\<rparr>"

definition fail_retry_row :: "micros \<Rightarrow> string \<Rightarrow> job \<Rightarrow> job" where
  [row_defs]: "fail_retry_row t err j =
     j\<lparr>status := Pending, run_at := t, last_error := Some err,
       locked_by := None, locked_until := None\<rparr>"

text \<open>The first UPDATE, with what it returns: the row's counters, if it was still owned.\<close>

definition count_failure :: "int \<Rightarrow> string \<Rightarrow> int option \<Rightarrow> db \<Rightarrow> (int \<times> int) option \<times> db" where
  "count_failure job_id worker_id limit d =
     (let hit = (\<lambda>j. jid j = job_id \<and> owned worker_id j)
      in (map_option (\<lambda>j. (attempts j, max_attempts j))
            (map_option (count_failure_row limit) (find hit (jobs d))),
          d\<lparr>jobs := update_where hit (count_failure_row limit) (jobs d)\<rparr>))"

text \<open>The second, by id alone, with the row the first returned.\<close>

definition settle_failure :: "stmt \<Rightarrow> real \<Rightarrow> int \<Rightarrow> string \<Rightarrow> bool \<Rightarrow> (int \<times> int) option \<Rightarrow> db
    \<Rightarrow> db result" where
  "settle_failure e u job_id err permanent row d =
     (case row of
        None \<Rightarrow> Inr d
      | Some (att, limit) \<Rightarrow>
          if permanent \<or> limit \<le> att
          then Inr (d\<lparr>jobs := update_where (\<lambda>j. jid j = job_id) (fail_dead_row (now e) err) (jobs d)\<rparr>)
          else bind_result (compute_backoff u att 1 300) (\<lambda>delay.
                 Inr (d\<lparr>jobs := update_where (\<lambda>j. jid j = job_id)
                        (fail_retry_row (now e + timedelta_seconds delay) err) (jobs d)\<rparr>)))"

definition mark_failed :: "stmt \<Rightarrow> real \<Rightarrow> int \<Rightarrow> string \<Rightarrow> string \<Rightarrow> bool \<Rightarrow> int option \<Rightarrow> db
    \<Rightarrow> (bool \<times> db) result" where
  "mark_failed e u job_id worker_id err permanent limit d =
     (case count_failure job_id worker_id limit d of (row, d1) \<Rightarrow>
        bind_result (settle_failure e u job_id err permanent row d1)
          (\<lambda>d2. Inr (row \<noteq> None, conn_commit d2)))"

subsection \<open>Retention, inspection and the dead-letter retry\<close>

definition completed_before :: "micros \<Rightarrow> job \<Rightarrow> bool" where
  "completed_before t j \<longleftrightarrow>
     status j \<in> {Succeeded, Dead} \<and> (case finished_at j of None \<Rightarrow> False | Some f \<Rightarrow> f < t)"

definition delete_completed_jobs :: "stmt \<Rightarrow> real \<Rightarrow> int \<Rightarrow> db \<Rightarrow> (int \<times> db) result" where
  "delete_completed_jobs e older_than_seconds batch d =
     bind_result
       (pg_limit batch
          (skip_locked jid (locked e)
             (sort_key jid
                (filter (completed_before (now e - timedelta_seconds older_than_seconds)) (jobs d)))))
       (\<lambda>js. let hit = (\<lambda>j. jid j \<in> jid ` set js)
             in Inr (int (length (filter hit (jobs d))),
                     conn_commit (d\<lparr>jobs := delete_where hit (jobs d)\<rparr>)))"

definition get_job :: "int \<Rightarrow> db \<Rightarrow> job option" where
  "get_job job_id d = row_at jid (jobs d) job_id"

record job_summary =
  l_id :: int
  l_task :: string
  l_status :: status
  l_attempts :: int
  l_run_at :: micros
  l_created_at :: micros
  l_last_error :: "string option"

definition summary_of :: "job \<Rightarrow> job_summary" where
  "summary_of j =
     \<lparr> l_id = jid j, l_task = task j, l_status = status j, l_attempts = attempts j,
       l_run_at = run_at j, l_created_at = created_at j, l_last_error = last_error j \<rparr>"

definition list_jobs :: "stmt \<Rightarrow> string option \<Rightarrow> int \<Rightarrow> db \<Rightarrow> job_summary list result" where
  "list_jobs e st limit d =
     bind_result
       (pg_limit limit
          (sort_key (\<lambda>j. - created_at j)
             (scan e (filter (\<lambda>j. case st of None \<Rightarrow> True | Some s \<Rightarrow> status_text (status j) = s)
                (jobs d)))))
       (\<lambda>js. Inr (map summary_of js))"

definition retry_row :: "micros \<Rightarrow> job \<Rightarrow> job" where
  [row_defs]: "retry_row t j =
     j\<lparr>status := Pending, attempts := 0, recoveries := 0, run_at := t, finished_at := None\<rparr>"

definition retry_job :: "stmt \<Rightarrow> int \<Rightarrow> db \<Rightarrow> bool \<times> db" where
  "retry_job e job_id d =
     (let hit = (\<lambda>j. jid j = job_id \<and> status j = Dead)
      in (0 < length (filter hit (jobs d)),
          conn_commit (d\<lparr>jobs := update_where hit (retry_row (now e)) (jobs d)\<rparr>)))"

record queue_stats =
  st_pending :: int
  st_running :: int
  st_succeeded :: int
  st_dead :: int
  oldest_pending_age_seconds :: "real option"

definition count_status :: "status \<Rightarrow> db \<Rightarrow> int" where
  "count_status s d = int (length (filter (\<lambda>j. status j = s) (jobs d)))"

text \<open>Two statements, each with a snapshot of its own: \<open>d1\<close> and \<open>d2\<close>.\<close>

definition get_queue_stats :: "stmt \<Rightarrow> db \<Rightarrow> db \<Rightarrow> queue_stats" where
  "get_queue_stats e d1 d2 =
     \<lparr> st_pending = count_status Pending d1, st_running = count_status Running d1,
       st_succeeded = count_status Succeeded d1, st_dead = count_status Dead d1,
       oldest_pending_age_seconds =
         (case sort_key run_at (filter (due (now e)) (jobs d2)) of
            [] \<Rightarrow> None
          | j # _ \<Rightarrow> Some (of_int (now e - run_at j) / 1000000)) \<rparr>"

end
