(* ===== verification/Jobs_Laws.thy ===== *)
theory Jobs_Laws
  imports Jobs
begin

section \<open>Laws of the operations on jobs\<close>

text \<open>
  The transitions a job's status can make, the contract \<open>row_write\<close> that the row update of
  every statement meets, its extension \<open>owned_write\<close> for the writes guarded by
  \<^verbatim>\<open>locked_by\<close>, and their interpretations on the statements of
  \<^verbatim>\<open>jobs.py\<close>. The facts about tables are proved once, inside the locales.
\<close>

subsection \<open>Status transitions\<close>

inductive status_step :: "status \<Rightarrow> status \<Rightarrow> bool" where
  claimed: "status_step Pending Running"
| given_back: "status_step Running Pending"
| completed: "status_step Running Succeeded"
| buried: "status_step Running Dead"
| revived: "status_step Dead Pending"

code_pred status_step .

inductive_cases from_Pending [elim!]: "status_step Pending s"
inductive_cases from_Succeeded [elim!]: "status_step Succeeded s"
inductive_cases from_Dead [elim!]: "status_step Dead s"
inductive_simps status_step_to_simps [simp]:
  "status_step s Succeeded" "status_step s Dead" "status_step s Running" "status_step s Pending"

abbreviation status_steps0 :: "status \<Rightarrow> status \<Rightarrow> bool" where
  "status_steps0 s t \<equiv> s = t \<or> status_step s t"

text \<open>The part of a row no statement after the INSERT writes.\<close>

definition same_work :: "job \<Rightarrow> job \<Rightarrow> bool" where
  "same_work j j' \<longleftrightarrow>
     jid j' = jid j \<and> task j' = task j \<and> args j' = args j \<and>
     idempotency_key j' = idempotency_key j \<and> created_at j' = created_at j \<and>
     max_recoveries j' = max_recoveries j"

lemma same_work_refl [simp]: "same_work j j"
  by (simp add: same_work_def)

lemma same_work_trans: "same_work i j \<Longrightarrow> same_work j k \<Longrightarrow> same_work i k"
  by (simp add: same_work_def)

text \<open>
  What one operation does to the jobs there were before: a row that is gone had finished,
  and any other keeps its work and makes at most one transition.
\<close>

definition jobs_evolve :: "db \<Rightarrow> db \<Rightarrow> bool" where
  "jobs_evolve d d' \<longleftrightarrow>
     jobs_id_seq d \<le> jobs_id_seq d' \<and>
     (\<forall>i j. get_job i d = Some j \<longrightarrow>
        (case get_job i d' of
           None \<Rightarrow> status j \<in> {Succeeded, Dead}
         | Some j' \<Rightarrow> same_work j j' \<and> status_steps0 (status j) (status j'))) \<and>
     (\<forall>i. get_job i d = None \<longrightarrow> get_job i d' \<noteq> None \<longrightarrow> jobs_id_seq d \<le> i)"

lemma jobs_evolveI:
  assumes "jobs_id_seq d \<le> jobs_id_seq d'"
    and "\<And>i j. get_job i d = Some j \<Longrightarrow>
      (get_job i d' = None \<and> status j \<in> {Succeeded, Dead}) \<or>
      (\<exists>j'. get_job i d' = Some j' \<and> same_work j j' \<and> status_steps0 (status j) (status j'))"
    and "\<And>i. get_job i d = None \<Longrightarrow> get_job i d' \<noteq> None \<Longrightarrow> jobs_id_seq d \<le> i"
  shows "jobs_evolve d d'"
  unfolding jobs_evolve_def using assms by (fastforce split: option.split)

lemma jobs_evolveD:
  assumes "jobs_evolve d d'"
  shows "jobs_id_seq d \<le> jobs_id_seq d'"
    and "get_job i d = Some j \<Longrightarrow>
      (get_job i d' = None \<and> status j \<in> {Succeeded, Dead}) \<or>
      (\<exists>j'. get_job i d' = Some j' \<and> same_work j j' \<and> status_steps0 (status j) (status j'))"
    and "get_job i d = None \<Longrightarrow> get_job i d' \<noteq> None \<Longrightarrow> jobs_id_seq d \<le> i"
proof -
  show "jobs_id_seq d \<le> jobs_id_seq d'"
    using assms unfolding jobs_evolve_def by blast
  show "get_job i d = None \<Longrightarrow> get_job i d' \<noteq> None \<Longrightarrow> jobs_id_seq d \<le> i"
    using assms unfolding jobs_evolve_def by blast
  assume "get_job i d = Some j"
  with assms have "case get_job i d' of None \<Rightarrow> status j \<in> {Succeeded, Dead}
      | Some j' \<Rightarrow> same_work j j' \<and> status_steps0 (status j) (status j')"
    unfolding jobs_evolve_def by blast
  then show "(get_job i d' = None \<and> status j \<in> {Succeeded, Dead}) \<or>
      (\<exists>j'. get_job i d' = Some j' \<and> same_work j j' \<and> status_steps0 (status j) (status j'))"
    by (cases "get_job i d'") simp_all
qed

lemma jobs_evolve_gone:
  "jobs_evolve d d' \<Longrightarrow> get_job i d = None \<Longrightarrow> i < jobs_id_seq d \<Longrightarrow> get_job i d' = None"
  by (rule ccontr) (drule (2) jobs_evolveD(3), simp)

lemma jobs_evolve_frame:
  "jobs d' = jobs d \<Longrightarrow> jobs_id_seq d \<le> jobs_id_seq d' \<Longrightarrow> jobs_evolve d d'"
  by (simp add: jobs_evolve_def get_job_def split: option.split)

subsection \<open>Rows and ids\<close>

lemma get_job_conn_commit [simp]: "get_job i (conn_commit d) = get_job i d"
  by (simp add: get_job_def)

lemma get_job_in_set: "jobs_ok d \<Longrightarrow> j \<in> set (jobs d) \<Longrightarrow> get_job (jid j) d = Some j"
  by (simp add: get_job_def jobs_ok_def row_at_in_set)

lemma get_job_SomeD: "get_job i d = Some j \<Longrightarrow> j \<in> set (jobs d) \<and> jid j = i"
  unfolding get_job_def by (rule row_at_SomeD)

lemma get_job_iff: "jobs_ok d \<Longrightarrow> get_job i d = Some j \<longleftrightarrow> j \<in> set (jobs d) \<and> jid j = i"
  using get_job_in_set get_job_SomeD by blast

lemma get_job_row_ok: "jobs_ok d \<Longrightarrow> get_job i d = Some j \<Longrightarrow> row_ok j"
  by (auto dest: get_job_SomeD jobs_okD)

lemma get_job_below_seq: "jobs_ok d \<Longrightarrow> get_job i d = Some j \<Longrightarrow> i < jobs_id_seq d"
  by (auto dest: get_job_SomeD jobs_okD)

lemma key_member_iff:
  assumes "distinct (map key rs)" "set js \<subseteq> set rs" "r \<in> set rs"
  shows "key r \<in> key ` set js \<longleftrightarrow> r \<in> set js"
  using assms by (auto simp: distinct_map inj_on_def)

lemma jobs_ok_conn_commit [simp]: "jobs_ok (conn_commit d) = jobs_ok d"
  by (simp add: jobs_ok_def)

lemma jobs_evolve_conn_commit [simp]: "jobs_evolve d (conn_commit d') = jobs_evolve d d'"
  by (simp add: jobs_evolve_def)

subsection \<open>The contract of a row update\<close>

locale row_write =
  fixes guard :: "job \<Rightarrow> bool"
    and upd :: "job \<Rightarrow> job"
  assumes upd_work: "same_work j (upd j)"
    and upd_ok: "guard j \<Longrightarrow> row_ok j \<Longrightarrow> row_ok (upd j)"
    and upd_step: "guard j \<Longrightarrow> status_steps0 (status j) (status (upd j))"
begin

lemma upd_id: "jid (upd j) = jid j"
  using upd_work by (simp add: same_work_def)

lemma upd_key: "idempotency_key (upd j) = idempotency_key j"
  using upd_work by (simp add: same_work_def)

lemma get_job_write:
  "get_job i (d\<lparr>jobs := update_where hit upd (jobs d)\<rparr>) =
     map_option (\<lambda>j. if hit j then upd j else j) (get_job i d)"
  by (simp add: get_job_def table_simps upd_id)

lemma jobs_ok_write:
  assumes "jobs_ok d" and "\<And>j. j \<in> set (jobs d) \<Longrightarrow> hit j \<Longrightarrow> guard j"
  shows "jobs_ok (d\<lparr>jobs := update_where hit upd (jobs d)\<rparr>)"
  using assms
  by (auto simp: jobs_ok_def table_simps upd_id upd_key intro!: upd_ok)

lemma jobs_evolve_write:
  assumes "jobs_ok d" and "\<And>j. j \<in> set (jobs d) \<Longrightarrow> hit j \<Longrightarrow> guard j"
  shows "jobs_evolve d (d\<lparr>jobs := update_where hit upd (jobs d)\<rparr>)"
proof (rule jobs_evolveI)
  fix i j
  assume "get_job i d = Some j"
  moreover from this have "j \<in> set (jobs d)" by (auto dest: get_job_SomeD)
  ultimately show "(get_job i (d\<lparr>jobs := update_where hit upd (jobs d)\<rparr>) = None \<and>
      status j \<in> {Succeeded, Dead}) \<or>
    (\<exists>j'. get_job i (d\<lparr>jobs := update_where hit upd (jobs d)\<rparr>) = Some j' \<and>
      same_work j j' \<and> status_steps0 (status j) (status j'))"
    using assms(2) upd_work upd_step by (auto simp: get_job_write)
qed (auto simp: get_job_write)

end

text \<open>Writes guarded by the lease: rows another worker owns are left alone.\<close>

locale owned_write = row_write guard upd
  for guard :: "job \<Rightarrow> bool" and upd :: "job \<Rightarrow> job" +
  fixes w :: string
  assumes guard_owned: "guard j \<Longrightarrow> owned w j"
begin

lemma others_untouched:
  assumes "get_job i d = Some j" "\<not> owned w j"
    and "\<And>j. j \<in> set (jobs d) \<Longrightarrow> hit j \<Longrightarrow> guard j"
  shows "get_job i (d\<lparr>jobs := update_where hit upd (jobs d)\<rparr>) = Some j"
  using assms get_job_SomeD [OF assms(1)] guard_owned by (auto simp: get_job_write)

end

subsection \<open>The statements meet the contract\<close>

lemmas row_cases = row_ok_def same_work_def owned_def due_def expired_def row_defs

interpretation claim: row_write "due t" "claim_row w u" for t w u
  by unfold_locales (auto simp: row_cases)

interpretation lease: owned_write "owned w" "lease_row u" w for w u
  by unfold_locales (auto simp: row_cases)

interpretation reapd: row_write "expired t" "reap_dead_row t'" for t t'
  by unfold_locales (auto simp: row_cases)

interpretation reapr: row_write "expired t" "reap_recover_row" for t
  by unfold_locales (auto simp: row_cases)

interpretation releas: owned_write "owned w" "release_row" w for w
  by unfold_locales (auto simp: row_cases)

interpretation succ: owned_write "owned w" "succeed_row t" w for w t
  by unfold_locales (auto simp: row_cases)

interpretation count: owned_write "owned w" "count_failure_row limit" w for w limit
  by unfold_locales (auto simp: row_cases split: option.split)

text \<open>A failure is two updates of the same row; together they meet the contract too.\<close>

interpretation faild: owned_write "owned w" "\<lambda>j. fail_dead_row t err (count_failure_row limit j)" w
  for w t err limit
  by unfold_locales (auto simp: row_cases split: option.split)

interpretation failr: owned_write "owned w" "\<lambda>j. fail_retry_row t err (count_failure_row limit j)" w
  for w t err limit
  by unfold_locales (auto simp: row_cases split: option.split)

interpretation revive: row_write "\<lambda>j. status j = Dead" "retry_row t" for t
  by unfold_locales (auto simp: row_cases)

end
