(* ===== verification/Jobs_Steps.thy ===== *)
theory Jobs_Steps
  imports Jobs_Laws
begin

section \<open>Every operation keeps the table well formed and moves jobs along\<close>

text \<open>
  For each operation of \<^verbatim>\<open>jobs.py\<close> an elimination rule that says which rows it hits, the
  row it leaves behind each id (\<open>get_job_..\<close>), and that it preserves \<open>jobs_ok\<close> and makes
  the jobs evolve. They meet in the step relation \<open>jobs_step\<close>, one rule per operation.
\<close>

subsection \<open>Enqueueing\<close>

lemma conflicting_SomeD:
  "conflicting k rs = Some j \<Longrightarrow> j \<in> set rs \<and> idempotency_key j = k \<and> k \<noteq> None"
  by (auto simp: conflicting_def find_Some_iff split: if_splits)

lemma conflicting_None_iff:
  "conflicting k rs = None \<longleftrightarrow> (k = None \<or> (\<forall>j \<in> set rs. idempotency_key j \<noteq> k))"
  by (auto simp: conflicting_def find_None_iff)

lemma conflicting_same_row:
  assumes "distinct (map jid rs)" "conflicting k rs = Some j"
  shows "update_where (\<lambda>r. jid r = jid j) (\<lambda>r. r\<lparr>idempotency_key := k\<rparr>) rs = rs"
proof (rule update_where_same)
  fix r
  assume "r \<in> set rs" "jid r = jid j"
  with conflicting_SomeD [OF assms(2)] assms(1) have "r = j"
    by (auto simp: distinct_map inj_on_def)
  with conflicting_SomeD [OF assms(2)] show "r\<lparr>idempotency_key := k\<rparr> = r" by simp
qed

lemma insert_job_conflict:
  assumes "jobs_ok d" "conflicting k (jobs d) = Some j"
  shows "insert_job t tsk a k d = (jid j, d\<lparr>jobs_id_seq := jobs_id_seq d + 1\<rparr>)"
  using assms conflicting_same_row [of "jobs d" k j]
  by (simp add: insert_job_def jobs_ok_def)

lemma insert_job_fresh:
  assumes "conflicting k (jobs d) = None"
  shows "insert_job t tsk a k d =
    (jobs_id_seq d, d\<lparr>jobs_id_seq := jobs_id_seq d + 1,
                      jobs := jobs d @ [new_job t (jobs_id_seq d) tsk a k]\<rparr>)"
  using assms by (simp add: insert_job_def Let_def)

lemma get_job_append_fresh:
  assumes "jobs_ok d" "jid j = jobs_id_seq d"
  shows "row_at jid (jobs d @ [j]) i = (if i = jobs_id_seq d then Some j else get_job i d)"
proof -
  have "get_job (jobs_id_seq d) d = None"
    using get_job_below_seq [OF assms(1)] by (cases "get_job (jobs_id_seq d) d") auto
  then show ?thesis
    using assms(2) by (auto simp: row_at_append get_job_def split: option.split)
qed

lemma jobs_ok_append_fresh:
  assumes "jobs_ok d" "conflicting k (jobs d) = None"
  shows "jobs_ok (d\<lparr>jobs_id_seq := jobs_id_seq d + 1,
                    jobs := jobs d @ [new_job t (jobs_id_seq d) tsk a k]\<rparr>)"
  using assms jobs_okD [OF assms(1)]
  by (fastforce simp: jobs_ok_def conflicting_None_iff new_job_def set_keys_of row_ok_def
      split: option.split)

lemma insert_job_jobs_ok: "jobs_ok d \<Longrightarrow> insert_job t tsk a k d = (i, d') \<Longrightarrow> jobs_ok d'"
  by (cases "conflicting k (jobs d)")
    (auto simp: insert_job_fresh insert_job_conflict jobs_ok_append_fresh intro: jobs_ok_frame)

text \<open>After an insert, the id names a row with the key asked for; other ids are as before.\<close>

lemma insert_job_id:
  "insert_job t tsk a k d = (i, d') \<Longrightarrow>
   i = (case conflicting k (jobs d) of None \<Rightarrow> jobs_id_seq d | Some j \<Rightarrow> jid j)"
  by (auto simp: insert_job_def Let_def split: option.splits)

lemma insert_job_seq: "insert_job t tsk a k d = (i, d') \<Longrightarrow> jobs_id_seq d' = jobs_id_seq d + 1"
  by (auto simp: insert_job_def Let_def split: option.splits)

lemma get_job_insert:
  assumes "jobs_ok d" "insert_job t tsk a k d = (i, d')"
  shows "get_job i' d' =
    (if i' = i then Some (case conflicting k (jobs d) of
                            None \<Rightarrow> new_job t i tsk a k | Some j \<Rightarrow> j)
     else get_job i' d)"
proof (cases "conflicting k (jobs d)")
  case None
  with assms show ?thesis
    by (auto simp: insert_job_fresh get_job_append_fresh get_job_def [of _ "jobs_update _ _"] new_job_def)
next
  case (Some c)
  then have "get_job (jid c) d = Some c"
    using assms(1) by (auto dest: conflicting_SomeD intro: get_job_in_set)
  with Some assms show ?thesis
    by (auto simp: insert_job_conflict get_job_def)
qed

lemma get_job_insert_old:
  assumes "jobs_ok d" "insert_job t tsk a k d = (i, d')" "get_job i' d = Some j"
  shows "get_job i' d' = Some j"
proof (cases "conflicting k (jobs d)")
  case None
  with assms get_job_below_seq [OF assms(1,3)] show ?thesis
    by (auto simp: get_job_insert dest: insert_job_id)
next
  case (Some c)
  then have "get_job (jid c) d = Some c"
    using assms(1) by (auto dest: conflicting_SomeD intro: get_job_in_set)
  with Some assms insert_job_id [OF assms(2)] show ?thesis
    by (auto simp: get_job_insert)
qed

lemma jobs_evolve_insert:
  assumes "jobs_ok d" "insert_job t tsk a k d = (i, d')"
  shows "jobs_evolve d d'"
proof (rule jobs_evolveI)
  fix i'
  assume "get_job i' d = None" "get_job i' d' \<noteq> None"
  then show "jobs_id_seq d \<le> i'"
    using insert_job_id [OF assms(2)] assms(1)
    by (auto simp: get_job_insert [OF assms] get_job_in_set dest!: conflicting_SomeD
        split: if_splits option.splits)
qed (use assms insert_job_seq [OF assms(2)] in \<open>auto dest: get_job_insert_old\<close>)

lemma get_job_pg_notify [simp]: "get_job i (pg_notify ch d) = get_job i d"
  by (simp add: get_job_def)

lemma jobs_ok_pg_notify [simp]: "jobs_ok (pg_notify ch d) = jobs_ok d"
  by (simp add: jobs_ok_def)

lemma jobs_evolve_pg_notify [simp]: "jobs_evolve d (pg_notify ch d') = jobs_evolve d d'"
  by (simp add: jobs_evolve_def)

lemma enqueue_unfold:
  "enqueue e tsk a k d = (i, d') \<longleftrightarrow>
   (\<exists>d1. insert_job (now e) tsk a k d = (i, d1) \<and> d' = pg_notify JOB_NOTIFY_CHANNEL d1)"
  by (auto simp: enqueue_def split: prod.splits)

lemma enqueue_jobs_ok: "jobs_ok d \<Longrightarrow> enqueue e tsk a k d = (i, d') \<Longrightarrow> jobs_ok d'"
  by (auto simp: enqueue_unfold intro: insert_job_jobs_ok)

lemma enqueue_evolve: "jobs_ok d \<Longrightarrow> enqueue e tsk a k d = (i, d') \<Longrightarrow> jobs_evolve d d'"
  by (auto simp: enqueue_unfold intro: jobs_evolve_insert)

subsection \<open>Claiming\<close>

text \<open>The rows a claim may take, in the order it takes them.\<close>

definition claim_queue :: "stmt \<Rightarrow> job list \<Rightarrow> job list" where
  "claim_queue e rs =
     skip_locked jid (locked e) (sort_key (\<lambda>j. (run_at j, jid j)) (filter (due (now e)) rs))"

lemma set_claim_queue:
  "set (claim_queue e rs) = {j \<in> set rs. due (now e) j \<and> jid j \<notin> set (locked e)}"
  by (auto simp: claim_queue_def table_simps)

lemma sorted_claim_queue: "sorted (map (\<lambda>j. (run_at j, jid j)) (claim_queue e rs))"
  unfolding claim_queue_def skip_locked_def by (intro sorted_map_filter) simp

lemma distinct_map_sort_key [simp]: "distinct (map g (sort_key f xs)) = distinct (map g xs)"
  by (rule distinct_map_perm) simp

lemma distinct_claim_queue:
  "distinct (map jid rs) \<Longrightarrow> distinct (map jid (claim_queue e rs))"
  unfolding claim_queue_def skip_locked_def by (simp add: distinct_map_filter)

lemma claim_jobs_Inr_iff:
  "claim_jobs e w l n d = Inr (rows, d') \<longleftrightarrow>
     0 \<le> n \<and>
     (let ids = jid ` set (take (nat n) (claim_queue e (jobs d)));
          f = claim_row w (now e + seconds l)
      in rows = map (\<lambda>j. (jid j, task j, args j))
                  (scan e (map f (filter (\<lambda>j. jid j \<in> ids) (jobs d)))) \<and>
         d' = conn_commit (d\<lparr>jobs := update_where (\<lambda>j. jid j \<in> ids) f (jobs d)\<rparr>))"
  by (auto simp: claim_jobs_def claim_select_def claim_queue_def Let_def pg_limit_def)

text \<open>The same with the claimed rows named.\<close>

lemma claim_jobsE:
  assumes "claim_jobs e w l n d = Inr (rows, d')" "jobs_ok d" "scan_ok e"
  obtains js where
    "0 \<le> n" "js = take (nat n) (claim_queue e (jobs d))"
    "set js \<subseteq> {j \<in> set (jobs d). due (now e) j \<and> jid j \<notin> set (locked e)}"
    "distinct (map jid js)"
    "d' = conn_commit (d\<lparr>jobs := update_where (\<lambda>j. j \<in> set js)
              (claim_row w (now e + seconds l)) (jobs d)\<rparr>)"
    "mset rows = mset (map (\<lambda>j. (jid j, task j, args j)) js)"
proof -
  define js where "js = take (nat n) (claim_queue e (jobs d))"
  let ?f = "claim_row w (now e + seconds l)"
  have ok: "distinct (map jid (jobs d))" using assms(2) by (rule jobs_okD)
  have sub: "set js \<subseteq> {j \<in> set (jobs d). due (now e) j \<and> jid j \<notin> set (locked e)}"
    unfolding js_def set_claim_queue [symmetric] by (rule set_take_subset)
  have mem: "jid j \<in> jid ` set js \<longleftrightarrow> j \<in> set js" if "j \<in> set (jobs d)" for j
    using ok _ that by (rule key_member_iff) (use sub in auto)
  have dist: "distinct (map jid js)"
    unfolding js_def take_map [symmetric] by (intro distinct_take distinct_claim_queue ok)
  have hits: "filter (\<lambda>j. jid j \<in> jid ` set js) (jobs d) = filter (\<lambda>j. j \<in> set js) (jobs d)"
    by (rule filter_cong) (simp_all add: mem)
  have "distinct (jobs d)" "distinct js"
    using ok dist by (simp_all add: distinct_map)
  then have perm: "mset (filter (\<lambda>j. j \<in> set js) (jobs d)) = mset js"
    using sub by (intro set_eq_iff_mset_eq_distinct [THEN iffD1]) auto
  have "mset rows = image_mset (\<lambda>j. (jid j, task j, args j)) (mset (map ?f js))"
    using assms(1,3) perm
    by (simp add: claim_jobs_Inr_iff Let_def hits scan_ok_def flip: js_def)
  also have "\<dots> = mset (map (\<lambda>j. (jid j, task j, args j)) js)"
    by (simp add: image_mset.compositionality comp_def claim_row_def)
  finally have "mset rows = mset (map (\<lambda>j. (jid j, task j, args j)) js)" .
  moreover have "update_where (\<lambda>j. jid j \<in> jid ` set js) ?f (jobs d) =
      update_where (\<lambda>j. j \<in> set js) ?f (jobs d)"
    by (rule update_where_cong) (simp_all add: mem)
  then have "d' = conn_commit (d\<lparr>jobs := update_where (\<lambda>j. j \<in> set js) ?f (jobs d)\<rparr>)"
    using assms(1) by (simp add: claim_jobs_Inr_iff Let_def flip: js_def)
  ultimately show ?thesis
    using that [of js] sub dist assms(1) by (simp add: js_def claim_jobs_Inr_iff Let_def)
qed

lemma claim_jobs_ok:
  assumes "claim_jobs e w l n d = Inr (rows, d')" "jobs_ok d" "scan_ok e"
  shows "jobs_ok d'" "jobs_evolve d d'"
proof -
  obtain js where js: "set js \<subseteq> {j \<in> set (jobs d). due (now e) j \<and> jid j \<notin> set (locked e)}"
    and d': "d' = conn_commit (d\<lparr>jobs := update_where (\<lambda>j. j \<in> set js)
              (claim_row w (now e + seconds l)) (jobs d)\<rparr>)"
    by (rule claim_jobsE [OF assms])
  show "jobs_ok d'" unfolding d' jobs_ok_conn_commit
    by (rule claim.jobs_ok_write [OF assms(2), of _ "now e"]) (use js in auto)
  show "jobs_evolve d d'" unfolding d' jobs_evolve_conn_commit
    by (rule claim.jobs_evolve_write [OF assms(2), of _ "now e"]) (use js in auto)
qed

lemma get_job_claim:
  assumes "claim_jobs e w l n d = Inr (rows, d')" "jobs_ok d" "scan_ok e"
  shows "get_job i d' =
    map_option (\<lambda>j. if i \<in> fst ` set rows then claim_row w (now e + seconds l) j else j) (get_job i d)"
proof -
  obtain js where js: "set js \<subseteq> {j \<in> set (jobs d). due (now e) j \<and> jid j \<notin> set (locked e)}"
    and d': "d' = conn_commit (d\<lparr>jobs := update_where (\<lambda>j. j \<in> set js)
              (claim_row w (now e + seconds l)) (jobs d)\<rparr>)"
    and rows: "mset rows = mset (map (\<lambda>j. (jid j, task j, args j)) js)"
    by (rule claim_jobsE [OF assms])
  have "set rows = (\<lambda>j. (jid j, task j, args j)) ` set js"
    using arg_cong [OF rows, of set_mset] by simp
  then have ids: "fst ` set rows = jid ` set js" by (auto simp: image_image)
  have "i \<in> jid ` set js \<longleftrightarrow> j \<in> set js" if "get_job i d = Some j" for j
    using that js key_member_iff [of jid "jobs d" js j] jobs_okD(1) [OF assms(2)]
    by (auto dest: get_job_SomeD)
  then show ?thesis
    by (cases "get_job i d") (simp_all add: d' claim.get_job_write ids)
qed

subsection \<open>Reaping\<close>

lemma reap_sweepE:
  assumes "reap_sweep e P f n d = Inr (m, d')" "jobs_ok d" "scan_ok e"
  obtains js where
    "0 \<le> n" "js = take (nat n) (skip_locked jid (locked e) (scan e (filter P (jobs d))))"
    "set js \<subseteq> {j \<in> set (jobs d). P j \<and> jid j \<notin> set (locked e)}"
    "distinct (map jid js)" "m = int (length js)"
    "d' = d\<lparr>jobs := update_where (\<lambda>j. j \<in> set js) f (jobs d)\<rparr>"
proof -
  define cand where "cand = skip_locked jid (locked e) (scan e (filter P (jobs d)))"
  define js where "js = take (nat n) cand"
  have ok: "distinct (map jid (jobs d))" using assms(2) by (rule jobs_okD)
  have "set cand = {j \<in> set (jobs d). P j \<and> jid j \<notin> set (locked e)}"
    using assms(3) by (auto simp: cand_def table_simps)
  then have sub: "set js \<subseteq> {j \<in> set (jobs d). P j \<and> jid j \<notin> set (locked e)}"
    unfolding js_def using set_take_subset by fast
  have "distinct (map jid cand)"
    unfolding cand_def skip_locked_def
    by (rule distinct_map_filter) (simp add: distinct_map_scan [OF assms(3)] distinct_map_filter ok)
  then have dist: "distinct (map jid js)"
    unfolding js_def take_map [symmetric] by (rule distinct_take)
  have mem: "jid j \<in> jid ` set js \<longleftrightarrow> j \<in> set js" if "j \<in> set (jobs d)" for j
    using ok _ that by (rule key_member_iff) (use sub in auto)
  have "length (filter (\<lambda>j. jid j \<in> set (map jid js)) (jobs d)) = length (map jid js)"
    by (rule length_filter_key_member [OF ok _ dist]) (use sub in auto)
  moreover have "update_where (\<lambda>j. jid j \<in> jid ` set js) f (jobs d) =
      update_where (\<lambda>j. j \<in> set js) f (jobs d)"
    by (rule update_where_cong) (simp_all add: mem)
  ultimately have "0 \<le> n" "m = int (length js)"
    "d' = d\<lparr>jobs := update_where (\<lambda>j. j \<in> set js) f (jobs d)\<rparr>"
    using assms(1) by (auto simp: reap_sweep_def reap_select_def js_def cand_def pg_limit_def
        split: if_splits)
  with sub dist show ?thesis by (intro that [of js]) (simp_all add: js_def cand_def)
qed

lemma reap_dead_ok:
  assumes "reap_dead e n d = Inr (m, d')" "jobs_ok d" "scan_ok e"
  shows "jobs_ok d'" "jobs_evolve d d'"
proof -
  obtain js where js: "set js \<subseteq> {j \<in> set (jobs d). (expired (now e) j \<and> poisoned j) \<and> jid j \<notin> set (locked e)}"
    and d': "d' = d\<lparr>jobs := update_where (\<lambda>j. j \<in> set js) (reap_dead_row (now e)) (jobs d)\<rparr>"
    by (rule reap_sweepE [OF assms(1) [unfolded reap_dead_def] assms(2,3)])
  show "jobs_ok d'" unfolding d'
    by (rule reapd.jobs_ok_write [OF assms(2), of _ "now e"]) (use js in auto)
  show "jobs_evolve d d'" unfolding d'
    by (rule reapd.jobs_evolve_write [OF assms(2), of _ "now e"]) (use js in auto)
qed

lemma reap_recover_ok:
  assumes "reap_recover e n d = Inr (m, d')" "jobs_ok d" "scan_ok e"
  shows "jobs_ok d'" "jobs_evolve d d'"
proof -
  obtain js where js: "set js \<subseteq> {j \<in> set (jobs d). expired (now e) j \<and> jid j \<notin> set (locked e)}"
    and d': "d' = d\<lparr>jobs := update_where (\<lambda>j. j \<in> set js) reap_recover_row (jobs d)\<rparr>"
    by (rule reap_sweepE [OF assms(1) [unfolded reap_recover_def] assms(2,3)])
  show "jobs_ok d'" unfolding d'
    by (rule reapr.jobs_ok_write [OF assms(2), of _ "now e"]) (use js in auto)
  show "jobs_evolve d d'" unfolding d'
    by (rule reapr.jobs_evolve_write [OF assms(2), of _ "now e"]) (use js in auto)
qed

subsection \<open>Leases, completion and failure\<close>

lemma extend_lease_ok: "jobs_ok d \<Longrightarrow> jobs_ok (extend_lease e i w l d)"
  "jobs_ok d \<Longrightarrow> jobs_evolve d (extend_lease e i w l d)"
  unfolding extend_lease_def jobs_ok_conn_commit jobs_evolve_conn_commit
  by (auto intro: lease.jobs_ok_write [of _ _ w] lease.jobs_evolve_write [of _ _ w])

lemma extend_leases_ok: "jobs_ok d \<Longrightarrow> jobs_ok (extend_leases e is w l d)"
  "jobs_ok d \<Longrightarrow> jobs_evolve d (extend_leases e is w l d)"
  unfolding extend_leases_def
  by (auto intro: lease.jobs_ok_write [of _ _ w] lease.jobs_evolve_write [of _ _ w] jobs_evolve_frame)

lemma release_jobs_ok:
  "jobs_ok d \<Longrightarrow> release_jobs is w d = (n, d') \<Longrightarrow> jobs_ok d'"
  "jobs_ok d \<Longrightarrow> release_jobs is w d = (n, d') \<Longrightarrow> jobs_evolve d d'"
  unfolding release_jobs_def Let_def
  by (auto intro: releas.jobs_ok_write [of _ _ w] releas.jobs_evolve_write [of _ _ w]
      jobs_evolve_frame split: if_splits)

lemma mark_succeeded_in_transaction_ok:
  "jobs_ok d \<Longrightarrow> mark_succeeded_in_transaction e i w d = (b, d') \<Longrightarrow> jobs_ok d'"
  "jobs_ok d \<Longrightarrow> mark_succeeded_in_transaction e i w d = (b, d') \<Longrightarrow> jobs_evolve d d'"
  unfolding mark_succeeded_in_transaction_def Let_def
  by (auto intro: succ.jobs_ok_write [of _ _ w] succ.jobs_evolve_write [of _ _ w])

lemma mark_succeeded_ok:
  "jobs_ok d \<Longrightarrow> mark_succeeded e i w d = (b, d') \<Longrightarrow> jobs_ok d'"
  "jobs_ok d \<Longrightarrow> mark_succeeded e i w d = (b, d') \<Longrightarrow> jobs_evolve d d'"
  by (auto simp: mark_succeeded_def split: prod.splits
      intro: mark_succeeded_in_transaction_ok)

lemma retry_job_ok:
  "jobs_ok d \<Longrightarrow> retry_job e i d = (b, d') \<Longrightarrow> jobs_ok d'"
  "jobs_ok d \<Longrightarrow> retry_job e i d = (b, d') \<Longrightarrow> jobs_evolve d d'"
  unfolding retry_job_def Let_def
  by (auto intro: revive.jobs_ok_write revive.jobs_evolve_write)

text \<open>
  \<open>mark_failed\<close> as one case distinction: the job is not this worker's, or the row is
  dead-lettered, or it goes back with a delay. Raising is the remaining possibility.
\<close>

lemma owned_unique:
  assumes "jobs_ok d" "get_job i d = Some j" "r \<in> set (jobs d)" "jid r = i"
  shows "r = j"
  using assms get_job_in_set by fastforce

lemma find_owned:
  assumes "jobs_ok d"
  shows "find (\<lambda>j. jid j = i \<and> owned w j) (jobs d) =
    (case get_job i d of None \<Rightarrow> None | Some j \<Rightarrow> if owned w j then Some j else None)"
proof (cases "find (\<lambda>j. jid j = i \<and> owned w j) (jobs d)")
  case None
  then show ?thesis
    by (auto simp: find_None_iff dest: get_job_SomeD split: option.split)
next
  case (Some r)
  then have "r \<in> set (jobs d)" "jid r = i" "owned w r" by (auto simp: find_Some_iff)
  with Some assms get_job_in_set show ?thesis by fastforce
qed

lemma count_failure_lost:
  assumes "jobs_ok d" "\<nexists>j. get_job i d = Some j \<and> owned w j"
  shows "count_failure i w limit d = (None, d)"
proof -
  have "update_where (\<lambda>j. jid j = i \<and> owned w j) (count_failure_row limit) (jobs d) = jobs d"
    by (rule update_where_none) (use assms get_job_in_set in fastforce)
  with assms show ?thesis
    by (auto simp: count_failure_def find_owned split: option.split)
qed

lemma count_failure_held:
  assumes "jobs_ok d" "get_job i d = Some j" "owned w j"
  shows "count_failure i w limit d =
    (Some (attempts j + 1, case limit of None \<Rightarrow> max_attempts j | Some m \<Rightarrow> m),
     d\<lparr>jobs := update_where (\<lambda>r. jid r = i) (count_failure_row limit) (jobs d)\<rparr>)"
proof -
  have "update_where (\<lambda>r. jid r = i \<and> owned w r) (count_failure_row limit) (jobs d) =
      update_where (\<lambda>r. jid r = i) (count_failure_row limit) (jobs d)"
    by (rule update_where_cong) (use assms owned_unique in auto)
  with assms show ?thesis
    by (simp add: count_failure_def find_owned count_failure_row_def)
qed

lemma update_where_twice:
  "(\<And>r. key (f r) = key r) \<Longrightarrow>
   update_where (\<lambda>r. key r = k) g (update_where (\<lambda>r. key r = k) f rs) =
   update_where (\<lambda>r. key r = k) (\<lambda>r. g (f r)) rs"
  by (induction rs) auto

definition gives_up :: "bool \<Rightarrow> int option \<Rightarrow> job \<Rightarrow> bool" where
  "gives_up permanent limit j \<longleftrightarrow>
     permanent \<or> (case limit of None \<Rightarrow> max_attempts j | Some m \<Rightarrow> m) \<le> attempts j + 1"

lemma mark_failed_lost:
  assumes "jobs_ok d" "\<nexists>j. get_job i d = Some j \<and> owned w j"
  shows "mark_failed e u i w err permanent limit d = Inr (False, conn_commit d)"
  using assms by (simp add: mark_failed_def count_failure_lost settle_failure_def)

lemma mark_failed_gives_up:
  assumes "jobs_ok d" "get_job i d = Some j" "owned w j" "gives_up permanent limit j"
  shows "mark_failed e u i w err permanent limit d =
    Inr (True, conn_commit (d\<lparr>jobs := update_where (\<lambda>r. jid r = i)
      (\<lambda>r. fail_dead_row (now e) err (count_failure_row limit r)) (jobs d)\<rparr>))"
  using assms
  by (simp add: mark_failed_def count_failure_held settle_failure_def gives_up_def
      update_where_twice count_failure_row_def)

lemma mark_failed_retries:
  assumes "jobs_ok d" "get_job i d = Some j" "owned w j" "\<not> gives_up permanent limit j"
    "compute_backoff u (attempts j + 1) 1 300 = Inr delay"
  shows "mark_failed e u i w err permanent limit d =
    Inr (True, conn_commit (d\<lparr>jobs := update_where (\<lambda>r. jid r = i)
      (\<lambda>r. fail_retry_row (now e + timedelta_seconds delay) err (count_failure_row limit r)) (jobs d)\<rparr>))"
  using assms
  by (simp add: mark_failed_def count_failure_held settle_failure_def gives_up_def
      update_where_twice count_failure_row_def)

lemma mark_failed_raises:
  assumes "jobs_ok d" "get_job i d = Some j" "owned w j" "\<not> gives_up permanent limit j"
    "compute_backoff u (attempts j + 1) 1 300 = Inl x"
  shows "mark_failed e u i w err permanent limit d = Inl x"
  using assms
  by (simp add: mark_failed_def count_failure_held settle_failure_def gives_up_def)

lemma mark_failed_cases:
  assumes "mark_failed e u i w err permanent limit d = Inr (b, d')" "jobs_ok d"
  obtains (lost) "\<nexists>j. get_job i d = Some j \<and> owned w j" "\<not> b" "d' = conn_commit d"
  | (dead) j where "get_job i d = Some j" "owned w j" "gives_up permanent limit j" "b"
      "d' = conn_commit (d\<lparr>jobs := update_where (\<lambda>r. jid r = i)
        (\<lambda>r. fail_dead_row (now e) err (count_failure_row limit r)) (jobs d)\<rparr>)"
  | (retry) j delay where "get_job i d = Some j" "owned w j" "\<not> gives_up permanent limit j" "b"
      "compute_backoff u (attempts j + 1) 1 300 = Inr delay"
      "d' = conn_commit (d\<lparr>jobs := update_where (\<lambda>r. jid r = i)
        (\<lambda>r. fail_retry_row (now e + timedelta_seconds delay) err (count_failure_row limit r)) (jobs d)\<rparr>)"
proof (cases "\<exists>j. get_job i d = Some j \<and> owned w j")
  case False
  with assms show ?thesis by (intro lost) (auto simp: mark_failed_lost)
next
  case True
  then obtain j where j: "get_job i d = Some j" "owned w j" by blast
  show ?thesis
  proof (cases "gives_up permanent limit j")
    case True
    with j assms show ?thesis by (intro dead [OF j]) (auto simp: mark_failed_gives_up)
  next
    case False
    with j assms show ?thesis
      by (cases "compute_backoff u (attempts j + 1) 1 300")
        (auto simp: mark_failed_raises mark_failed_retries intro: retry [OF j False])
  qed
qed

lemma mark_failed_ok:
  assumes "mark_failed e u i w err permanent limit d = Inr (b, d')" "jobs_ok d"
  shows "jobs_ok d'" "jobs_evolve d d'"
proof -
  have hit: "owned w r" if "get_job i d = Some j" "owned w j" "r \<in> set (jobs d)" "jid r = i" for j r
    using that owned_unique [OF assms(2)] by blast
  have "jobs_ok d' \<and> jobs_evolve d d'"
    using assms
  proof (cases rule: mark_failed_cases)
    case lost
    with assms(2) show ?thesis by (auto intro: jobs_evolve_frame)
  next
    case (dead j)
    show ?thesis unfolding dead(5) jobs_ok_conn_commit jobs_evolve_conn_commit
      using hit [OF dead(1,2)]
      by (intro conjI faild.jobs_ok_write [OF assms(2), where w = w]
          faild.jobs_evolve_write [OF assms(2), where w = w]) auto
  next
    case (retry j delay)
    show ?thesis unfolding retry(6) jobs_ok_conn_commit jobs_evolve_conn_commit
      using hit [OF retry(1,2)]
      by (intro conjI failr.jobs_ok_write [OF assms(2), where w = w]
          failr.jobs_evolve_write [OF assms(2), where w = w]) auto
  qed
  then show "jobs_ok d'" "jobs_evolve d d'" by simp_all
qed

subsection \<open>Retention\<close>

lemma delete_completedE:
  assumes "delete_completed_jobs e s n d = Inr (m, d')" "jobs_ok d"
  obtains js where
    "0 \<le> n"
    "js = take (nat n) (skip_locked jid (locked e) (sort_key jid
            (filter (completed_before (now e - timedelta_seconds s)) (jobs d))))"
    "set js \<subseteq> {j \<in> set (jobs d). completed_before (now e - timedelta_seconds s) j \<and>
                                jid j \<notin> set (locked e)}"
    "distinct (map jid js)" "m = int (length js)"
    "d' = conn_commit (d\<lparr>jobs := delete_where (\<lambda>j. jid j \<in> jid ` set js) (jobs d)\<rparr>)"
proof -
  define cand where "cand = skip_locked jid (locked e) (sort_key jid
            (filter (completed_before (now e - timedelta_seconds s)) (jobs d)))"
  define js where "js = take (nat n) cand"
  have ok: "distinct (map jid (jobs d))" using assms(2) by (rule jobs_okD)
  have "set cand = {j \<in> set (jobs d). completed_before (now e - timedelta_seconds s) j \<and>
      jid j \<notin> set (locked e)}"
    by (auto simp: cand_def table_simps)
  then have sub: "set js \<subseteq> {j \<in> set (jobs d). completed_before (now e - timedelta_seconds s) j \<and>
      jid j \<notin> set (locked e)}"
    unfolding js_def using set_take_subset by fast
  have "distinct (map jid cand)"
    unfolding cand_def skip_locked_def
    by (rule distinct_map_filter) (simp add: distinct_map_filter ok)
  then have dist: "distinct (map jid js)"
    unfolding js_def take_map [symmetric] by (rule distinct_take)
  have "length (filter (\<lambda>j. jid j \<in> set (map jid js)) (jobs d)) = length (map jid js)"
    by (rule length_filter_key_member [OF ok _ dist]) (use sub in auto)
  then have "0 \<le> n" "m = int (length js)"
    "d' = conn_commit (d\<lparr>jobs := delete_where (\<lambda>j. jid j \<in> jid ` set js) (jobs d)\<rparr>)"
    using assms(1) by (auto simp: delete_completed_jobs_def js_def cand_def pg_limit_def Let_def
        split: if_splits)
  with sub dist show ?thesis by (intro that [of js]) (simp_all add: js_def cand_def)
qed

lemma get_job_delete:
  assumes "jobs_ok d"
  shows "get_job i (d\<lparr>jobs := delete_where P (jobs d)\<rparr>) =
    (case get_job i d of None \<Rightarrow> None | Some j \<Rightarrow> if P j then None else Some j)"
  using assms by (simp add: get_job_def row_at_delete_where jobs_okD(1))

lemma delete_completed_ok:
  assumes "delete_completed_jobs e s n d = Inr (m, d')" "jobs_ok d"
  shows "jobs_ok d'" "jobs_evolve d d'"
proof -
  obtain js where js: "set js \<subseteq> {j \<in> set (jobs d).
      completed_before (now e - timedelta_seconds s) j \<and> jid j \<notin> set (locked e)}"
    and d': "d' = conn_commit (d\<lparr>jobs := delete_where (\<lambda>j. jid j \<in> jid ` set js) (jobs d)\<rparr>)"
    by (rule delete_completedE [OF assms])
  show "jobs_ok d'" unfolding d' jobs_ok_conn_commit
    using assms(2) by (auto simp: jobs_ok_def table_simps
        intro: distinct_map_delete_where distinct_keys_delete_where)
  have "status j \<in> {Succeeded, Dead}" if "get_job i d = Some j" "jid j \<in> jid ` set js" for i j
  proof -
    from that have "j \<in> set js"
      using key_member_iff [of jid "jobs d" js j] jobs_okD(1) [OF assms(2)] js
      by (auto dest: get_job_SomeD)
    then show ?thesis using js by (auto simp: completed_before_def)
  qed
  then show "jobs_evolve d d'" unfolding d' jobs_evolve_conn_commit
    by (intro jobs_evolveI) (auto simp: get_job_delete [OF assms(2)] split: option.splits)
qed

subsection \<open>Enqueueing many\<close>

lemma insert_all_ConsE:
  assumes "insert_all t tsk (row # rows) touched d = Inr (is, d')"
  obtains a k i d1 is' where "row = (Some a, k)" "insert_job t tsk a k d = (i, d1)"
    "insert_all t tsk rows (i # touched) d1 = Inr (is', d')" "is = i # is'"
    "\<And>j. conflicting k (jobs d) = Some j \<Longrightarrow> jid j \<notin> set touched"
proof -
  obtain a k where row: "row = (Some a, k)"
    using assms by (cases row; cases "fst row") auto
  obtain i d1 where ins: "insert_job t tsk a k d = (i, d1)" by fastforce
  show ?thesis
    using assms that [OF row ins]
    by (auto simp: row ins split: option.splits if_splits)
qed

fun_cases insert_all_NilE: "insert_all t tsk [] touched d = Inr p"

lemma jobs_evolve_trans_insert:
  assumes "\<And>i j. get_job i d = Some j \<Longrightarrow> get_job i d1 = Some j" "jobs_evolve d1 d2"
    "jobs_evolve d d1"
  shows "jobs_evolve d d2"
proof (rule jobs_evolveI)
  show "jobs_id_seq d \<le> jobs_id_seq d2"
    using assms(2,3) by (simp add: jobs_evolve_def)
next
  fix i j
  assume "get_job i d = Some j"
  then have "get_job i d1 = Some j" by (rule assms(1))
  then show "(get_job i d2 = None \<and> status j \<in> {Succeeded, Dead}) \<or>
    (\<exists>j'. get_job i d2 = Some j' \<and> same_work j j' \<and> status_steps0 (status j) (status j'))"
    by (rule jobs_evolveD(2) [OF assms(2)])
next
  fix i
  assume none: "get_job i d = None" "get_job i d2 \<noteq> None"
  have "jobs_id_seq d \<le> i" if "get_job i d1 \<noteq> None"
    using none(1) that assms(3) by (simp add: jobs_evolve_def)
  moreover have "jobs_id_seq d1 \<le> i" if "get_job i d1 = None"
    using none(2) that assms(2) by (simp add: jobs_evolve_def)
  moreover have "jobs_id_seq d \<le> jobs_id_seq d1"
    using assms(3) by (simp add: jobs_evolve_def)
  ultimately show "jobs_id_seq d \<le> i" by force
qed

lemma insert_all_ok:
  "insert_all t tsk rows touched d = Inr (is, d') \<Longrightarrow> jobs_ok d \<Longrightarrow>
   jobs_ok d' \<and> jobs_evolve d d' \<and> (\<forall>i j. get_job i d = Some j \<longrightarrow> get_job i d' = Some j)"
proof (induction rows arbitrary: touched d "is")
  case Nil
  then show ?case by (auto elim!: insert_all_NilE intro: jobs_evolve_frame)
next
  case (Cons row rows)
  from Cons.prems(1) obtain a k i d1 is' where
    ins: "insert_job t tsk a k d = (i, d1)"
    and rest: "insert_all t tsk rows (i # touched) d1 = Inr (is', d')"
    by (rule insert_all_ConsE)
  have old: "get_job i' d1 = Some j" if "get_job i' d = Some j" for i' j
    using Cons.prems(2) ins that by (rule get_job_insert_old)
  have "jobs_ok d1" using Cons.prems(2) ins by (rule insert_job_jobs_ok)
  from Cons.IH [OF rest this] jobs_evolve_insert [OF Cons.prems(2) ins] old show ?case
    by (blast intro: jobs_evolve_trans_insert)
qed

lemma enqueue_many_cases:
  assumes "enqueue_many e tsk as ks d = Inr (is, d')"
  obtains (none) "as = []" "is = []" "d' = d"
  | (some) ks' d1 where "as \<noteq> []"
      "ks' = (case ks of None \<Rightarrow> replicate (length as) None | Some ks \<Rightarrow> ks)"
      "insert_all (now e) tsk (unnest2 as ks') [] d = Inr (is, d1)"
      "d' = (if is = [] then d1 else pg_notify JOB_NOTIFY_CHANNEL d1)"
  using assms by (cases "as = []") (auto simp: enqueue_many_def Let_def)

lemma enqueue_many_ok:
  assumes "enqueue_many e tsk as ks d = Inr (is, d')" "jobs_ok d"
  shows "jobs_ok d'" "jobs_evolve d d'"
proof -
  have "jobs_ok d' \<and> jobs_evolve d d'"
    using assms(1)
  proof (cases rule: enqueue_many_cases)
    case none
    with assms(2) show ?thesis by (auto intro: jobs_evolve_frame)
  next
    case (some ks' d1)
    from insert_all_ok [OF some(3) assms(2)] some(4) show ?thesis by simp
  qed
  then show "jobs_ok d'" "jobs_evolve d d'" by simp_all
qed

end
