(* ===== verification/Queue.thy ===== *)
theory Queue
  imports Jobs_Steps
begin

section \<open>The queue as a whole\<close>

text \<open>
  Any interleaving of the operations of \<^verbatim>\<open>jobs.py\<close>, by any number of processes, as a
  step relation on the database: each statement is one step, run once it holds the rows it
  writes. \<open>elsewhere\<close> is any change to the other tables, and whatever gives nothing but ids of
  the sequence away, such as a rollback. The properties of the operations, and what holds of every
  reachable queue.
\<close>

text \<open>Everything but completing a job.\<close>

inductive upkeep_step :: "db \<Rightarrow> db \<Rightarrow> bool" where
  enqueue: "enqueue e tsk a k d = (i, d') \<Longrightarrow> upkeep_step d d'"
| enqueue_many: "enqueue_many e tsk as ks d = Inr (is, d') \<Longrightarrow> upkeep_step d d'"
| claim: "scan_ok e \<Longrightarrow> claim_jobs e w l n d = Inr (rows, d') \<Longrightarrow> upkeep_step d d'"
| extend: "upkeep_step d (extend_lease e i w l d)"
| extend_many: "upkeep_step d (extend_leases e is w l d)"
| reap_dead: "scan_ok e \<Longrightarrow> reap_dead e n d = Inr (m, d') \<Longrightarrow> upkeep_step d d'"
| reap_recover: "scan_ok e \<Longrightarrow> reap_recover e n d = Inr (m, d') \<Longrightarrow> upkeep_step d d'"
| release: "release_jobs is w d = (n, d') \<Longrightarrow> upkeep_step d d'"
| fail: "mark_failed e u i w err p limit d = Inr (b, d') \<Longrightarrow> upkeep_step d d'"
| retry: "retry_job e i d = (b, d') \<Longrightarrow> upkeep_step d d'"
| purge: "delete_completed_jobs e s n d = Inr (m, d') \<Longrightarrow> upkeep_step d d'"
| commit: "upkeep_step d (conn_commit d)"
| elsewhere: "jobs d' = jobs d \<Longrightarrow> jobs_id_seq d \<le> jobs_id_seq d' \<Longrightarrow> upkeep_step d d'"

inductive jobs_step :: "db \<Rightarrow> db \<Rightarrow> bool" where
  upkeep: "upkeep_step d d' \<Longrightarrow> jobs_step d d'"
| succeed_tx: "mark_succeeded_in_transaction e i w d = (b, d') \<Longrightarrow> jobs_step d d'"
| succeed: "mark_succeeded e i w d = (b, d') \<Longrightarrow> jobs_step d d'"

abbreviation upkeep_run :: "db \<Rightarrow> db \<Rightarrow> bool" where
  "upkeep_run \<equiv> upkeep_step\<^sup>*\<^sup>*"

abbreviation jobs_run :: "db \<Rightarrow> db \<Rightarrow> bool" where
  "jobs_run \<equiv> jobs_step\<^sup>*\<^sup>*"

lemma upkeep_run_jobs: "upkeep_run d d' \<Longrightarrow> jobs_run d d'"
  by (induction rule: rtranclp_induct) (auto intro: rtranclp.rtrancl_into_rtrancl jobs_step.upkeep)

lemma upkeep_step_ok: "upkeep_step d d' \<Longrightarrow> jobs_ok d \<Longrightarrow> jobs_ok d' \<and> jobs_evolve d d'"
proof (induction rule: upkeep_step.induct)
  case (commit d)
  then show ?case by (simp add: jobs_evolve_frame)
next
  case (elsewhere d' d)
  then show ?case using jobs_ok_frame jobs_evolve_frame by blast
next
  case (extend d e i w l)
  then show ?case by (simp add: extend_lease_ok)
next
  case (extend_many d e "is" w l)
  then show ?case by (simp add: extend_leases_ok)
next
  case (enqueue e tsk a k d i d')
  then show ?case using enqueue_jobs_ok enqueue_evolve by blast
next
  case (enqueue_many e tsk as ks d "is" d')
  then show ?case using enqueue_many_ok by blast
next
  case (claim e w l n d rows d')
  then show ?case using claim_jobs_ok by blast
next
  case (reap_dead e n d m d')
  then show ?case using reap_dead_ok by blast
next
  case (reap_recover e n d m d')
  then show ?case using reap_recover_ok by blast
next
  case (release "is" w d n d')
  then show ?case using release_jobs_ok by blast
next
  case (fail e u i w err p limit d b d')
  then show ?case using mark_failed_ok by blast
next
  case (retry e i d b d')
  then show ?case using retry_job_ok by blast
next
  case (purge e s n d m d')
  then show ?case using delete_completed_ok by blast
qed

lemma jobs_step_ok: "jobs_step d d' \<Longrightarrow> jobs_ok d \<Longrightarrow> jobs_ok d' \<and> jobs_evolve d d'"
proof (induction rule: jobs_step.induct)
  case (upkeep d d')
  then show ?case by (rule upkeep_step_ok)
next
  case (succeed_tx e i w d b d')
  then show ?case using mark_succeeded_in_transaction_ok by blast
next
  case (succeed e i w d b d')
  then show ?case using mark_succeeded_ok by blast
qed

lemma jobs_run_ok: "jobs_run d d' \<Longrightarrow> jobs_ok d \<Longrightarrow> jobs_ok d'"
  by (induction rule: rtranclp_induct) (auto dest: jobs_step_ok)

text \<open>A whole reap is its two sweeps, one after the other.\<close>

lemma reap_expired_jobs_upkeep:
  assumes "reap_expired_jobs e1 e2 n d = Inr (m, d')" "scan_ok e1" "scan_ok e2"
  shows "upkeep_run d d'"
proof -
  obtain m1 d1 m2 d2 where "reap_dead e1 n d = Inr (m1, d1)" "reap_recover e2 n d1 = Inr (m2, d2)"
    and "d' = conn_commit d2"
    using assms(1) by (auto simp: reap_expired_jobs_def)
  with assms(2,3) have "upkeep_step d d1" "upkeep_step d1 d2" "upkeep_step d2 d'"
    by (auto intro: upkeep_step.intros)
  then show ?thesis by (meson r_into_rtranclp rtranclp_trans)
qed

lemma reap_expired_jobs_run:
  "reap_expired_jobs e1 e2 n d = Inr (m, d') \<Longrightarrow> scan_ok e1 \<Longrightarrow> scan_ok e2 \<Longrightarrow> jobs_run d d'"
  by (intro upkeep_run_jobs reap_expired_jobs_upkeep)

lemma jobs_run_seq: "jobs_run d d' \<Longrightarrow> jobs_ok d \<Longrightarrow> jobs_id_seq d \<le> jobs_id_seq d'"
proof (induction rule: rtranclp_induct)
  case (step d1 d2)
  from step have "jobs_ok d1" by (simp add: jobs_run_ok)
  with step show ?case by (auto dest!: jobs_step_ok jobs_evolveD(1))
qed simp

text \<open>An id that has been given out and is not in the table never comes back.\<close>

lemma jobs_run_gone:
  assumes "jobs_run d d'" "jobs_ok d" "get_job i d = None" "i < jobs_id_seq d"
  shows "get_job i d' = None"
  using assms(1)
proof (induction rule: rtranclp_induct)
  case (step d1 d2)
  have "jobs_ok d1" "jobs_id_seq d \<le> jobs_id_seq d1"
    using step(1) assms(2) by (auto intro: jobs_run_ok jobs_run_seq)
  with step(2,3) assms(4) show ?case
    by (auto dest: jobs_step_ok intro: jobs_evolve_gone)
qed (rule assms(3))

text \<open>What becomes of one job along a run.\<close>

definition job_fate :: "db \<Rightarrow> int \<Rightarrow> job \<Rightarrow> db \<Rightarrow> bool" where
  "job_fate d i j d' \<longleftrightarrow>
     (case get_job i d' of
        None \<Rightarrow> (\<exists>s \<in> {Succeeded, Dead}. status_step\<^sup>*\<^sup>* (status j) s)
      | Some j' \<Rightarrow> same_work j j' \<and> status_step\<^sup>*\<^sup>* (status j) (status j'))"

lemma jobs_run_fate:
  assumes "jobs_run d d'" "jobs_ok d" "get_job i d = Some j"
  shows "job_fate d i j d'"
  using assms(1)
proof (induction rule: rtranclp_induct)
  case base
  then show ?case using assms(3) by (simp add: job_fate_def)
next
  case (step d1 d2)
  have ok: "jobs_ok d1" and seq: "jobs_id_seq d \<le> jobs_id_seq d1"
    using step(1) assms(2) by (auto intro: jobs_run_ok jobs_run_seq)
  have ev: "jobs_evolve d1 d2" using step(2) ok by (simp add: jobs_step_ok)
  show ?case
  proof (cases "get_job i d1")
    case None
    have "i < jobs_id_seq d1"
      using get_job_below_seq [OF assms(2,3)] seq by simp
    with None ev have "get_job i d2 = None"
      using jobs_evolve_gone by blast
    with None step(3) show ?thesis by (simp add: job_fate_def)
  next
    case (Some j1)
    with step(3) have j1: "same_work j j1" "status_step\<^sup>*\<^sup>* (status j) (status j1)"
      by (simp_all add: job_fate_def)
    from jobs_evolveD(2) [OF ev Some] j1 show ?thesis
      by (auto simp: job_fate_def intro: same_work_trans rtranclp.rtrancl_into_rtrancl)
  qed
qed

lemma from_Succeeded_star: "status_step\<^sup>*\<^sup>* Succeeded s \<Longrightarrow> s = Succeeded"
  by (induction rule: rtranclp_induct) auto

subsection \<open>Upkeep completes nothing\<close>

text \<open>A row that is succeeded afterwards is the row it was before.\<close>

definition no_success :: "db \<Rightarrow> db \<Rightarrow> bool" where
  "no_success d d' \<longleftrightarrow>
     (\<forall>i j. get_job i d' = Some j \<longrightarrow> status j = Succeeded \<longrightarrow> get_job i d = Some j)"

lemma no_success_frame: "jobs d' = jobs d \<Longrightarrow> no_success d d'"
  by (simp add: no_success_def get_job_def)

lemma no_success_conn_commit [simp]: "no_success d (conn_commit d') = no_success d d'"
  by (simp add: no_success_def)

lemma no_success_update:
  "(\<And>j. jid (f j) = jid j) \<Longrightarrow> (\<And>j. P j \<Longrightarrow> status (f j) \<noteq> Succeeded) \<Longrightarrow>
   no_success d (d\<lparr>jobs := update_where P f (jobs d)\<rparr>)"
  by (auto simp: no_success_def get_job_def table_simps)

lemma no_success_trans: "no_success d d1 \<Longrightarrow> no_success d1 d2 \<Longrightarrow> no_success d d2"
  by (simp add: no_success_def)

lemma no_success_insert:
  "jobs_ok d \<Longrightarrow> insert_job t tsk a k d = (i, d') \<Longrightarrow> no_success d d'"
  using insert_job_id [of t tsk a k d i d']
  by (auto simp: no_success_def get_job_insert new_job_def get_job_in_set
      dest!: conflicting_SomeD split: if_splits option.splits)

lemma no_success_insert_all:
  "insert_all t tsk rows touched d = Inr (is, d') \<Longrightarrow> jobs_ok d \<Longrightarrow> no_success d d'"
proof (induction rows arbitrary: touched d "is")
  case Nil
  then show ?case by (auto elim!: insert_all_NilE intro: no_success_frame)
next
  case (Cons row rows)
  from Cons.prems(1) obtain a k i d1 is' where
    "insert_job t tsk a k d = (i, d1)" "insert_all t tsk rows (i # touched) d1 = Inr (is', d')"
    by (rule insert_all_ConsE)
  with Cons.IH Cons.prems(2) show ?case
    by (blast intro: no_success_trans no_success_insert insert_job_jobs_ok)
qed

lemma no_success_sweep:
  "reap_sweep e P f n d = Inr (m, d') \<Longrightarrow> (\<And>j. jid (f j) = jid j) \<Longrightarrow>
   (\<And>j. status (f j) \<noteq> Succeeded) \<Longrightarrow> no_success d d'"
  by (auto simp: reap_sweep_def intro: no_success_update)

lemma no_success_pg_notify [simp]: "no_success d (pg_notify ch d') = no_success d d'"
  by (simp add: no_success_def)

lemma upkeep_no_success: "upkeep_step d d' \<Longrightarrow> jobs_ok d \<Longrightarrow> no_success d d'"
proof (induction rule: upkeep_step.induct)
  case (enqueue e tsk a k d i d')
  then show ?case by (auto simp: enqueue_unfold intro: no_success_insert)
next
  case (enqueue_many e tsk as ks d "is" d')
  from enqueue_many(1) show ?case
  proof (cases rule: enqueue_many_cases)
    case none
    then show ?thesis by (simp add: no_success_frame)
  next
    case (some ks' d1)
    with no_success_insert_all [OF some(3) enqueue_many(2)] show ?thesis by simp
  qed
next
  case (claim e w l n d rows d')
  then show ?case
    by (auto simp: claim_jobs_Inr_iff Let_def claim_row_def intro: no_success_update)
next
  case (extend d e i w l)
  show ?case by (auto simp: extend_lease_def lease_row_def owned_def intro: no_success_update)
next
  case (extend_many d e "is" w l)
  show ?case
    by (auto simp: extend_leases_def lease_row_def owned_def intro: no_success_update no_success_frame)
next
  case (reap_dead e n d m d')
  from reap_dead(2) show ?case unfolding reap_dead_def
    by (rule no_success_sweep) (simp_all add: row_defs)
next
  case (reap_recover e n d m d')
  from reap_recover(2) show ?case unfolding reap_recover_def
    by (rule no_success_sweep) (simp_all add: row_defs)
next
  case (release "is" w d n d')
  then show ?case
    by (cases "is = []") (auto simp: release_jobs_def Let_def no_success_frame row_defs
        intro!: no_success_update)
next
  case (fail e u i w err p limit d b d')
  from fail show ?case
  proof (cases rule: mark_failed_cases)
    case lost
    then show ?thesis by (simp add: no_success_frame)
  qed (auto simp: row_defs intro!: no_success_update)
next
  case (retry e i d b d')
  then show ?case by (simp add: retry_job_def Let_def)
      (auto simp: row_defs intro!: no_success_update)
next
  case (purge e s n d m d')
  from purge obtain js :: "job list" where
    "d' = conn_commit (d\<lparr>jobs := delete_where (\<lambda>j. jid j \<in> jid ` set js) (jobs d)\<rparr>)"
    by (rule delete_completedE) blast
  then show ?case
    by (auto simp: no_success_def get_job_delete [OF purge(2)] split: option.splits if_splits)
qed (auto intro: no_success_frame)

subsection \<open>Properties: the table\<close>

text \<open>
  In every database that any interleaving of the operations can reach from the empty one,
  the job ids are distinct and below the sequence, no idempotency key is held twice, and every
  row is well formed for its status: pending and dead rows are unlocked, a running one has an
  owner and a lease, exactly the finished ones have a \<open>finished_at\<close>.
\<close>

lemma reachable_jobs_ok: "jobs_run empty_db d \<Longrightarrow> jobs_ok d"
  by (erule jobs_run_ok) simp

lemma reachable_jobs_ok_witness:
  "jobs_ok (snd (enqueue \<lparr>now = 7, locked = [], scan = id\<rparr> ''t'' [] (Some ''k'') empty_db))"
  by (rule reachable_jobs_ok, rule r_into_rtranclp, rule jobs_step.upkeep,
      rule upkeep_step.enqueue [OF prod.collapse [symmetric]])


text \<open>A table of one running job, for the witnesses.\<close>

definition job1 :: job where
  "job1 = (new_job 0 1 ''t'' [] (Some ''k''))
     \<lparr>status := Running, locked_by := Some ''w'', locked_until := Some 5\<rparr>"

definition db1 :: db where
  "db1 = empty_db\<lparr>jobs := [job1], jobs_id_seq := 2\<rparr>"

definition stmt_at :: "micros \<Rightarrow> stmt" where
  "stmt_at t = \<lparr>now = t, locked = [], scan = id\<rparr>"

lemma stmt_at_sel [simp]: "now (stmt_at t) = t" "locked (stmt_at t) = []" "scan (stmt_at t) = id"
  by (simp_all add: stmt_at_def)

lemma scan_ok_stmt_at [simp]: "scan_ok (stmt_at t)"
  by (simp add: scan_ok_def)

lemmas job1_defs = job1_def db1_def new_job_def empty_db_def

lemma jobs_ok_db1 [simp]: "jobs_ok db1"
  by (simp add: jobs_ok_def row_ok_def job1_defs)

lemma get_job_db1 [simp]: "get_job 1 db1 = Some job1" "owned ''w'' job1"
  by (simp_all add: get_job_def owned_def job1_defs)


end
