(* ===== verification/Leases.thy ===== *)
theory Leases
  imports Queue
begin

section \<open>Claims and leases\<close>

text \<open>
  Who may hold a job: what a claim takes and in which order, that two claims never share a
  job, that the guarded writes leave other workers' leases alone, and that giving jobs back
  undoes their claim.
\<close>

lemma claim_rows_set:
  assumes "claim_jobs e w l n d = Inr (rows, d')" "jobs_ok d" "scan_ok e"
    and "js = take (nat n) (claim_queue e (jobs d))"
  shows "set rows = (\<lambda>j. (jid j, task j, args j)) ` set js" "length rows = length js"
    "distinct (map fst rows)"
proof -
  obtain js' where js': "js' = take (nat n) (claim_queue e (jobs d))" "distinct (map jid js')"
    and rows: "mset rows = mset (map (\<lambda>j. (jid j, task j, args j)) js')"
    by (rule claim_jobsE [OF assms(1-3)])
  show "set rows = (\<lambda>j. (jid j, task j, args j)) ` set js"
    using arg_cong [OF rows, of set_mset] by (simp add: assms(4) js'(1))
  show "length rows = length js"
    using arg_cong [OF rows, of size] by (simp add: assms(4) js'(1))
  have "mset (map fst rows) = mset (map jid js')"
    using arg_cong [OF rows, of "image_mset fst"] by (simp add: image_mset.compositionality comp_def)
  then show "distinct (map fst rows)"
    using js'(2) mset_eq_imp_distinct_iff by blast
qed

lemma claim_queue_sub: "set (take n (claim_queue e rs)) \<subseteq> set (claim_queue e rs)"
  by (rule set_take_subset)

text \<open>A job the claim could have taken and did not: the batch was full of earlier ones.\<close>

lemma claim_priority:
  assumes "j \<in> set (claim_queue e rs)" "j \<notin> set (take m (claim_queue e rs))"
    and "c \<in> set (take m (claim_queue e rs))"
  shows "(run_at c, jid c) \<le> (run_at j, jid j)" and "length (take m (claim_queue e rs)) = m"
proof -
  have "j \<in> set (drop m (claim_queue e rs))"
    using assms(1,2) set_take_drop [of "claim_queue e rs" m] by blast
  then show "(run_at c, jid c) \<le> (run_at j, jid j)"
    by (rule take_sorted_prefix [OF sorted_claim_queue assms(3)])
  show "length (take m (claim_queue e rs)) = m"
    using assms(1,2) by (cases "length (claim_queue e rs) \<le> m") auto
qed

lemma claim_ids:
  assumes "claim_jobs e w l n d = Inr (rows, d')" "jobs_ok d" "scan_ok e" "i \<in> fst ` set rows"
  obtains j where "get_job i d = Some j" "due (now e) j" "i \<notin> set (locked e)"
    "j \<in> set (take (nat n) (claim_queue e (jobs d)))" "(i, task j, args j) \<in> set rows"
proof -
  from assms(4) obtain j where j: "j \<in> set (take (nat n) (claim_queue e (jobs d)))" "i = jid j"
    by (auto simp: claim_rows_set(1) [OF assms(1-3) refl])
  then have "j \<in> set (jobs d)" "due (now e) j" "jid j \<notin> set (locked e)"
    using claim_queue_sub by (fastforce simp: set_claim_queue)+
  moreover have "(i, task j, args j) \<in> set rows"
    using j by (auto simp: claim_rows_set(1) [OF assms(1-3) refl])
  ultimately show ?thesis
    using that [of j] j assms(2) by (simp add: get_job_in_set)
qed

subsection \<open>Properties: claiming\<close>

text \<open>A claim that passes over an available job is full of jobs that come before it.\<close>

lemma claim_order:
  assumes ok: "jobs_ok d" "scan_ok e"
    and claim: "claim_jobs e w l n d = Inr (rows, d')"
    and j: "get_job i d = Some j" "due (now e) j" "i \<notin> set (locked e)" "i \<notin> fst ` set rows"
  shows "int (length rows) = n \<and>
    (\<forall>c \<in> fst ` set rows. \<exists>jc. get_job c d = Some jc \<and> (run_at jc, c) < (run_at j, i))"
proof -
  note rows = claim_rows_set [OF claim ok refl]
  have n: "0 \<le> n" using claim by (simp add: claim_jobs_Inr_iff)
  let ?q = "claim_queue e (jobs d)"
  have q: "j \<in> set ?q" "jid j = i"
    using j by (auto simp: set_claim_queue dest: get_job_SomeD)
  have out: "j \<notin> set (take (nat n) ?q)"
    using j(4) q(2) by (auto simp: rows(1) image_image)
  have "(run_at jc, c) < (run_at j, i)"
    if "get_job c d = Some jc" "jc \<in> set (take (nat n) ?q)" "c \<in> fst ` set rows" for c jc
  proof -
    have "jid jc = c" using that(1) by (auto dest: get_job_SomeD)
    moreover have "c \<noteq> i" using that(3) j(4) by blast
    moreover have "(run_at jc, jid jc) \<le> (run_at j, jid j)"
      by (rule claim_priority(1) [OF q(1) out that(2)])
    ultimately show ?thesis using q(2) by auto
  qed
  then have "\<forall>c \<in> fst ` set rows. \<exists>jc. get_job c d = Some jc \<and> (run_at jc, c) < (run_at j, i)"
    by (metis claim_ids [OF claim ok])
  moreover have "length (take (nat n) ?q) = nat n"
    using q(1) out by (cases "length ?q \<le> nat n") auto
  ultimately show ?thesis
    using n by (simp add: rows(2))
qed

text \<open>
  C7: a claim hands out at most \<open>batch_size\<close> jobs, each once, all of them pending, due and not
  locked by another transaction; it leases exactly those to the worker until now plus the
  lease, and leaves every other row alone. If it passes over an available job, the batch is
  full and holds only jobs that come before it in \<open>(run_at, id)\<close> order.
\<close>

theorem claim_spec:
  assumes ok: "jobs_ok d" "scan_ok e"
    and claim: "claim_jobs e w l n d = Inr (rows, d')"
  shows "int (length rows) \<le> n \<and> distinct (map fst rows) \<and>
    (\<forall>i t a. (i, t, a) \<in> set rows \<longrightarrow>
       (\<exists>j. get_job i d = Some j \<and> task j = t \<and> args j = a \<and> due (now e) j \<and>
            i \<notin> set (locked e) \<and>
            get_job i d' = Some (j\<lparr>status := Running, locked_by := Some w,
                                   locked_until := Some (now e + seconds l)\<rparr>))) \<and>
    (\<forall>i. i \<notin> fst ` set rows \<longrightarrow> get_job i d' = get_job i d) \<and>
    (\<forall>i j. get_job i d = Some j \<longrightarrow> due (now e) j \<longrightarrow> i \<notin> set (locked e) \<longrightarrow>
       i \<notin> fst ` set rows \<longrightarrow>
       int (length rows) = n \<and>
       (\<forall>c \<in> fst ` set rows. \<exists>jc. get_job c d = Some jc \<and> (run_at jc, c) < (run_at j, i)))"
    (is "?bound \<and> ?distinct \<and> ?taken \<and> ?others \<and> ?order")
proof (intro conjI)
  note rows = claim_rows_set [OF claim ok refl]
  have n: "0 \<le> n" using claim by (simp add: claim_jobs_Inr_iff)
  show ?bound using n by (simp add: rows(2))
  show ?distinct by (rule rows(3))
  show ?others by (simp add: get_job_claim [OF claim ok] option.map_ident)
  show ?taken
  proof (intro allI impI)
    fix i t a
    assume row: "(i, t, a) \<in> set rows"
    then have i: "i \<in> fst ` set rows" by force
    obtain j where "get_job i d = Some j" "due (now e) j" "i \<notin> set (locked e)"
      "(i, task j, args j) \<in> set rows"
      by (rule claim_ids [OF claim ok i])
    with row rows(3) i show "\<exists>j. get_job i d = Some j \<and> task j = t \<and> args j = a \<and>
        due (now e) j \<and> i \<notin> set (locked e) \<and>
        get_job i d' = Some (j\<lparr>status := Running, locked_by := Some w,
                               locked_until := Some (now e + seconds l)\<rparr>)"
      by (auto simp: get_job_claim [OF claim ok] claim_row_def dest: eq_key_imp_eq_value)
  qed
  show ?order using claim_order [OF ok claim] by blast
qed

text \<open>Two pending jobs, for the witnesses.\<close>

definition db2 :: db where
  "db2 = empty_db\<lparr>jobs := [new_job 3 1 ''a'' [] None, new_job 2 2 ''b'' [] None], jobs_id_seq := 3\<rparr>"

lemma jobs_ok_db2 [simp]: "jobs_ok db2"
  by (simp add: jobs_ok_def db2_def row_ok_def new_job_def empty_db_def)

definition db2_claimed :: db where
  "db2_claimed = db2\<lparr>jobs := [new_job 3 1 ''a'' [] None,
     claim_row ''w'' 30000004 (new_job 2 2 ''b'' [] None)]\<rparr>"

lemma claim_db2: "claim_jobs (stmt_at 4) ''w'' 30 1 db2 = Inr ([(2, ''b'', [])], db2_claimed)"
  by (simp add: claim_jobs_Inr_iff claim_queue_def db2_claimed_def db2_def due_def new_job_def
      empty_db_def claim_row_def conn_commit_def commit_tx_def seconds_def)

lemma claim_spec_witness:
  "int (length [(2::int, ''b'', [] :: args)]) \<le> 1 \<and> get_job 1 db2_claimed = get_job 1 db2"
  using claim_spec [OF jobs_ok_db2 scan_ok_stmt_at claim_db2] by auto

text \<open>
  C8: no job is handed out twice. A second claim, by any worker, shares no job with a first one:
  neither while the first is still uncommitted and its rows are locked, nor on the database
  the first one leaves.
\<close>

theorem claims_disjoint:
  assumes "jobs_ok d" and "scan_ok e1" and "scan_ok e2"
    and first: "claim_jobs e1 w1 l1 n1 d = Inr (rows1, d1)"
    and second: "claim_jobs e2 w2 l2 n2 dx = Inr (rows2, d2)"
    and overlap: "dx = d \<and> fst ` set rows1 \<subseteq> set (locked e2) \<or> dx = d1"
  shows "fst ` set rows1 \<inter> fst ` set rows2 = {}"
proof (rule ccontr)
  assume "fst ` set rows1 \<inter> fst ` set rows2 \<noteq> {}"
  then obtain i where i1: "i \<in> fst ` set rows1" and i2: "i \<in> fst ` set rows2" by blast
  have "jobs_ok dx"
    using overlap assms(1) claim_jobs_ok [OF first assms(1,2)] by blast
  then obtain j where j: "get_job i dx = Some j" "due (now e2) j" "i \<notin> set (locked e2)"
    by (rule claim_ids [OF second _ assms(3) i2])
  with overlap i1 have "dx = d1" by blast
  with j i1 show False
    by (auto simp: get_job_claim [OF first assms(1,2)] due_def claim_row_def)
qed

lemma claims_disjoint_witness:
  "fst ` set [(2::int, ''b'', [] :: args)] \<inter> fst ` set [(1::int, ''a'', [] :: args)] = {}"
proof (rule claims_disjoint [OF jobs_ok_db2 scan_ok_stmt_at scan_ok_stmt_at claim_db2])
  show "claim_jobs (stmt_at 4) ''v'' 30 5 db2_claimed = Inr ([(1, ''a'', [])],
    db2\<lparr>jobs := [claim_row ''v'' 30000004 (new_job 3 1 ''a'' [] None),
                 claim_row ''w'' 30000004 (new_job 2 2 ''b'' [] None)]\<rparr>)"
    by (simp add: claim_jobs_Inr_iff claim_queue_def db2_claimed_def db2_def due_def new_job_def
        empty_db_def claim_row_def conn_commit_def commit_tx_def seconds_def)
qed simp

subsection \<open>Properties: leases\<close>

text \<open>
  C9: the guarded writes never touch a job another worker holds. Extending leases, handing jobs
  back, completing and failing, called by any other worker with any ids, leave the row
  exactly as it is; completing or failing that job reports that it was not held.
\<close>

theorem foreign_lease_untouched:
  assumes "jobs_ok d" and "get_job i d = Some j" and "locked_by j = Some w" and "w' \<noteq> w"
  shows "get_job i (extend_lease e i' w' l d) = Some j \<and>
    get_job i (extend_leases e is w' l d) = Some j \<and>
    get_job i (snd (release_jobs is w' d)) = Some j \<and>
    get_job i (snd (mark_succeeded e i' w' d)) = Some j \<and>
    \<not> fst (mark_succeeded e i w' d) \<and>
    mark_failed e u i w' err p limit d = Inr (False, conn_commit d) \<and>
    (\<forall>b d'. mark_failed e u i' w' err p limit d = Inr (b, d') \<longrightarrow> get_job i d' = Some j)"
proof -
  have no: "\<not> owned w' j" using assms(3,4) by (simp add: owned_def)
  have "\<not> fst (mark_succeeded e i w' d)"
    using no owned_unique [OF assms(1,2)]
    by (auto simp: mark_succeeded_def mark_succeeded_in_transaction_def Let_def filter_empty_conv)
  moreover have "mark_failed e u i w' err p limit d = Inr (False, conn_commit d)"
    by (rule mark_failed_lost [OF assms(1)]) (simp add: assms(2) no)
  moreover have "get_job i d' = Some j" if "mark_failed e u i' w' err p limit d = Inr (b, d')" for b d'
    using that assms(1)
  proof (cases rule: mark_failed_cases)
    case lost
    then show ?thesis by (simp add: assms(2))
  next
    case (dead j')
    then have "i \<noteq> i'" using assms(2) no by auto
    with dead(5) assms(2) show ?thesis
      by (auto simp: faild.get_job_write dest: get_job_SomeD)
  next
    case (retry j' delay)
    then have "i \<noteq> i'" using assms(2) no by auto
    with retry(6) assms(2) show ?thesis
      by (auto simp: failr.get_job_write dest: get_job_SomeD)
  qed
  ultimately show ?thesis
    using assms(2) no
    by (auto simp: extend_lease_def extend_leases_def release_jobs_def mark_succeeded_def
        mark_succeeded_in_transaction_def Let_def
        lease.get_job_write releas.get_job_write succ.get_job_write)
qed

lemma foreign_lease_untouched_witness:
  "get_job 1 (extend_leases (stmt_at 9) [1] ''v'' 30 db1) = Some job1 \<and>
   mark_failed (stmt_at 9) 0 1 ''v'' ''boom'' True None db1 = Inr (False, conn_commit db1)"
proof -
  have "locked_by job1 = Some ''w''" "''v'' \<noteq> ''w''" by (simp_all add: job1_defs)
  from foreign_lease_untouched [OF jobs_ok_db1 get_job_db1(1) this, of "stmt_at 9" 1 30 "[1]"]
  show ?thesis by blast
qed

text \<open>
  Handing a claim back undoes it. Releasing exactly the claimed jobs restores the table the
  claim started from, row for row: no attempt and no recovery is counted.
\<close>

lemma claim_release_roundtrip:
  assumes "jobs_ok d" and "scan_ok e" and claim: "claim_jobs e w l n d = Inr (rows, d')"
  shows "fst (release_jobs (map fst rows) w d') = int (length rows) \<and>
    jobs (snd (release_jobs (map fst rows) w d')) = jobs d"
proof -
  obtain js where js: "js = take (nat n) (claim_queue e (jobs d))"
      "set js \<subseteq> {j \<in> set (jobs d). due (now e) j \<and> jid j \<notin> set (locked e)}"
      "distinct (map jid js)"
    and d': "d' = conn_commit (d\<lparr>jobs := update_where (\<lambda>j. j \<in> set js)
        (claim_row w (now e + seconds l)) (jobs d)\<rparr>)"
    by (rule claim_jobsE [OF claim assms(1,2)])
  note rows = claim_rows_set [OF claim assms(1,2) js(1)]
  have ids: "set (map fst rows) = jid ` set js" by (simp add: rows(1) image_image)
  have mem: "jid j \<in> jid ` set js \<longleftrightarrow> j \<in> set js" if "j \<in> set (jobs d)" for j
    using jobs_okD(1) [OF assms(1)] _ that by (rule key_member_iff) (use js in auto)
  have undone: "release_row (claim_row w u j) = j" if "j \<in> set js" for j u
  proof -
    have "due (now e) j" "row_ok j" using that js(2) jobs_okD(4) [OF assms(1)] by auto
    then show ?thesis by (cases j) (simp add: row_defs due_def row_ok_def)
  qed
  let ?hit = "\<lambda>j. jid j \<in> set (map fst rows) \<and> owned w j"
  let ?f = "\<lambda>j. if j \<in> set js then claim_row w (now e + seconds l) j else j"
  have hit: "?hit (?f j) \<longleftrightarrow> j \<in> set js" if "j \<in> set (jobs d)" for j
    using mem [OF that] ids by (auto simp: owned_def claim_row_def)
  have restored: "update_where ?hit release_row (jobs d') = jobs d"
    unfolding d' conn_commit_sel update_where_def
    by (simp add: map_idI hit undone cong: if_cong del: set_map)
  have "length (filter ?hit (jobs d')) = length (filter (\<lambda>j. j \<in> set js) (jobs d))"
    unfolding d' conn_commit_sel update_where_def
    by (simp add: filter_map comp_def hit del: set_map cong: filter_cong)
  also have "\<dots> = length (filter (\<lambda>j. jid j \<in> set (map jid js)) (jobs d))"
    using mem by (intro arg_cong [where f = length] filter_cong) auto
  also have "\<dots> = length js"
    using length_filter_key_member [OF jobs_okD(1) [OF assms(1)] _ js(3)] js(2) by auto
  finally have count: "length (filter ?hit (jobs d')) = length rows" by (simp add: rows(2))
  show ?thesis
  proof (cases "rows = []")
    case True
    then have "js = []" using rows(2) by simp
    with True d' show ?thesis by (simp add: release_jobs_def update_where_none)
  next
    case False
    with restored count show ?thesis by (simp add: release_jobs_def Let_def del: set_map)
  qed
qed

lemma claim_release_roundtrip_witness:
  "jobs (snd (release_jobs [2] ''w'' db2_claimed)) = jobs db2"
  using claim_release_roundtrip [OF jobs_ok_db2 scan_ok_stmt_at claim_db2] by simp

end
