(* ===== verification/Failures.thy ===== *)
theory Failures
  imports Leases
begin

section \<open>Failures, backoff and recovery\<close>

text \<open>
  What \<open>mark_failed\<close> does on every branch, why its two statements act as one, and what the
  reaper guarantees and what it does not: jobs whose worker died come back or, once they have
  been recovered often enough, are dead-lettered.
\<close>

subsection \<open>Backoff\<close>

lemma compute_backoff_raises: "1024 \<le> att \<Longrightarrow>
    compute_backoff u att b m = Inl (OverflowError ''int too large to convert to float'')"
  by (simp add: compute_backoff_def)

lemma compute_backoff_bounds:
  assumes "0 \<le> u" "u < 1" "0 \<le> att" "att < 1024"
  obtains delay where "compute_backoff u att 1 300 = Inr delay"
    "0 \<le> timedelta_seconds delay" "timedelta_seconds delay \<le> seconds (min 300 (2 ^ nat att))"
proof -
  define ub where "ub = min (300 :: real) (2 powi att)"
  have ub: "ub = of_int (min 300 (2 ^ nat att))"
    using assms(3) by (simp add: ub_def power_int_def of_int_min)
  have "0 \<le> ub" by (simp add: ub_def)
  then have "0 \<le> ub * u" "ub * u \<le> of_int (min 300 (2 ^ nat att))"
    using assms(1,2) mult_left_le [of u ub] by (simp_all flip: ub)
  moreover have "compute_backoff u att 1 300 = Inr (ub * u)"
    using assms(4) by (simp add: compute_backoff_def ub_def)
  ultimately show ?thesis
    using that timedelta_seconds_nonneg timedelta_seconds_le by blast
qed

lemma get_job_update_other:
  "(\<And>j. jid (f j) = jid j) \<Longrightarrow> i' \<noteq> i \<Longrightarrow>
   get_job i' (d\<lparr>jobs := update_where (\<lambda>r. jid r = i) f (jobs d)\<rparr>) = get_job i' d"
  by (auto simp: get_job_def table_simps dest: row_at_SomeD intro!: map_option_idI)

text \<open>The limit a failure is judged by: the task's own if it has one, else the row's.\<close>

definition limit_for :: "int option \<Rightarrow> job \<Rightarrow> int" where
  "limit_for limit j = (case limit of None \<Rightarrow> max_attempts j | Some m \<Rightarrow> m)"

lemma gives_up_limit: "gives_up permanent limit j \<longleftrightarrow> permanent \<or> limit_for limit j \<le> attempts j + 1"
  by (simp add: gives_up_def limit_for_def)

subsection \<open>Properties: failing a job\<close>

lemma mark_failed_backs_off:
  assumes "jobs_ok d" and "get_job i d = Some j" and "owned w j" and "0 \<le> u" and "u < 1"
    and retry: "\<not> gives_up permanent limit j" "attempts j + 1 < 1024"
  shows "\<exists>d' t. mark_failed e u i w err permanent limit d = Inr (True, d') \<and>
      now e \<le> t \<and> t \<le> now e + seconds (min 300 (2 ^ nat (attempts j + 1))) \<and>
      get_job i d' = Some (j\<lparr>status := Pending, attempts := attempts j + 1,
        max_attempts := limit_for limit j, run_at := t,
        last_error := Some err, locked_by := None, locked_until := None\<rparr>) \<and>
      (\<forall>i'. i' \<noteq> i \<longrightarrow> get_job i' d' = get_job i' d)"
proof -
  have a: "0 \<le> attempts j + 1" using get_job_row_ok [OF assms(1,2)] by (simp add: row_ok_def)
  have jid: "jid j = i" using assms(2) by (auto dest: get_job_SomeD)
  obtain delay where delay: "compute_backoff u (attempts j + 1) 1 300 = Inr delay"
    "0 \<le> timedelta_seconds delay"
    "timedelta_seconds delay \<le> seconds (min 300 (2 ^ nat (attempts j + 1)))"
    by (rule compute_backoff_bounds [OF assms(4,5) a retry(2)])
  let ?f = "\<lambda>r. fail_retry_row (now e + timedelta_seconds delay) err (count_failure_row limit r)"
  have "get_job i (d\<lparr>jobs := update_where (\<lambda>r. jid r = i) ?f (jobs d)\<rparr>) = Some (?f j)"
    by (simp add: failr.get_job_write assms(2) jid)
  moreover have "get_job i' (d\<lparr>jobs := update_where (\<lambda>r. jid r = i) ?f (jobs d)\<rparr>) = get_job i' d"
    if "i' \<noteq> i" for i' using that by (rule get_job_update_other [rotated]) (simp add: row_defs)
  ultimately show ?thesis
    using delay(2,3) mark_failed_retries [OF assms(1-3) retry(1) delay(1), where err = err]
    by (intro exI [of _ "conn_commit (d\<lparr>jobs := update_where (\<lambda>r. jid r = i) ?f (jobs d)\<rparr>)"]
        exI [of _ "now e + timedelta_seconds delay"]) (simp add: limit_for_def [of limit j] row_defs)
qed



subsection \<open>The gap between the two updates\<close>

lemma reap_sweep_skips_locked:
  assumes "reap_sweep e P f n d = Inr (m, d')" "jobs_ok d" "scan_ok e" "\<And>j. jid (f j) = jid j"
    and "i \<in> set (locked e)"
  shows "get_job i d' = get_job i d"
proof -
  obtain js where js: "set js \<subseteq> {j \<in> set (jobs d). P j \<and> jid j \<notin> set (locked e)}"
    and d': "d' = d\<lparr>jobs := update_where (\<lambda>j. j \<in> set js) f (jobs d)\<rparr>"
    by (rule reap_sweepE [OF assms(1-3)])
  have "\<And>j. get_job i d = Some j \<Longrightarrow> j \<notin> set js"
    using js assms(5) by (auto dest: get_job_SomeD)
  then show ?thesis
    by (cases "get_job i d") (auto simp: d' get_job_def table_simps assms(4))
qed

lemma reap_expiredE:
  assumes "reap_expired_jobs e1 e2 n d = Inr (m, d')" "jobs_ok d" "scan_ok e1"
  obtains m1 d1 m2 d2 where "reap_dead e1 n d = Inr (m1, d1)" "reap_recover e2 n d1 = Inr (m2, d2)"
    "m = m1 + m2" "d' = conn_commit d2" "jobs_ok d1"
  using assms reap_dead_ok(1) by (fastforce simp: reap_expired_jobs_def)

lemma reap_skips_locked:
  assumes "reap_expired_jobs e1 e2 n d = Inr (m, d')" "jobs_ok d" "scan_ok e1" "scan_ok e2"
    and "i \<in> set (locked e1)" "i \<in> set (locked e2)"
  shows "get_job i d' = get_job i d"
proof -
  obtain m1 d1 m2 d2 where r: "reap_dead e1 n d = Inr (m1, d1)" "reap_recover e2 n d1 = Inr (m2, d2)"
    "d' = conn_commit d2" "jobs_ok d1"
    by (rule reap_expiredE [OF assms(1-3)])
  have "get_job i d1 = get_job i d"
    by (rule reap_sweep_skips_locked [OF r(1) [unfolded reap_dead_def] assms(2,3) _ assms(5)])
      (simp add: row_defs)
  moreover have "get_job i d2 = get_job i d1"
    by (rule reap_sweep_skips_locked [OF r(2) [unfolded reap_recover_def] r(4) assms(4) _ assms(6)])
      (simp add: row_defs)
  ultimately show ?thesis by (simp add: r(3))
qed

lemma settle_failure_row:
  assumes "settle_failure e u i err permanent (Some row) d = Inr d'"
    and "settle_failure e u i err permanent (Some row) dx = Inr dx'"
    and "get_job i dx = get_job i d"
  shows "get_job i dx' = get_job i d'"
  using assms
  by (auto simp: settle_failure_def get_job_def table_simps row_defs
      split: prod.splits if_splits)

text \<open>
  The second UPDATE, which names the row by id alone, cannot overwrite another
  worker's run. The first UPDATE holds the row's lock, so a reaper sweep and a claim that land
  between the two pass it over: the row is unchanged, it is not handed out, and the failure
  settles as if nothing had happened in between.
\<close>

lemma mark_failed_gap_safe:
  assumes "jobs_ok d" and count: "count_failure i w limit d = (Some row, d1)"
    and reap: "reap_expired_jobs e1 e2 n d1 = Inr (m, d2)"
    and claim: "claim_jobs e3 w' l n' d2 = Inr (rows, d3)"
    and scans: "scan_ok e1" "scan_ok e2" "scan_ok e3"
    and held: "i \<in> set (locked e1)" "i \<in> set (locked e2)" "i \<in> set (locked e3)"
    and settle: "settle_failure e u i err permanent (Some row) d1 = Inr dA"
      "settle_failure e u i err permanent (Some row) d3 = Inr dB"
  shows "i \<notin> fst ` set rows \<and> get_job i d3 = get_job i d1 \<and> get_job i dB = get_job i dA"
proof -
  have "jobs_ok d1"
    using assms(1) count unfolding count_failure_def Let_def
    by (auto intro: count.jobs_ok_write [where w = w])
  moreover from this have "jobs_ok d2"
    using reap_expired_jobs_run [OF reap scans(1,2)] jobs_run_ok by blast
  ultimately have "get_job i d2 = get_job i d1"
    using reap_skips_locked [OF reap _ scans(1,2) held(1,2)] by blast
  moreover have out: "i \<notin> fst ` set rows"
    using claim_ids [OF claim \<open>jobs_ok d2\<close> scans(3)] held(3) by blast
  then have "get_job i d3 = get_job i d2"
    by (simp add: get_job_claim [OF claim \<open>jobs_ok d2\<close> scans(3)] option.map_ident)
  ultimately show ?thesis
    using out settle_failure_row [OF settle] by simp
qed

definition stmt_held :: "micros \<Rightarrow> int list \<Rightarrow> stmt" where
  "stmt_held t ids = \<lparr>now = t, locked = ids, scan = id\<rparr>"

lemma stmt_held_sel [simp]:
  "now (stmt_held t ids) = t" "locked (stmt_held t ids) = ids" "scan (stmt_held t ids) = id"
  by (simp_all add: stmt_held_def)

lemma scan_ok_stmt_held [simp]: "scan_ok (stmt_held t ids)"
  by (simp add: scan_ok_def)

lemma mark_failed_gap_safe_witness:
  "get_job 1 (db1\<lparr>jobs := [fail_dead_row 9 ''boom'' (count_failure_row None job1)]\<rparr>) =
   get_job 1 (conn_commit (db1\<lparr>jobs := [fail_dead_row 9 ''boom'' (count_failure_row None job1)]\<rparr>))"
proof -
  let ?d1 = "db1\<lparr>jobs := [count_failure_row None job1]\<rparr>"
  let ?e = "stmt_held 8 [1]"
  have "count_failure 1 ''w'' None db1 = (Some (1, 5), ?d1)"
    by (simp add: count_failure_def owned_def count_failure_row_def job1_defs)
  moreover have "reap_expired_jobs ?e ?e 100 ?d1 = Inr (0, conn_commit ?d1)"
    by (simp add: reap_expired_jobs_def reap_dead_def reap_recover_def reap_sweep_def reap_select_def
        skip_locked_def expired_def poisoned_def count_failure_row_def job1_defs)
  moreover have "claim_jobs ?e ''v'' 30 1 (conn_commit ?d1) = Inr ([], conn_commit ?d1)"
    by (simp add: claim_jobs_Inr_iff claim_queue_def skip_locked_def due_def count_failure_row_def
        job1_defs conn_commit_def commit_tx_def)
  moreover have "settle_failure (stmt_at 9) 0 1 ''boom'' True (Some (1, 5)) ?d1 =
      Inr (db1\<lparr>jobs := [fail_dead_row 9 ''boom'' (count_failure_row None job1)]\<rparr>)"
    by (simp add: settle_failure_def count_failure_row_def job1_defs)
  moreover have "settle_failure (stmt_at 9) 0 1 ''boom'' True (Some (1, 5)) (conn_commit ?d1) =
      Inr (conn_commit (db1\<lparr>jobs := [fail_dead_row 9 ''boom'' (count_failure_row None job1)]\<rparr>))"
    by (simp add: settle_failure_def count_failure_row_def job1_defs conn_commit_def commit_tx_def)
  ultimately show ?thesis
    using mark_failed_gap_safe [of db1 1 "''w''" None "(1, 5)" ?d1 ?e ?e 100 0 "conn_commit ?d1" ?e
        "''v''" 30 1 "[]" "conn_commit ?d1" "stmt_at 9" 0 "''boom''" True]
    by simp
qed

text \<open>
  The \<open>locked_by\<close> guard tells workers apart, not the runs of one worker. A job whose lease
  lapsed, was reaped and was claimed again by the same worker passes the guard of its first,
  stale run: that run's failure sends the job back to pending while the second run holds it.
\<close>

lemma stale_run_passes_guard:
  "\<exists>d1 d2 d3 d4 j3.
     claim_jobs (stmt_at 4) ''w'' 30 1 db2 = Inr ([(2, ''b'', [])], d1) \<and>
     reap_expired_jobs (stmt_at 30000005) (stmt_at 30000005) 100 d1 = Inr (1, d2) \<and>
     claim_jobs (stmt_at 30000006) ''w'' 30 1 d2 = Inr ([(2, ''b'', [])], d3) \<and>
     get_job 2 d3 = Some j3 \<and> status j3 = Running \<and> \<not> expired 30000007 j3 \<and>
     mark_failed (stmt_at 30000007) 0 2 ''w'' ''boom'' False None d3 = Inr (True, d4) \<and>
     map_option status (get_job 2 d4) = Some Pending"
proof -
  let ?j1 = "new_job 3 1 ''a'' [] None"
  let ?j2 = "(new_job 2 2 ''b'' [] None)\<lparr>recoveries := 1\<rparr>"
  let ?d2 = "db2\<lparr>jobs := [?j1, ?j2]\<rparr>"
  let ?j3 = "claim_row ''w'' 60000006 ?j2"
  let ?d3 = "db2\<lparr>jobs := [?j1, ?j3]\<rparr>"
  note sim = new_job_def row_defs conn_commit_def commit_tx_def seconds_def
  have "reap_expired_jobs (stmt_at 30000005) (stmt_at 30000005) 100 db2_claimed = Inr (1, ?d2)"
    by (simp add: reap_expired_jobs_def reap_dead_def reap_recover_def reap_sweep_def reap_select_def
        skip_locked_def expired_def poisoned_def db2_claimed_def db2_def empty_db_def sim)
  moreover have "claim_jobs (stmt_at 30000006) ''w'' 30 1 ?d2 = Inr ([(2, ''b'', [])], ?d3)"
    by (simp add: claim_jobs_Inr_iff claim_queue_def db2_def empty_db_def due_def sim)
  moreover have "get_job 2 ?d3 = Some ?j3"
    by (simp add: get_job_def sim)
  moreover have "status ?j3 = Running" "\<not> expired 30000007 ?j3"
    by (simp_all add: expired_def sim)
  moreover have "mark_failed (stmt_at 30000007) 0 2 ''w'' ''boom'' False None ?d3 =
      Inr (True, db2\<lparr>jobs := [?j1, fail_retry_row 30000007 ''boom'' (count_failure_row None ?j3)]\<rparr>)"
    by (simp add: mark_failed_def count_failure_def settle_failure_def owned_def compute_backoff_def
        timedelta_seconds_def round_half_even_def db2_def empty_db_def sim)
  moreover have "map_option status (get_job 2 (db2\<lparr>jobs := [?j1,
      fail_retry_row 30000007 ''boom'' (count_failure_row None ?j3)]\<rparr>)) = Some Pending"
    by (simp add: get_job_def sim)
  ultimately show ?thesis using claim_db2 by blast
qed

end
