(* ===== verification/Reaping.thy ===== *)
theory Reaping
  imports Failures
begin

section \<open>The reaper\<close>

text \<open>
  What one call of \<open>reap_expired_jobs\<close> may do to a row, what it achieves when its batch holds
  every expired job, where the bound on recoveries leaks when it does not, and that a job
  which kills every worker that runs it is dead-lettered after \<open>max_recoveries\<close> crashes.
\<close>

lemma get_job_sweep:
  assumes "reap_sweep e P f n d = Inr (m, d')" "jobs_ok d" "scan_ok e" "\<And>j. jid (f j) = jid j"
  obtains js where "set js \<subseteq> {j \<in> set (jobs d). P j \<and> jid j \<notin> set (locked e)}" "m = int (length js)"
    "distinct js" "int (length js) \<le> n"
    "\<And>i. get_job i d' = map_option (\<lambda>j. if j \<in> set js then f j else j) (get_job i d)"
    "locked e = [] \<Longrightarrow> length (filter P (jobs d)) \<le> nat n \<Longrightarrow> set js = {j \<in> set (jobs d). P j}"
proof -
  obtain js where n: "0 \<le> n"
    and js: "js = take (nat n) (skip_locked jid (locked e) (scan e (filter P (jobs d))))"
    and sub: "set js \<subseteq> {j \<in> set (jobs d). P j \<and> jid j \<notin> set (locked e)}"
    and dist: "distinct (map jid js)" and m: "m = int (length js)"
    and d': "d' = d\<lparr>jobs := update_where (\<lambda>j. j \<in> set js) f (jobs d)\<rparr>"
    by (rule reap_sweepE [OF assms(1-3)])
  have "set js = {j \<in> set (jobs d). P j}"
    if "locked e = []" "length (filter P (jobs d)) \<le> nat n"
    using that assms(3) by (auto simp: js)
  moreover have "int (length js) \<le> n" using n by (simp add: js)
  moreover have "distinct js" using dist by (rule distinct_map [THEN iffD1, THEN conjunct1])
  moreover have "get_job i d' = map_option (\<lambda>j. if j \<in> set js then f j else j) (get_job i d)" for i
    by (simp add: d' get_job_def table_simps assms(4))
  ultimately show ?thesis using that [OF sub m] by blast
qed

lemma reap_rows_id: "jid (reap_dead_row t j) = jid j" "jid (reap_recover_row j) = jid j"
  by (simp_all add: row_defs)

lemma not_expired_dead_row [simp]: "\<not> expired t (reap_dead_row t' j)"
  by (simp add: expired_def row_defs)

lemma not_expired_recover_row [simp]: "\<not> expired t (reap_recover_row j)"
  by (simp add: expired_def row_defs)

subsection \<open>Properties: reaping\<close>

text \<open>
  C11: whatever else is going on, a reap changes only rows whose lease has expired and that no
  other transaction holds: at most two batches of them, each either dead-lettered, and then it
  had used up its recoveries, or back in pending with one recovery more. A live lease is safe.
\<close>

theorem reap_only_expired:
  assumes "jobs_ok d" and "scan_ok e1" and "scan_ok e2"
    and "reap_expired_jobs e1 e2 n d = Inr (m, d')"
  shows "0 \<le> m \<and> m \<le> 2 * n \<and>
    (\<forall>i j. get_job i d = Some j \<longrightarrow>
       get_job i d' = Some j \<or>
       (expired (now e1) j \<and> poisoned j \<and> i \<notin> set (locked e1) \<and>
        get_job i d' = Some (reap_dead_row (now e1) j)) \<or>
       (expired (now e2) j \<and> i \<notin> set (locked e2) \<and> get_job i d' = Some (reap_recover_row j)))"
proof -
  obtain m1 d1 m2 d2 where r: "reap_dead e1 n d = Inr (m1, d1)" "reap_recover e2 n d1 = Inr (m2, d2)"
    "m = m1 + m2" "d' = conn_commit d2" "jobs_ok d1"
    by (rule reap_expiredE [OF assms(4,1,2)])
  obtain js where js: "set js \<subseteq> {j \<in> set (jobs d). (expired (now e1) j \<and> poisoned j) \<and> jid j \<notin> set (locked e1)}"
    "m1 = int (length js)" "int (length js) \<le> n"
    and g1: "\<And>i. get_job i d1 = map_option (\<lambda>j. if j \<in> set js then reap_dead_row (now e1) j else j) (get_job i d)"
    by (rule get_job_sweep [OF r(1) [unfolded reap_dead_def] assms(1,2) reap_rows_id(1)]) blast
  obtain ks where ks: "set ks \<subseteq> {j \<in> set (jobs d1). expired (now e2) j \<and> jid j \<notin> set (locked e2)}"
    "m2 = int (length ks)" "int (length ks) \<le> n"
    and g2: "\<And>i. get_job i d2 = map_option (\<lambda>j. if j \<in> set ks then reap_recover_row j else j) (get_job i d1)"
    by (rule get_job_sweep [OF r(2) [unfolded reap_recover_def] r(5) assms(3) reap_rows_id(2)]) blast
  have dead: "reap_dead_row (now e1) j \<notin> set ks" for j using ks(1) by auto
  have "get_job i d' = Some j \<or>
       (expired (now e1) j \<and> poisoned j \<and> i \<notin> set (locked e1) \<and>
        get_job i d' = Some (reap_dead_row (now e1) j)) \<or>
       (expired (now e2) j \<and> i \<notin> set (locked e2) \<and> get_job i d' = Some (reap_recover_row j))"
    if "get_job i d = Some j" for i j
    using that js(1) ks(1) dead get_job_SomeD [OF that] by (auto simp: r(4) g1 g2)
  with js(2,3) ks(2,3) r(3) show ?thesis by simp
qed

lemma reap_db1:
  "reap_expired_jobs (stmt_at 9) (stmt_at 9) 100 db1 =
     Inr (1, db1\<lparr>jobs := [reap_recover_row job1]\<rparr>)"
  by (simp add: reap_expired_jobs_def reap_dead_def reap_recover_def reap_sweep_def reap_select_def
      expired_def poisoned_def job1_defs conn_commit_def commit_tx_def)

lemma reap_only_expired_witness:
  "get_job 1 (db1\<lparr>jobs := [reap_recover_row job1]\<rparr>) = Some job1 \<or>
   (expired 9 job1 \<and> poisoned job1 \<and>
    get_job 1 (db1\<lparr>jobs := [reap_recover_row job1]\<rparr>) = Some (reap_dead_row 9 job1)) \<or>
   (expired 9 job1 \<and> get_job 1 (db1\<lparr>jobs := [reap_recover_row job1]\<rparr>) = Some (reap_recover_row job1))"
  using reap_only_expired [OF jobs_ok_db1 scan_ok_stmt_at scan_ok_stmt_at reap_db1] get_job_db1(1)
  by fastforce

text \<open>Every unfinished job has recoveries left: the bound the reaper is there to keep.\<close>

definition crash_bounded :: "db \<Rightarrow> bool" where
  "crash_bounded d \<longleftrightarrow>
     (\<forall>j \<in> set (jobs d). status j \<in> {Pending, Running} \<longrightarrow> recoveries j < max_recoveries j)"

definition reaped :: "micros \<Rightarrow> job \<Rightarrow> job" where
  "reaped t j =
     (if \<not> expired t j then j else if poisoned j then reap_dead_row t j else reap_recover_row j)"

lemma not_expired_reaped [simp]: "\<not> expired t (reaped t j)"
  by (simp add: reaped_def)

lemma reap_complete_rows:
  assumes "jobs_ok d" "scan_ok e" "locked e = []" "length (filter (expired (now e)) (jobs d)) \<le> nat n"
    and "reap_expired_jobs e e n d = Inr (m, d')"
  shows "get_job i d' = map_option (reaped (now e)) (get_job i d)"
proof -
  obtain m1 d1 m2 d2 where r: "reap_dead e n d = Inr (m1, d1)" "reap_recover e n d1 = Inr (m2, d2)"
    "d' = conn_commit d2" "jobs_ok d1"
    by (rule reap_expiredE [OF assms(5,1,2)])
  let ?P = "\<lambda>j. expired (now e) j \<and> poisoned j"
  obtain js where js: "set js \<subseteq> {j \<in> set (jobs d). ?P j \<and> jid j \<notin> set (locked e)}"
    and g1: "\<And>i. get_job i d1 = map_option (\<lambda>j. if j \<in> set js then reap_dead_row (now e) j else j) (get_job i d)"
    and full1: "locked e = [] \<Longrightarrow> length (filter ?P (jobs d)) \<le> nat n \<Longrightarrow> set js = {j \<in> set (jobs d). ?P j}"
    by (rule get_job_sweep [OF r(1) [unfolded reap_dead_def] assms(1,2) reap_rows_id(1)]) blast
  obtain ks where ks: "set ks \<subseteq> {j \<in> set (jobs d1). expired (now e) j \<and> jid j \<notin> set (locked e)}"
    and g2: "\<And>i. get_job i d2 = map_option (\<lambda>j. if j \<in> set ks then reap_recover_row j else j) (get_job i d1)"
    and full2: "locked e = [] \<Longrightarrow> length (filter (expired (now e)) (jobs d1)) \<le> nat n \<Longrightarrow>
      set ks = {j \<in> set (jobs d1). expired (now e) j}"
    by (rule get_job_sweep [OF r(2) [unfolded reap_recover_def] r(4) assms(2) reap_rows_id(2)]) blast
  have "length (filter ?P (jobs d)) \<le> length (filter (expired (now e)) (jobs d))"
    by (rule length_filter_mono) simp
  then have all1: "set js = {j \<in> set (jobs d). ?P j}"
    using full1 assms(3,4) by simp
  obtain hit where "jobs d1 = update_where hit (reap_dead_row (now e)) (jobs d)"
    using r(1) by (auto simp: reap_dead_def reap_sweep_def reap_select_def)
  then have "length (filter (expired (now e)) (jobs d1)) \<le> length (filter (expired (now e)) (jobs d))"
    by (simp add: length_filter_update_where)
  then have all2: "set ks = {j \<in> set (jobs d1). expired (now e) j}"
    using full2 assms(3,4) by simp
  show ?thesis
  proof (cases "get_job i d")
    case None
    then show ?thesis by (simp add: r(3) g1 g2)
  next
    case (Some j)
    let ?j1 = "if j \<in> set js then reap_dead_row (now e) j else j"
    have j1: "get_job i d1 = Some ?j1" by (simp add: g1 Some)
    have "?j1 \<in> set ks \<longleftrightarrow> expired (now e) ?j1"
      using get_job_SomeD [OF j1] by (simp only: all2) blast
    with get_job_SomeD [OF Some] show ?thesis
      by (auto simp: r(3) g2 j1 Some all1 reaped_def)
  qed
qed

text \<open>
  A reap whose batch holds every expired job, with none of them locked and one clock for both
  sweeps, leaves no expired lease behind: every job that had used up its recoveries is dead,
  every other one pending with one recovery more, and the bound on recoveries is kept.
\<close>

lemma reap_complete:
  assumes "jobs_ok d" and "scan_ok e" and "locked e = []"
    and "length (filter (expired (now e)) (jobs d)) \<le> nat n"
    and "reap_expired_jobs e e n d = Inr (m, d')"
  shows "(\<forall>i. get_job i d' = map_option (reaped (now e)) (get_job i d)) \<and>
    (\<forall>i j. get_job i d' = Some j \<longrightarrow> \<not> expired (now e) j) \<and>
    (crash_bounded d \<longrightarrow> crash_bounded d')"
proof -
  note rows = reap_complete_rows [OF assms]
  have "jobs_ok d'"
    using reap_expired_jobs_run [OF assms(5,2,2)] assms(1) by (rule jobs_run_ok)
  have "status (reaped (now e) j) \<in> {Pending, Running} \<Longrightarrow>
      recoveries (reaped (now e) j) < max_recoveries (reaped (now e) j)"
    if "status j \<in> {Pending, Running} \<Longrightarrow> recoveries j < max_recoveries j" for j
    using that by (auto simp: reaped_def expired_def poisoned_def row_defs split: if_splits)
  then have "crash_bounded d'" if "crash_bounded d"
    using that get_job_in_set [OF \<open>jobs_ok d'\<close>] unfolding crash_bounded_def
    by (fastforce simp: rows dest: get_job_SomeD)
  then show ?thesis by (auto simp: rows)
qed

lemma reap_complete_witness:
  "get_job 1 (db1\<lparr>jobs := [reap_recover_row job1]\<rparr>) = map_option (reaped 9) (get_job 1 db1)"
proof -
  have "length (filter (expired (now (stmt_at 9))) (jobs db1)) \<le> nat 100" by (simp add: job1_defs)
  from reap_complete [OF jobs_ok_db1 scan_ok_stmt_at _ this reap_db1] show ?thesis by simp
qed

text \<open>A running job whose lease ends at 5 and whose next recovery is its last, and tables of them.\<close>

definition poison :: "int \<Rightarrow> job" where
  "poison i = job1\<lparr>jid := i, idempotency_key := None, recoveries := 9\<rparr>"

definition db_poison :: "int list \<Rightarrow> db" where
  "db_poison is = db1\<lparr>jobs := map poison is, jobs_id_seq := 3\<rparr>"

text \<open>
  The bound leaks when the first sweep cannot take every poisoned job, because the batch is
  full, because the row was locked, or because the lease expired between the sweeps' two
  clocks: the second sweep does not look at the count, so a job that has used up its
  recoveries is handed out again instead of being dead-lettered.
\<close>

lemma reap_leaks_poison:
  "crash_bounded (db_poison [1, 2]) \<and>
   reap_expired_jobs (stmt_at 9) (stmt_at 9) 1 (db_poison [1, 2]) =
     Inr (2, (db_poison [])\<lparr>jobs := [reap_dead_row 9 (poison 1), reap_recover_row (poison 2)]\<rparr>) \<and>
   reap_expired_jobs (stmt_at 5) (stmt_at 6) 100 (db_poison [1]) =
     Inr (1, (db_poison [])\<lparr>jobs := [reap_recover_row (poison 1)]\<rparr>) \<and>
   recoveries (reap_recover_row (poison 1)) = max_recoveries (poison 1)"
  by (simp add: db_poison_def poison_def crash_bounded_def reap_expired_jobs_def reap_dead_def
      reap_recover_def reap_sweep_def reap_select_def expired_def poisoned_def job1_defs
      conn_commit_def commit_tx_def row_defs)

subsection \<open>Properties: a job that kills its workers\<close>

text \<open>
  One round: a worker claims every due job and dies at once; its leases run out and are
  reaped. Round \<open>k\<close> starts at \<open>t k\<close>.
\<close>

definition crash_round :: "micros \<Rightarrow> string \<Rightarrow> int \<Rightarrow> int \<Rightarrow> db \<Rightarrow> db result" where
  "crash_round t w l n d =
     bind_result (claim_jobs (stmt_at t) w l n d) (\<lambda>(_, d1).
       bind_result (reap_expired_jobs (stmt_at (t + seconds l + 1)) (stmt_at (t + seconds l + 1)) n d1)
         (\<lambda>(_, d2). Inr d2))"

primrec crash_rounds :: "(nat \<Rightarrow> micros) \<Rightarrow> string \<Rightarrow> int \<Rightarrow> int \<Rightarrow> nat \<Rightarrow> db \<Rightarrow> db result" where
  "crash_rounds t w l n 0 d = Inr d"
| "crash_rounds t w l n (Suc k) d =
     bind_result (crash_rounds t w l n k d) (crash_round (t k) w l n)"

text \<open>What a round makes of a row that is not running.\<close>

definition crashed :: "micros \<Rightarrow> string \<Rightarrow> int \<Rightarrow> job \<Rightarrow> job" where
  "crashed t w l j =
     (if due t j then reaped (t + seconds l + 1) (claim_row w (t + seconds l) j) else j)"

lemma crash_round_rows:
  assumes ok: "jobs_ok d" and idle: "\<And>j. j \<in> set (jobs d) \<Longrightarrow> status j \<noteq> Running"
    and room: "int (length (jobs d)) \<le> n"
  obtains d' where "crash_round t w l n d = Inr d'" "jobs_ok d'" "length (jobs d') = length (jobs d)"
    "\<And>i. get_job i d' = map_option (crashed t w l) (get_job i d)"
proof -
  let ?e = "stmt_at t" and ?e' = "stmt_at (t + seconds l + 1)"
  let ?q = "claim_queue ?e (jobs d)"
  obtain rows d1 where claim: "claim_jobs ?e w l n d = Inr (rows, d1)"
  proof -
    have "0 \<le> n" using room by linarith
    then show thesis by (intro that) (auto simp: claim_jobs_Inr_iff Let_def)
  qed
  note ok1 = claim_jobs_ok(1) [OF claim ok scan_ok_stmt_at]
  have len1: "length (jobs d1) = length (jobs d)"
    using claim by (auto simp: claim_jobs_Inr_iff Let_def)
  have "length ?q \<le> length (jobs d)"
    by (simp add: claim_queue_def)
  then have "take (nat n) ?q = ?q" using room by simp
  then have "fst ` set rows = jid ` set ?q"
    using claim_rows_set(1) [OF claim ok scan_ok_stmt_at refl] by (simp add: image_image)
  moreover have "i \<in> jid ` set ?q \<longleftrightarrow> due t j" if "get_job i d = Some j" for i j
    using get_job_SomeD [OF that] key_member_iff [of jid "jobs d" ?q j] jobs_okD(1) [OF ok]
    by (auto simp: set_claim_queue)
  ultimately have g1: "get_job i d1 =
      map_option (\<lambda>j. if due t j then claim_row w (t + seconds l) j else j) (get_job i d)" for i
    by (cases "get_job i d") (simp_all add: get_job_claim [OF claim ok scan_ok_stmt_at])
  obtain m d2 where reap: "reap_expired_jobs ?e' ?e' n d1 = Inr (m, d2)" and len2: "length (jobs d2) = length (jobs d1)"
    using room by (auto simp: reap_expired_jobs_def reap_dead_def reap_recover_def reap_sweep_def reap_select_def)
  have "length (filter (expired (now ?e')) (jobs d1)) \<le> nat n"
    using length_filter_le [of "expired (now ?e')" "jobs d1"] len1 room by linarith
  note g2 = reap_complete_rows [OF ok1 scan_ok_stmt_at stmt_at_sel(2) this reap]
  have "jobs_ok d2"
    using reap_expired_jobs_run [OF reap scan_ok_stmt_at scan_ok_stmt_at] ok1 by (rule jobs_run_ok)
  moreover have "crash_round t w l n d = Inr d2"
    by (simp add: crash_round_def claim reap)
  moreover have "get_job i d2 = map_option (crashed t w l) (get_job i d)" for i
    using idle by (cases "get_job i d")
      (auto simp: g2 g1 crashed_def reaped_def expired_def dest: get_job_SomeD)
  ultimately show ?thesis using that len1 len2 by metis
qed

text \<open>The row after \<open>k\<close> crashes, counted from a row that was pending.\<close>

definition after_crashes :: "nat \<Rightarrow> job \<Rightarrow> job \<Rightarrow> bool" where
  "after_crashes k j j' \<longleftrightarrow>
     attempts j' = attempts j \<and> run_at j' = run_at j \<and> max_recoveries j' = max_recoveries j \<and>
     (if recoveries j + int k < max_recoveries j
      then status j' = Pending \<and> recoveries j' = recoveries j + int k
      else status j' = Dead \<and> recoveries j' = max_recoveries j)"

lemma after_crashes_Suc:
  assumes "after_crashes k j j'" "run_at j \<le> t" "recoveries j < max_recoveries j"
  shows "after_crashes (Suc k) j (crashed t w l j')"
  using assms
  by (auto simp: after_crashes_def crashed_def reaped_def due_def expired_def poisoned_def row_defs
      split: if_splits)

lemma crash_rounds_rows:
  assumes "jobs_ok d" and "int (length (jobs d)) \<le> n" and "mono t"
    and rows: "\<forall>j \<in> set (jobs d). status j = Pending \<and> run_at j \<le> t 0 \<and> recoveries j < max_recoveries j"
  shows "\<exists>d'. crash_rounds t w l n k d = Inr d' \<and> jobs_ok d' \<and> length (jobs d') = length (jobs d) \<and>
      (\<forall>i. rel_option (after_crashes k) (get_job i d) (get_job i d'))"
proof (induction k)
  case 0
  have "after_crashes 0 j j" if "get_job i d = Some j" for i j
    using rows get_job_SomeD [OF that] by (simp add: after_crashes_def)
  then have "rel_option (after_crashes 0) (get_job i d) (get_job i d)" for i
    by (cases "get_job i d") auto
  then show ?case using assms(1) by simp
next
  case (Suc k)
  then obtain dk where dk: "crash_rounds t w l n k d = Inr dk" "jobs_ok dk"
    "length (jobs dk) = length (jobs d)"
    "\<And>i. rel_option (after_crashes k) (get_job i d) (get_job i dk)" by blast
  have "status j' \<noteq> Running" if "j' \<in> set (jobs dk)" for j'
    using dk(4) [of "jid j'"] get_job_in_set [OF dk(2) that]
    by (auto simp: option_rel_Some2 after_crashes_def split: if_splits)
  then obtain d' where d': "crash_round (t k) w l n dk = Inr d'" "jobs_ok d'"
    "length (jobs d') = length (jobs dk)"
    "\<And>i. get_job i d' = map_option (crashed (t k) w l) (get_job i dk)"
    using crash_round_rows [OF dk(2)] assms(2) dk(3) by metis
  have "rel_option (after_crashes (Suc k)) (get_job i d) (get_job i d')" for i
  proof (cases "get_job i d")
    case None
    with dk(4) [of i] show ?thesis by (simp add: d'(4))
  next
    case (Some j)
    with dk(4) [of i] obtain j' where j': "get_job i dk = Some j'" "after_crashes k j j'"
      by (auto simp: option_rel_Some1)
    have "run_at j \<le> t k" "recoveries j < max_recoveries j"
      using rows get_job_SomeD [OF Some] monoD [OF assms(3), of 0 k] by fastforce+
    with j' show ?thesis by (simp add: Some d'(4) after_crashes_Suc)
  qed
  with dk d' show ?case by auto
qed



end
