(* ===== verification/Enqueueing.thy ===== *)
theory Enqueueing
  imports Queue
begin

section \<open>Enqueueing\<close>

text \<open>
  What one enqueue writes, that an idempotency key names one job for as long as that job is
  in the table, and that the one-statement fan-out is the same as enqueueing in a loop,
  except that it rejects a batch that repeats a key.
\<close>

lemma key_unique_aux:
  "distinct (keys_of rs) \<Longrightarrow> j \<in> set rs \<Longrightarrow> j' \<in> set rs \<Longrightarrow>
   idempotency_key j = Some k \<Longrightarrow> idempotency_key j' = Some k \<Longrightarrow> j = j'"
proof (induction rs)
  case (Cons r rs)
  then show ?case
    using set_keys_of [of k rs] by (auto split: option.splits)
qed simp

lemma jid_inj:
  "jobs_ok d \<Longrightarrow> j \<in> set (jobs d) \<Longrightarrow> j' \<in> set (jobs d) \<Longrightarrow> jid j' = jid j \<Longrightarrow> j' = j"
  by (auto simp: jobs_ok_def distinct_map inj_on_def)

lemma conflicting_iff:
  assumes "jobs_ok d"
  shows "conflicting (Some k) (jobs d) = Some j \<longleftrightarrow> j \<in> set (jobs d) \<and> idempotency_key j = Some k"
proof
  assume j: "j \<in> set (jobs d) \<and> idempotency_key j = Some k"
  then obtain j' where j': "conflicting (Some k) (jobs d) = Some j'"
    by (cases "conflicting (Some k) (jobs d)") (auto simp: conflicting_None_iff)
  with j show "conflicting (Some k) (jobs d) = Some j"
    using key_unique_aux [OF jobs_okD(2) [OF assms]] by (auto dest!: conflicting_SomeD)
qed (auto dest: conflicting_SomeD)

lemma conflicting_noneI:
  "jobs_ok d \<Longrightarrow> (\<And>j. j \<in> set (jobs d) \<Longrightarrow> idempotency_key j \<noteq> Some k) \<Longrightarrow>
   conflicting (Some k) (jobs d) = None"
  by (simp add: conflicting_None_iff)

lemma insert_job_key:
  assumes "jobs_ok d" "insert_job t tsk a k d = (i, d')"
  obtains j where "get_job i d' = Some j" "idempotency_key j = k"
  using get_job_insert [OF assms, of i]
  by (cases "conflicting k (jobs d)") (auto simp: new_job_def dest: conflicting_SomeD)

subsection \<open>Properties: one job\<close>

text \<open>
  An enqueue adds one row, pending, due at once, with the defaults of the schema, under the next
  id of the sequence; if the key is already in the table it adds none and returns the id of
  the job that has it. No row there was is changed, and exactly one wake-up notification is
  queued, however many enqueues share the transaction.
\<close>

lemma enqueue_spec:
  assumes "jobs_ok d" and "distinct (notifies d)" and "enqueue e tsk a k d = (i, d')"
  shows "(case conflicting k (jobs d) of
      None \<Rightarrow> i = jobs_id_seq d \<and> jobs d' = jobs d @ [new_job (now e) i tsk a k]
    | Some j \<Rightarrow> i = jid j \<and> idempotency_key j = k \<and> jobs d' = jobs d) \<and>
    (\<forall>i' j. get_job i' d = Some j \<longrightarrow> get_job i' d' = Some j) \<and>
    get_job i d' \<noteq> None \<and>
    count_list (notifies d') JOB_NOTIFY_CHANNEL = 1"
proof -
  obtain d1 where d1: "insert_job (now e) tsk a k d = (i, d1)"
    and d': "d' = pg_notify JOB_NOTIFY_CHANNEL d1"
    using assms(3) by (auto simp: enqueue_unfold)
  have "notifies d1 = notifies d"
    using d1 by (auto simp: insert_job_def Let_def split: option.splits)
  then have "distinct (notifies d')" "JOB_NOTIFY_CHANNEL \<in> set (notifies d')"
    using assms(2) by (simp_all add: d' distinct_notifies_pg_notify notifies_pg_notify)
  then have "count_list (notifies d') JOB_NOTIFY_CHANNEL = 1"
    by (rule count_list_distinct)
  moreover have "case conflicting k (jobs d) of
      None \<Rightarrow> i = jobs_id_seq d \<and> jobs d' = jobs d @ [new_job (now e) i tsk a k]
    | Some j \<Rightarrow> i = jid j \<and> idempotency_key j = k \<and> jobs d' = jobs d"
    using d1 assms(1)
    by (cases "conflicting k (jobs d)")
      (auto simp: d' insert_job_fresh insert_job_conflict dest: conflicting_SomeD)
  moreover obtain j where "get_job i d1 = Some j" by (rule insert_job_key [OF assms(1) d1])
  ultimately show ?thesis
    using get_job_insert_old [OF assms(1) d1] by (simp add: d')
qed

lemma enqueue_spec_witness:
  "case enqueue (stmt_at 7) ''t'' [] (Some ''k'') db1 of (i, d') \<Rightarrow>
     i = 1 \<and> jobs d' = jobs db1 \<and> count_list (notifies d') JOB_NOTIFY_CHANNEL = 1"
proof -
  obtain i d' where e: "enqueue (stmt_at 7) ''t'' [] (Some ''k'') db1 = (i, d')" by fastforce
  have "distinct (notifies db1)" by (simp add: job1_defs)
  from enqueue_spec [OF jobs_ok_db1 this e] show ?thesis
    by (simp add: e) (simp add: conflicting_def job1_defs)
qed

lemma enqueue_again:
  assumes "jobs_ok d" and "enqueue e tsk a (Some k) d = (i, d1)" and "jobs_run d1 d2"
    and "enqueue e' tsk' a' (Some k) d2 = (i', d3)"
  shows "(get_job i d2 \<noteq> None \<longrightarrow> i' = i \<and> jobs d3 = jobs d2) \<and>
    (get_job i d2 = None \<longrightarrow> i' \<noteq> i \<and> get_job i' d3 \<noteq> None)"
proof -
  obtain d0 where ins: "insert_job (now e) tsk a (Some k) d = (i, d0)"
    and d1: "d1 = pg_notify JOB_NOTIFY_CHANNEL d0"
    using assms(2) by (auto simp: enqueue_unfold)
  obtain j where "get_job i d0 = Some j" and key: "idempotency_key j = Some k"
    by (rule insert_job_key [OF assms(1) ins])
  then have j: "get_job i d1 = Some j" by (simp add: d1)
  have ok1: "jobs_ok d1" using assms(1,2) by (rule enqueue_jobs_ok)
  then have ok2: "jobs_ok d2" by (rule jobs_run_ok [OF assms(3)])
  obtain d4 where ins2: "insert_job (now e') tsk' a' (Some k) d2 = (i', d4)"
    and d3: "d3 = pg_notify JOB_NOTIFY_CHANNEL d4"
    using assms(4) by (auto simp: enqueue_unfold)
  show ?thesis
  proof (cases "get_job i d2")
    case None
    have "i < jobs_id_seq d2"
      using get_job_below_seq [OF ok1 j] jobs_run_seq [OF assms(3) ok1] by simp
    with None insert_job_id [OF ins2] ok2 have "i' \<noteq> i"
      by (auto dest!: conflicting_SomeD simp: get_job_in_set split: option.splits)
    then show ?thesis using None insert_job_key [OF ok2 ins2] by (auto simp: d3)
  next
    case (Some j2)
    then have "idempotency_key j2 = Some k"
      using jobs_run_fate [OF assms(3) ok1 j] key by (simp add: job_fate_def same_work_def)
    then have "conflicting (Some k) (jobs d2) = Some j2"
      using get_job_SomeD [OF Some] by (simp add: conflicting_iff [OF ok2])
    with ok2 ins2 have "i' = jid j2" "jobs d4 = jobs d2"
      by (simp_all add: insert_job_conflict) auto
    then show ?thesis using get_job_SomeD [OF Some] Some by (simp add: d3)
  qed
qed

text \<open>
  C13: enqueue-time deduplication. Whatever happens in between, enqueueing again with a key
  returns the same job for as long as that job's row exists, and adds nothing, even if the
  job has finished and whatever the second call asks to run; once the row has been deleted
  the key is free and names a different job.
\<close>

theorem enqueue_idempotent:
  assumes "jobs_ok d" and "enqueue e tsk a (Some k) d = (i, d1)" and "jobs_run d1 d2"
    and "enqueue e' tsk' a' (Some k) d2 = (i', d3)"
  shows "(get_job i d2 \<noteq> None \<longrightarrow> i' = i \<and> jobs d3 = jobs d2) \<and>
    (get_job i d2 = None \<longrightarrow> i' \<noteq> i \<and> get_job i' d3 \<noteq> None)"
  using assms by (rule enqueue_again)

lemma enqueue_idempotent_witness:
  "case enqueue (stmt_at 7) ''t'' [] (Some ''k'') db1 of (i, d1) \<Rightarrow>
   case enqueue (stmt_at 8) ''u'' [(''x'', JInt 1)] (Some ''k'') d1 of (i', d3) \<Rightarrow>
     get_job i d1 \<noteq> None \<longrightarrow> i' = i \<and> jobs d3 = jobs d1"
proof -
  obtain i d1 where e1: "enqueue (stmt_at 7) ''t'' [] (Some ''k'') db1 = (i, d1)" by fastforce
  obtain i' d3 where e2: "enqueue (stmt_at 8) ''u'' [(''x'', JInt 1)] (Some ''k'') d1 = (i', d3)"
    by fastforce
  from enqueue_idempotent [OF jobs_ok_db1 e1 rtranclp.rtrancl_refl e2] show ?thesis
    by (simp add: e1 e2)
qed

subsection \<open>Many jobs in one statement\<close>

text \<open>Enqueueing in a loop.\<close>

fun enqueue_each :: "stmt \<Rightarrow> string \<Rightarrow> (args \<times> string option) list \<Rightarrow> db \<Rightarrow> int list \<times> db" where
  "enqueue_each e tsk [] d = ([], d)"
| "enqueue_each e tsk ((a, k) # rows) d =
     (case enqueue e tsk a k d of (i, d1) \<Rightarrow>
        case enqueue_each e tsk rows d1 of (is, d2) \<Rightarrow> (i # is, d2))"

lemma insert_job_pg_notify:
  "insert_job t tsk a k (pg_notify ch d) = map_prod id (pg_notify ch) (insert_job t tsk a k d)"
  by (cases d) (auto simp: insert_job_def pg_notify_def Let_def split: option.split)

lemma pg_notify_twice [simp]: "pg_notify ch (pg_notify ch d) = pg_notify ch d"
  by (auto simp: pg_notify_def)

lemma enqueue_pg_notify:
  "enqueue e tsk a k (pg_notify JOB_NOTIFY_CHANNEL d) = enqueue e tsk a k d"
  by (cases "insert_job (now e) tsk a k d") (simp add: enqueue_def insert_job_pg_notify)

lemma enqueue_each_pg_notify:
  "rows \<noteq> [] \<Longrightarrow> enqueue_each e tsk rows (pg_notify JOB_NOTIFY_CHANNEL d) = enqueue_each e tsk rows d"
  by (cases rows) (auto simp: enqueue_pg_notify)

text \<open>The keys of the rows; a row is touched by the statement if its key has been seen.\<close>

definition batch_keys :: "(args \<times> string option) list \<Rightarrow> string list" where
  "batch_keys rows = List.map_filter snd rows"

lemma batch_keys_simps [simp]:
  "batch_keys [] = []"
  "batch_keys ((a, k) # rows) = (case k of None \<Rightarrow> batch_keys rows | Some s \<Rightarrow> s # batch_keys rows)"
  by (simp_all add: batch_keys_def List.map_filter_def split: option.split)

definition touched_ok :: "db \<Rightarrow> int list \<Rightarrow> string set \<Rightarrow> bool" where
  "touched_ok d touched seen \<longleftrightarrow>
     (\<forall>k j. conflicting (Some k) (jobs d) = Some j \<longrightarrow> (jid j \<in> set touched \<longleftrightarrow> k \<in> seen)) \<and>
     (\<forall>k \<in> seen. conflicting (Some k) (jobs d) \<noteq> None)"

lemma conflicting_insert:
  assumes "jobs_ok d" "insert_job t tsk a k d = (i, d')"
  shows "conflicting (Some s) (jobs d') =
    (if k = Some s \<and> conflicting k (jobs d) = None then Some (new_job t i tsk a k)
     else conflicting (Some s) (jobs d))"
proof (cases "conflicting k (jobs d)")
  case None
  with assms have "jobs d' = jobs d @ [new_job t i tsk a k]" by (auto simp: insert_job_fresh)
  with None show ?thesis
    by (auto simp: conflicting_def find_append new_job_def split: option.split if_splits)
next
  case (Some j)
  with assms show ?thesis by (auto simp: insert_job_conflict)
qed

lemma touched_ok_insert:
  assumes "jobs_ok d" "insert_job t tsk a k d = (i, d')" "touched_ok d touched seen"
  shows "touched_ok d' (i # touched) (seen \<union> set_option k)"
proof -
  have i: "i = (case conflicting k (jobs d) of None \<Rightarrow> jobs_id_seq d | Some j \<Rightarrow> jid j)"
    using assms(2) by (rule insert_job_id)
  have uniq: "jid j' = jid j \<longleftrightarrow> s = s'"
    if "conflicting (Some s) (jobs d) = Some j" "conflicting (Some s') (jobs d) = Some j'" for s s' j j'
  proof
    assume "jid j' = jid j"
    with that jid_inj [OF assms(1), of j j'] show "s = s'" by (auto dest!: conflicting_SomeD)
  next
    assume "s = s'"
    with that show "jid j' = jid j" by simp
  qed
  have fresh: "jid j \<noteq> jobs_id_seq d" if "conflicting (Some s) (jobs d) = Some j" for s j
    using that jobs_okD(3) [OF assms(1), of j] by (auto dest!: conflicting_SomeD)
  note ci = conflicting_insert [OF assms(1,2)]
  have old: "jid j \<in> set touched \<longleftrightarrow> s \<in> seen" if "conflicting (Some s) (jobs d) = Some j" for s j
    using assms(3) that by (simp add: touched_ok_def)
  have new: "conflicting (Some s) (jobs d') \<noteq> None" if "s \<in> seen \<union> set_option k" for s
    using assms(3) that by (auto simp: touched_ok_def ci)
  have iff: "jid j \<in> set (i # touched) \<longleftrightarrow> s \<in> seen \<union> set_option k"
    if j: "conflicting (Some s) (jobs d') = Some j" for s j
  proof (cases "k = Some s \<and> conflicting k (jobs d) = None")
    case True
    with j show ?thesis by (auto simp: ci new_job_def)
  next
    case False
    then have sj: "conflicting (Some s) (jobs d) = Some j" using j by (auto simp: ci split: if_splits)
    have "jid j = i \<longleftrightarrow> k = Some s"
    proof (cases "conflicting k (jobs d)")
      case None
      with sj fresh [OF sj] show ?thesis by (auto simp: i)
    next
      case (Some j0)
      then obtain s0 where "k = Some s0" by (cases k) (auto simp: conflicting_def)
      with Some sj uniq [of s0 j0 s j] show ?thesis by (auto simp: i)
    qed
    then show ?thesis using old [OF sj] by auto
  qed
  show ?thesis unfolding touched_ok_def using iff new by blast
qed

text \<open>The loop without its notifications.\<close>

fun insert_each :: "micros \<Rightarrow> string \<Rightarrow> (args \<times> string option) list \<Rightarrow> db \<Rightarrow> int list \<times> db" where
  "insert_each t tsk [] d = ([], d)"
| "insert_each t tsk ((a, k) # rows) d =
     (case insert_job t tsk a k d of (i, d1) \<Rightarrow>
        case insert_each t tsk rows d1 of (is, d2) \<Rightarrow> (i # is, d2))"

lemma insert_all_distinct:
  assumes "jobs_ok d" "touched_ok d touched seen"
    and "distinct (batch_keys rows)" "set (batch_keys rows) \<inter> seen = {}"
  shows "insert_all t tsk (map (\<lambda>(a, k). (Some a, k)) rows) touched d = Inr (insert_each t tsk rows d)"
  using assms
proof (induction rows arbitrary: d touched seen)
  case (Cons row rows)
  obtain a k where row: "row = (a, k)" by fastforce
  obtain i d1 where ins: "insert_job t tsk a k d = (i, d1)" by fastforce
  obtain "is" d2 where rest: "insert_each t tsk rows d1 = (is, d2)" by fastforce
  have "set (batch_keys rows) \<inter> (seen \<union> set_option k) = {}" "distinct (batch_keys rows)"
    using Cons.prems(3,4) by (auto simp: row split: option.splits)
  then have "insert_all t tsk (map (\<lambda>(a, k). (Some a, k)) rows) (i # touched) d1 = Inr (is, d2)"
    using Cons.IH [OF insert_job_jobs_ok [OF Cons.prems(1) ins]
        touched_ok_insert [OF Cons.prems(1) ins Cons.prems(2)]] by (simp add: rest)
  moreover have "jid j \<notin> set touched" if "conflicting k (jobs d) = Some j" for j
    using that Cons.prems(2,4) by (cases k) (auto simp: row touched_ok_def conflicting_def)
  ultimately show ?case
    by (simp add: row ins rest split: option.split)
qed simp

lemma insert_all_repeated:
  assumes "jobs_ok d" "touched_ok d touched seen"
    and "\<not> (distinct (batch_keys rows) \<and> set (batch_keys rows) \<inter> seen = {})"
  shows "insert_all t tsk (map (\<lambda>(a, k). (Some a, k)) rows) touched d =
    Inl (CardinalityViolation ''ON CONFLICT DO UPDATE command cannot affect row a second time'')"
  using assms
proof (induction rows arbitrary: d touched seen)
  case (Cons row rows)
  obtain a k where row: "row = (a, k)" by fastforce
  obtain i d1 where ins: "insert_job t tsk a k d = (i, d1)" by fastforce
  show ?case
  proof (cases "\<exists>s. k = Some s \<and> s \<in> seen")
    case True
    then obtain s j where "k = Some s" "conflicting k (jobs d) = Some j" "jid j \<in> set touched"
      using Cons.prems(2) by (auto simp: touched_ok_def)
    then show ?thesis by (simp add: row)
  next
    case False
    then have "\<not> (distinct (batch_keys rows) \<and> set (batch_keys rows) \<inter> (seen \<union> set_option k) = {})"
      using Cons.prems(3) by (auto simp: row split: option.splits)
    from Cons.IH [OF insert_job_jobs_ok [OF Cons.prems(1) ins]
        touched_ok_insert [OF Cons.prems(1) ins Cons.prems(2)] this]
    show ?thesis by (simp add: row ins split: option.split)
  qed
qed simp

lemma enqueue_each_insert:
  "rows \<noteq> [] \<Longrightarrow> insert_each (now e) tsk rows d = (is, d') \<Longrightarrow>
   enqueue_each e tsk rows d = (is, pg_notify JOB_NOTIFY_CHANNEL d')"
proof (induction rows arbitrary: d "is" d')
  case (Cons row rows)
  obtain a k where row: "row = (a, k)" by fastforce
  obtain i d1 where ins: "insert_job (now e) tsk a k d = (i, d1)" by fastforce
  obtain "is'" d2 where rest: "insert_each (now e) tsk rows d1 = (is', d2)" by fastforce
  show ?case
  proof (cases "rows = []")
    case True
    with Cons.prems show ?thesis by (auto simp: row ins enqueue_def)
  next
    case False
    with Cons.IH [OF False rest] Cons.prems rest show ?thesis
      by (simp add: row ins enqueue_def enqueue_each_pg_notify)
  qed
qed simp

lemma unnest2_zip:
  "length as = length ks \<Longrightarrow> unnest2 as ks = map (\<lambda>(a, k). (Some a, k)) (zip as ks)"
  by (induction as ks rule: unnest2.induct) auto



end
