(* ===== verification/Inspection.thy ===== *)
theory Inspection
  imports Leases
begin

section \<open>Inspection, retention and the dead-letter retry\<close>

text \<open>
  What an idle worker may conclude from \<open>seconds_until_due\<close>, what the retention sweep may
  delete, what a retry resets, and what \<open>get_queue_stats\<close> and \<open>list_jobs\<close> report.
\<close>

subsection \<open>The next time a worker is needed\<close>

text \<open>When a row will need a worker: when it is due, or when its lease ends.\<close>

definition needs_at :: "job \<Rightarrow> micros option" where
  "needs_at j = (case status j of Pending \<Rightarrow> Some (run_at j) | Running \<Rightarrow> locked_until j | _ \<Rightarrow> None)"

lemma min_opt_None_iff: "min_opt ts = None \<longleftrightarrow> ts = []"
  by (simp add: min_opt_def)

lemma min_opt_Some_iff: "min_opt ts = Some m \<longleftrightarrow> m \<in> set ts \<and> (\<forall>t \<in> set ts. m \<le> t)"
  by (auto simp: min_opt_def intro!: Min_eqI)

lemma pg_least_min_opt: "pg_least (min_opt ps) (min_opt rs) = min_opt (ps @ rs)"
  by (simp add: min_opt_def Min_Un)

lemma set_map_filter_opt: "set (List.map_filter f xs) = {y. \<exists>x \<in> set xs. f x = Some y}"
  by (induction xs) (auto simp: List.map_filter_def split: option.splits)

lemma needs_at_iff:
  "needs_at j = Some t \<longleftrightarrow>
     status j = Pending \<and> run_at j = t \<or> status j = Running \<and> locked_until j = Some t"
  by (cases "status j") (auto simp: needs_at_def)

lemma mem_needs:
  "t \<in> set (map run_at (filter (\<lambda>j. status j = Pending) rs) @
     List.map_filter locked_until (filter (\<lambda>j. status j = Running) rs)) \<longleftrightarrow>
   (\<exists>j \<in> set rs. needs_at j = Some t)"
  by (auto simp: needs_at_iff set_map_filter_opt)

lemma next_due_None_iff: "next_due d = None \<longleftrightarrow> (\<forall>j \<in> set (jobs d). needs_at j = None)"
  unfolding next_due_def pg_least_min_opt min_opt_None_iff set_empty [symmetric]
  using mem_needs [of _ "jobs d"] by (metis empty_iff ex_in_conv not_Some_eq)

lemma next_due_Some_iff:
  "next_due d = Some m \<longleftrightarrow>
     (\<exists>j \<in> set (jobs d). needs_at j = Some m) \<and> (\<forall>j \<in> set (jobs d). \<forall>t. needs_at j = Some t \<longrightarrow> m \<le> t)"
  unfolding next_due_def pg_least_min_opt min_opt_Some_iff mem_needs Ball_def by blast

lemma not_needed_before:
  "needs_at j = Some u \<Longrightarrow> t < u \<Longrightarrow> \<not> due t j \<and> \<not> expired t j"
  by (auto simp: needs_at_iff due_def expired_def)

lemma needed_after: "needs_at j = Some u \<Longrightarrow> u < t \<Longrightarrow> due t j \<or> expired t j"
  by (auto simp: needs_at_iff due_def expired_def)

lemma never_needed: "row_ok j \<Longrightarrow> needs_at j = None \<Longrightarrow> \<not> due t j \<and> \<not> expired t j"
  by (cases "status j") (auto simp: needs_at_def due_def expired_def row_ok_def)

subsection \<open>Properties\<close>

text \<open>
  C15: an idle worker that sleeps for \<open>seconds_until_due\<close> misses nothing and wakes for a reason: if
  nothing else changes the table, no job can be claimed or reaped before that time, and from
  just after it one can; \<open>None\<close> means that none ever can.
\<close>

theorem idle_sleep_safe:
  assumes "jobs_ok d"
  shows "case fst (seconds_until_due e d) of
      None \<Rightarrow> \<forall>j \<in> set (jobs d). \<forall>t. \<not> due t j \<and> \<not> expired t j
    | Some s \<Rightarrow>
        (\<forall>j \<in> set (jobs d). \<forall>t. of_int (t - now e) / 1000000 < s \<longrightarrow> \<not> due t j \<and> \<not> expired t j) \<and>
        (\<exists>j \<in> set (jobs d). \<forall>t. s < of_int (t - now e) / 1000000 \<longrightarrow> due t j \<or> expired t j)"
proof (cases "next_due d")
  case None
  then have "\<forall>j \<in> set (jobs d). \<forall>t. \<not> due t j \<and> \<not> expired t j"
    using jobs_okD(4) [OF assms] never_needed by (simp add: next_due_None_iff)
  then show ?thesis by (simp add: seconds_until_due_def None)
next
  case (Some m)
  then obtain j where j: "j \<in> set (jobs d)" "needs_at j = Some m"
    and least: "\<And>j t. j \<in> set (jobs d) \<Longrightarrow> needs_at j = Some t \<Longrightarrow> m \<le> t"
    by (auto simp: next_due_Some_iff)
  have before: "\<not> due t r \<and> \<not> expired t r" if "r \<in> set (jobs d)" "t < m" for r t
    using that(2) least [OF that(1)] never_needed [OF jobs_okD(4) [OF assms that(1)]]
      not_needed_before [of r _ t]
    by (cases "needs_at r") force+
  have after: "due t j \<or> expired t j" if "m < t" for t
    using needed_after [OF j(2) that] .
  show ?thesis
    using before after j(1)
    by (auto simp: seconds_until_due_def Some divide_less_cancel)
qed

lemma idle_sleep_safe_witness:
  "fst (seconds_until_due (stmt_at 2) db1) = Some (3 / 1000000) \<and>
   \<not> due 4 job1 \<and> \<not> expired 4 job1 \<and> (due 6 job1 \<or> expired 6 job1)"
proof -
  have s: "fst (seconds_until_due (stmt_at 2) db1) = Some (3 / 1000000)"
    by (simp add: seconds_until_due_def next_due_def min_opt_def job1_defs List.map_filter_def)
  have "jobs db1 = [job1]" by (simp add: db1_def)
  with idle_sleep_safe [OF jobs_ok_db1, of "stmt_at 2"] s
  have "of_int (4 - 2) / 1000000 < (3 / 1000000 :: real) \<longrightarrow> \<not> due 4 job1 \<and> \<not> expired 4 job1"
    and "(3 / 1000000 :: real) < of_int (6 - 2) / 1000000 \<longrightarrow> due 6 job1 \<or> expired 6 job1"
    by auto
  with s show ?thesis by simp
qed

lemma purge_queue_order:
  fixes rs :: "job list"
  assumes "j \<in> set (take m (skip_locked jid held (sort_key jid (filter P rs))))"
    and "k \<in> set (skip_locked jid held (sort_key jid (filter P rs)))"
    and "k \<notin> set (take m (skip_locked jid held (sort_key jid (filter P rs))))"
  shows "jid j \<le> jid k" "length (take m (skip_locked jid held (sort_key jid (filter P rs)))) = m"
proof -
  let ?q = "skip_locked jid held (sort_key jid (filter P rs))"
  have "sorted (map jid ?q)"
    unfolding skip_locked_def by (rule sorted_map_filter) simp
  moreover have "k \<in> set (drop m ?q)"
    using assms(2,3) set_take_drop [of ?q m] by blast
  ultimately show "jid j \<le> jid k" using assms(1) by (metis take_sorted_prefix)
  show "length (take m ?q) = m"
    using assms(2,3) by (cases "length ?q \<le> m") auto
qed

text \<open>
  The retention sweep deletes at most \<open>batch\<close> rows, all of them succeeded or dead, finished
  longer ago than the window and not locked, lowest ids first; everything else, in particular
  every pending or running job, stays exactly as it was, and the count returned is exact.
\<close>

lemma purge_spec:
  assumes "jobs_ok d" and "delete_completed_jobs e s n d = Inr (m, d')"
  defines "cutoff \<equiv> now e - timedelta_seconds s"
  shows "m \<le> n \<and> int (length (jobs d')) = int (length (jobs d)) - m \<and>
    (\<forall>i j. get_job i d = Some j \<longrightarrow>
       get_job i d' = (if completed_before cutoff j \<and> get_job i d' = None then None else Some j)) \<and>
    (\<forall>i j. get_job i d = Some j \<longrightarrow> get_job i d' = None \<longrightarrow> i \<notin> set (locked e)) \<and>
    (\<forall>i j i'. get_job i d = Some j \<longrightarrow> completed_before cutoff j \<longrightarrow> i \<notin> set (locked e) \<longrightarrow>
       get_job i d' \<noteq> None \<longrightarrow> get_job i' d \<noteq> None \<longrightarrow> get_job i' d' = None \<longrightarrow> i' < i \<and> m = n)"
proof -
  let ?q = "skip_locked jid (locked e) (sort_key jid (filter (completed_before cutoff) (jobs d)))"
  obtain js where n: "0 \<le> n" and js: "js = take (nat n) ?q"
    and sub: "set js \<subseteq> {j \<in> set (jobs d). completed_before cutoff j \<and> jid j \<notin> set (locked e)}"
    and dist: "distinct (map jid js)" and m: "m = int (length js)"
    and d': "d' = conn_commit (d\<lparr>jobs := delete_where (\<lambda>j. jid j \<in> jid ` set js) (jobs d)\<rparr>)"
    unfolding cutoff_def by (rule delete_completedE [OF assms(2,1)])
  have mem: "jid j \<in> jid ` set js \<longleftrightarrow> j \<in> set js" if "j \<in> set (jobs d)" for j
    using jobs_okD(1) [OF assms(1)] _ that by (rule key_member_iff) (use sub in auto)
  have get: "get_job i d' = (case get_job i d of None \<Rightarrow> None | Some j \<Rightarrow> if j \<in> set js then None else Some j)" for i
    using mem get_job_SomeD [of i d]
    by (auto simp: d' get_job_delete [OF assms(1)] split: option.split)
  have "length (filter (\<lambda>j. jid j \<in> set (map jid js)) (jobs d)) = length (map jid js)"
    by (rule length_filter_key_member [OF jobs_okD(1) [OF assms(1)] _ dist]) (use sub in auto)
  then have "int (length (jobs d')) = int (length (jobs d)) - m"
    using sum_length_filter_compl [of "\<lambda>j. jid j \<in> jid ` set js" "jobs d"]
    by (simp add: d' m delete_where_def)
  moreover have "i' < i \<and> m = n"
    if "get_job i d = Some j" "completed_before cutoff j" "i \<notin> set (locked e)" "j \<notin> set js"
      "get_job i' d = Some j'" "j' \<in> set js" for i j i' j'
  proof -
    have "j \<in> set ?q" using that(1-3) by (auto simp: table_simps dest: get_job_SomeD)
    from purge_queue_order [OF that(6) [unfolded js] this] that get_job_SomeD [OF that(1)]
      get_job_SomeD [OF that(5)]
    have "i' \<le> i" "length js = nat n" by (simp_all add: js)
    moreover have "i' \<noteq> i" using that by auto
    ultimately show ?thesis using n by (simp add: m)
  qed
  moreover have "m \<le> n" using n by (simp add: m js)
  moreover have "completed_before cutoff j \<and> jid j \<notin> set (locked e)" if "j \<in> set js" for j
    using sub that by auto
  ultimately show ?thesis
    by (auto simp: get dest: get_job_SomeD split: option.splits if_splits)
qed

lemma purge_spec_witness:
  "get_job 1 (db1\<lparr>jobs := []\<rparr>) = None \<and> (1 :: int) \<le> 10"
proof -
  let ?d = "db1\<lparr>jobs := [succeed_row 9 job1]\<rparr>"
  have "jobs_ok ?d" by (simp add: jobs_ok_def row_ok_def row_defs job1_defs)
  moreover have "delete_completed_jobs (stmt_at 20) (1 / 1000000) 10 ?d = Inr (1, db1\<lparr>jobs := []\<rparr>)"
    by (simp add: delete_completed_jobs_def completed_before_def timedelta_seconds_def
        round_half_even_def delete_where_def row_defs job1_defs conn_commit_def commit_tx_def)
  ultimately have "(1 :: int) \<le> 10" by (rule purge_spec [THEN conjunct1])
  then show ?thesis by (simp add: get_job_def)
qed

text \<open>
  Retrying resets a dead job to a clean slate, due at once, with no attempts, recoveries or
  finish time, keeping its last error and its limits; on a job that is not dead, or not
  there, it reports so and changes nothing. Other rows are never touched.
\<close>

lemma retry_job_spec:
  assumes "jobs_ok d" and "retry_job e i d = (b, d')"
  shows "(b \<longleftrightarrow> (\<exists>j. get_job i d = Some j \<and> status j = Dead)) \<and>
    get_job i d' = map_option (\<lambda>j. if status j = Dead
        then j\<lparr>status := Pending, attempts := 0, recoveries := 0, run_at := now e, finished_at := None\<rparr>
        else j) (get_job i d) \<and>
    (\<forall>i'. i' \<noteq> i \<longrightarrow> get_job i' d' = get_job i' d) \<and>
    (\<forall>j. b \<longrightarrow> get_job i d' = Some j \<longrightarrow> due (now e) j)"
proof -
  let ?hit = "\<lambda>j. jid j = i \<and> status j = Dead"
  have b: "b \<longleftrightarrow> (\<exists>j \<in> set (jobs d). ?hit j)"
    and d': "d' = conn_commit (d\<lparr>jobs := update_where ?hit (retry_row (now e)) (jobs d)\<rparr>)"
    using assms(2) by (auto simp: retry_job_def Let_def filter_empty_conv)
  have get: "get_job i' d' = map_option (\<lambda>j. if ?hit j then retry_row (now e) j else j) (get_job i' d)" for i'
    by (simp add: d' revive.get_job_write)
  have "b \<longleftrightarrow> (\<exists>j. get_job i d = Some j \<and> status j = Dead)"
    using get_job_iff [OF assms(1)] b by blast
  moreover have "get_job i' d' = get_job i' d" if "i' \<noteq> i" for i'
    using that by (cases "get_job i' d") (auto simp: get dest: get_job_SomeD)
  moreover have row: "get_job i d' = map_option (\<lambda>j. if status j = Dead then retry_row (now e) j else j) (get_job i d)"
    by (cases "get_job i d") (auto simp: get dest: get_job_SomeD)
  moreover have "due (now e) (retry_row (now e) j)" for j by (simp add: due_def retry_row_def)
  ultimately show ?thesis unfolding row retry_row_def by auto
qed

lemma retry_job_spec_witness: "\<not> fst (retry_job (stmt_at 9) 1 db1)"
  using retry_job_spec [OF jobs_ok_db1, of "stmt_at 9" 1] get_job_db1(1)
  by (cases "retry_job (stmt_at 9) 1 db1") (auto simp: job1_defs)

text \<open>
  On one snapshot the statistics account for every job once, and the alerting number is the
  longest any claimable job has been waiting: there is one exactly if a claim would find a
  job, and no due job has waited longer.
\<close>

lemma queue_stats_spec:
  "st_pending (get_queue_stats e d d) + st_running (get_queue_stats e d d) +
   st_succeeded (get_queue_stats e d d) + st_dead (get_queue_stats e d d) = int (length (jobs d)) \<and>
   (case oldest_pending_age_seconds (get_queue_stats e d d) of
      None \<Rightarrow> filter (due (now e)) (jobs d) = []
    | Some x \<Rightarrow>
        0 \<le> x \<and> (\<exists>j \<in> set (jobs d). due (now e) j \<and> x = of_int (now e - run_at j) / 1000000) \<and>
        (\<forall>j \<in> set (jobs d). due (now e) j \<longrightarrow> of_int (now e - run_at j) / 1000000 \<le> x))"
proof -
  have count: "count_status Pending d + count_status Running d + count_status Succeeded d +
      count_status Dead d = int (length (jobs d))"
    unfolding count_status_def
  proof (induction "jobs d" arbitrary: d)
    case (Cons j js)
    have "jobs (d\<lparr>jobs := js\<rparr>) = js" by simp
    with Cons.hyps(1) [of "d\<lparr>jobs := js\<rparr>"] show ?case
      by (cases "status j") (simp_all flip: Cons.hyps(2))
  qed simp
  show ?thesis
  proof (cases "sort_key run_at (filter (due (now e)) (jobs d))")
    case Nil
    then have "filter (due (now e)) (jobs d) = []" by (metis set_empty set_sort)
    with Nil count show ?thesis by (simp add: get_queue_stats_def)
  next
    case (Cons j js)
    have set: "set (j # js) = {j \<in> set (jobs d). due (now e) j}"
      unfolding Cons [symmetric] by auto
    have "sorted (map run_at (j # js))" unfolding Cons [symmetric] by simp
    then have least: "run_at j \<le> run_at k" if "k \<in> set (jobs d)" "due (now e) k" for k
      using that set by auto
    have j: "j \<in> set (jobs d)" "due (now e) j" using set by auto
    then have "run_at j \<le> now e" by (simp add: due_def)
    moreover have "of_int (now e - run_at k) / 1000000 \<le> (of_int (now e - run_at j) / 1000000 :: real)"
      if "k \<in> set (jobs d)" "due (now e) k" for k
      using least [OF that] by (simp add: divide_right_mono)
    ultimately show ?thesis using Cons count j by (auto simp: get_queue_stats_def)
  qed
qed

lemma queue_stats_spec_witness:
  "st_pending (get_queue_stats (stmt_at 4) db2 db2) + st_running (get_queue_stats (stmt_at 4) db2 db2) +
   st_succeeded (get_queue_stats (stmt_at 4) db2 db2) + st_dead (get_queue_stats (stmt_at 4) db2 db2) = 2"
  using queue_stats_spec [of "stmt_at 4" db2] by (simp add: db2_def)

text \<open>
  A listing shows at most \<open>limit\<close> jobs, all of the status asked for, newest first; if it
  leaves one out, it is full and shows none that is older than that one.
\<close>

lemma list_jobs_spec:
  assumes "scan_ok e" and "list_jobs e st limit d = Inr out"
  defines "wanted \<equiv> \<lambda>j. case st of None \<Rightarrow> True | Some s \<Rightarrow> status_text (status j) = s"
  shows "int (length out) \<le> limit \<and>
    sorted (rev (map l_created_at out)) \<and>
    (\<forall>r \<in> set out. \<exists>j \<in> set (jobs d). wanted j \<and> r = summary_of j) \<and>
    (\<forall>j \<in> set (jobs d). wanted j \<longrightarrow> summary_of j \<notin> set out \<longrightarrow>
       int (length out) = limit \<and> (\<forall>r \<in> set out. created_at j \<le> l_created_at r))"
proof -
  let ?q = "sort_key (\<lambda>j. - created_at j) (scan e (filter wanted (jobs d)))"
  have n: "0 \<le> limit" and out: "out = map summary_of (take (nat limit) ?q)"
    using assms(2) by (auto simp: list_jobs_def wanted_def dest!: pg_limit_InrD)
  have q: "set ?q = {j \<in> set (jobs d). wanted j}" using assms(1) by auto
  have sorted: "sorted (map (\<lambda>j. - created_at j) ?q)" by simp
  then have "sorted (map (\<lambda>j. - created_at j) (take (nat limit) ?q))"
    by (simp flip: take_map)
  then have "sorted_wrt (\<ge>) (map created_at (take (nat limit) ?q))"
    by (simp add: sorted_wrt_map)
  then have "sorted (rev (map l_created_at out))"
    by (simp add: out comp_def summary_of_def sorted_wrt_rev)
  moreover have "int (length out) = limit \<and> (\<forall>r \<in> set out. created_at j \<le> l_created_at r)"
    if "j \<in> set (jobs d)" "wanted j" "summary_of j \<notin> set out" for j
  proof -
    have j: "j \<in> set ?q" "j \<notin> set (take (nat limit) ?q)"
      using that q by (auto simp: out)
    then have "j \<in> set (drop (nat limit) ?q)" using set_take_drop [of ?q "nat limit"] by blast
    then have "- created_at r \<le> - created_at j" if "r \<in> set (take (nat limit) ?q)" for r
      using take_sorted_prefix [OF sorted that] by simp
    moreover have "length (take (nat limit) ?q) = nat limit"
      using j by (cases "length ?q \<le> nat limit") auto
    ultimately show ?thesis using n by (auto simp: out summary_of_def)
  qed
  moreover have "set (take (nat limit) ?q) \<subseteq> set ?q" by (rule set_take_subset)
  ultimately show ?thesis using n q by (auto simp: out)
qed

lemma list_jobs_spec_witness:
  "list_jobs (stmt_at 4) (Some ''pending'') 1 db2 = Inr [summary_of (new_job 3 1 ''a'' [] None)] \<and>
   int (length [summary_of (new_job 3 1 ''a'' [] None)]) \<le> 1"
proof -
  have "list_jobs (stmt_at 4) (Some ''pending'') 1 db2 = Inr [summary_of (new_job 3 1 ''a'' [] None)]"
    by (simp add: list_jobs_def db2_def new_job_def summary_of_def)
  with list_jobs_spec [OF scan_ok_stmt_at this] show ?thesis by blast
qed

end
