(* ===== verification/Heartbeat.thy ===== *)
theory Heartbeat
  imports Reaping "HOL-Library.AList"
begin

section \<open>The heartbeat\<close>

text \<open>
  \<^verbatim>\<open>_Heartbeat\<close> of \<^verbatim>\<open>src/durable_queue/worker.py\<close>. Its dict of deadlines is an
  association list, in the dict's insertion order. The thread's own clock
  (\<^verbatim>\<open>monotonic()\<close>, in seconds) is an argument of each operation, separate from the
  database's \<open>now()\<close> in the statement.
\<close>

record heartbeat =
  hb_worker_id :: string
  hb_lease_seconds :: int
  hb_interval :: real
  close_when_idle :: bool
  deadlines :: "(int \<times> real option) list"

definition new_heartbeat :: "string \<Rightarrow> int \<Rightarrow> real \<Rightarrow> bool \<Rightarrow> heartbeat" where
  "new_heartbeat w l itv idle =
     \<lparr> hb_worker_id = w, hb_lease_seconds = l, hb_interval = itv, close_when_idle = idle,
       deadlines = [] \<rparr>"

definition hold :: "real \<Rightarrow> int list \<Rightarrow> real option \<Rightarrow> heartbeat \<Rightarrow> heartbeat" where
  "hold mt job_ids max_execution_seconds h =
     (let deadline = map_option (\<lambda>s. mt + s) max_execution_seconds
      in h\<lparr>deadlines := fold (\<lambda>i ds. AList.update i deadline ds) job_ids (deadlines h)\<rparr>)"

definition hb_release :: "int list \<Rightarrow> heartbeat \<Rightarrow> heartbeat" where
  "hb_release job_ids h = h\<lparr>deadlines := fold AList.delete job_ids (deadlines h)\<rparr>"

definition live :: "real \<Rightarrow> heartbeat \<Rightarrow> int list" where
  "live mt h =
     map fst (filter (\<lambda>(job_id, deadline). case deadline of None \<Rightarrow> True | Some t \<Rightarrow> mt < t)
       (deadlines h))"

text \<open>
  One beat of the loop: what it does to the database, and whether it closes its connection.
  \<open>fails\<close> says whether getting the connection or the UPDATE raises; the exception is logged
  and the thread carries on.
\<close>

definition beat :: "stmt \<Rightarrow> real \<Rightarrow> exn option \<Rightarrow> heartbeat \<Rightarrow> db \<Rightarrow> db \<times> bool" where
  "beat e mt fails h d =
     (let ids = live mt h
      in if ids = [] then (d, close_when_idle h)
         else case fails of
             None \<Rightarrow> (extend_leases e ids (hb_worker_id h) (hb_lease_seconds h) d, False)
           | Some _ \<Rightarrow> (d, True))"

subsection \<open>What is held\<close>

definition deadline_of :: "heartbeat \<Rightarrow> int \<Rightarrow> real option option" where
  "deadline_of h i = map_of (deadlines h) i"

definition hb_ok :: "heartbeat \<Rightarrow> bool" where
  "hb_ok h \<longleftrightarrow> distinct (map fst (deadlines h))"

abbreviation held :: "heartbeat \<Rightarrow> int set" where
  "held h \<equiv> fst ` set (deadlines h)"

lemma map_of_fold_update:
  "map_of (fold (\<lambda>i ds. AList.update i v ds) is ds) i =
     (if i \<in> set is then Some v else map_of ds i)"
  by (induction "is" arbitrary: ds) (auto simp: update_conv')

lemma map_of_fold_delete:
  "map_of (fold AList.delete is ds) i = (if i \<in> set is then None else map_of ds i)"
  by (induction "is" arbitrary: ds) (auto simp: delete_conv')

lemma distinct_fold_update:
  "distinct (map fst ds) \<Longrightarrow> distinct (map fst (fold (\<lambda>i ds. AList.update i v ds) is ds))"
  by (induction "is" arbitrary: ds) (auto simp: distinct_update)

lemma distinct_fold_delete:
  "distinct (map fst ds) \<Longrightarrow> distinct (map fst (fold AList.delete is ds))"
  by (induction "is" arbitrary: ds) (auto simp: distinct_delete)

lemma deadline_of_hold:
  "deadline_of (hold mt is m h) i =
     (if i \<in> set is then Some (map_option (\<lambda>s. mt + s) m) else deadline_of h i)"
  by (simp add: deadline_of_def hold_def Let_def map_of_fold_update)

lemma deadline_of_release:
  "deadline_of (hb_release is h) i = (if i \<in> set is then None else deadline_of h i)"
  by (simp add: deadline_of_def hb_release_def map_of_fold_delete)

lemma hb_ok_simps [simp]:
  "hb_ok (new_heartbeat w l itv idle)"
  "hb_ok h \<Longrightarrow> hb_ok (hold mt is m h)"
  "hb_ok h \<Longrightarrow> hb_ok (hb_release is h)"
  by (simp_all add: hb_ok_def new_heartbeat_def hold_def hb_release_def Let_def
      distinct_fold_update distinct_fold_delete)

lemma hb_sel [simp]:
  "hb_worker_id (hold mt is m h) = hb_worker_id h" "hb_worker_id (hb_release is h) = hb_worker_id h"
  "hb_lease_seconds (hold mt is m h) = hb_lease_seconds h"
  "hb_lease_seconds (hb_release is h) = hb_lease_seconds h"
  by (simp_all add: hold_def hb_release_def Let_def)

lemma held_iff: "i \<in> held h \<longleftrightarrow> deadline_of h i \<noteq> None"
  unfolding deadline_of_def by (metis map_of_eq_None_iff)

lemma held_hold [simp]: "held (hold mt is m h) = set is \<union> held h"
  unfolding set_eq_iff Un_iff held_iff by (simp add: deadline_of_hold)

lemma held_release [simp]: "held (hb_release is h) = held h - set is"
  unfolding set_eq_iff Diff_iff held_iff by (simp add: deadline_of_release)

lemma live_iff:
  assumes "hb_ok h"
  shows "i \<in> set (live mt h) \<longleftrightarrow>
    deadline_of h i = Some None \<or> (\<exists>t. deadline_of h i = Some (Some t) \<and> mt < t)"
proof -
  have "i \<in> set (live mt h) \<longleftrightarrow>
      (\<exists>v. (i, v) \<in> set (deadlines h) \<and> (case v of None \<Rightarrow> True | Some t \<Rightarrow> mt < t))"
    by (force simp: live_def image_iff)
  also have "\<dots> \<longleftrightarrow> (\<exists>v. deadline_of h i = Some v \<and> (case v of None \<Rightarrow> True | Some t \<Rightarrow> mt < t))"
    using assms by (simp add: deadline_of_def hb_ok_def)
  finally show ?thesis by (auto split: option.splits)
qed

lemma get_job_extend_leases:
  "get_job i (extend_leases e is w l d) =
     map_option (\<lambda>j. if i \<in> set is \<and> owned w j then lease_row (now e + seconds l) j else j) (get_job i d)"
proof (cases "is = []")
  case False
  then show ?thesis
    by (cases "get_job i d") (auto simp: extend_leases_def lease.get_job_write dest: get_job_SomeD)
qed (simp add: extend_leases_def option.map_ident)

text \<open>
  A beat extends exactly the leases of the jobs the worker still owns, is holding and has not
  been running for longer than their execution ceiling, to now plus the lease. A hung job,
  one it has let go of, another worker's job and a finished one are left as they are; a beat
  that fails changes nothing and closes the connection.
\<close>

lemma beat_spec:
  assumes "hb_ok h"
  shows "get_job i (fst (beat e mt fails h d)) =
      map_option (\<lambda>j. if fails = None \<and> owned (hb_worker_id h) j \<and>
          (case deadline_of h i of
             None \<Rightarrow> False | Some None \<Rightarrow> True | Some (Some t) \<Rightarrow> mt < t)
        then j\<lparr>locked_until := Some (now e + seconds (hb_lease_seconds h))\<rparr> else j) (get_job i d) \<and>
    (snd (beat e mt fails h d) \<longleftrightarrow>
       (if live mt h = [] then close_when_idle h else fails \<noteq> None))"
proof -
  have "live mt h = [] \<Longrightarrow> i \<notin> set (live mt h)" by simp
  then show ?thesis
    using live_iff [OF assms, of i mt]
    by (cases "get_job i d"; cases "deadline_of h i"; cases "fails"; cases "the (deadline_of h i)")
      (auto simp: beat_def Let_def get_job_extend_leases lease_row_def)
qed

lemma beat_spec_witness:
  "get_job 1 (fst (beat (stmt_at 3) 0 None (hold 0 [1] None (new_heartbeat ''w'' 30 10 False)) db1)) =
     Some (job1\<lparr>locked_until := Some 30000003\<rparr>)"
  using beat_spec [of "hold 0 [1] None (new_heartbeat ''w'' 30 10 False)" 1 "stmt_at 3" 0 None db1]
  by (simp add: deadline_of_hold seconds_def) (simp add: new_heartbeat_def)

subsection \<open>Beats and reapers\<close>

text \<open>
  A job that is being held, between the beats of its worker, each of which may fail, and the
  reapers of any worker.
\<close>

datatype event = Beat stmt real bool | Reap stmt stmt int

primrec event_time :: "event \<Rightarrow> micros" where
  "event_time (Beat e mt ok) = now e"
| "event_time (Reap e1 e2 n) = now e2"

primrec event_ok :: "event \<Rightarrow> bool" where
  "event_ok (Beat e mt ok) \<longleftrightarrow> True"
| "event_ok (Reap e1 e2 n) \<longleftrightarrow> scan_ok e1 \<and> scan_ok e2 \<and> now e1 \<le> now e2 \<and> 0 \<le> n"

primrec do_event :: "heartbeat \<Rightarrow> event \<Rightarrow> db \<Rightarrow> db" where
  "do_event h (Beat e mt ok) d = fst (beat e mt (if ok then None else Some (OperationalError [])) h d)"
| "do_event h (Reap e1 e2 n) d =
     (case reap_expired_jobs e1 e2 n d of Inl x \<Rightarrow> d | Inr (m, d') \<Rightarrow> d')"

text \<open>
  The clock does not run backwards, the job's lease is never left unextended for longer than
  it lasts, and no beat finds the job past its execution ceiling. \<open>u\<close> is when the lease as it
  stands lapses.
\<close>

fun beats_in_time :: "heartbeat \<Rightarrow> int \<Rightarrow> micros \<Rightarrow> micros \<Rightarrow> event list \<Rightarrow> bool" where
  "beats_in_time h i t u [] \<longleftrightarrow> True"
| "beats_in_time h i t u (ev # evs) \<longleftrightarrow>
     event_ok ev \<and> t \<le> event_time ev \<and> event_time ev \<le> u \<and>
     (case ev of
        Beat e mt ok \<Rightarrow>
          (case deadline_of h i of Some (Some x) \<Rightarrow> mt < x | _ \<Rightarrow> True) \<and>
          beats_in_time h i (now e) (if ok then now e + seconds (hb_lease_seconds h) else u) evs
      | Reap e1 e2 n \<Rightarrow> beats_in_time h i (now e2) u evs)"

lemma jobs_ok_do_event: "event_ok ev \<Longrightarrow> jobs_ok d \<Longrightarrow> jobs_ok (do_event h ev d)"
proof (cases ev)
  case (Beat e mt ok)
  then show "jobs_ok d \<Longrightarrow> jobs_ok (do_event h ev d)"
    by (auto simp: beat_def Let_def extend_leases_ok)
next
  case (Reap e1 e2 n)
  assume ok: "event_ok ev" "jobs_ok d"
  with Reap show "jobs_ok (do_event h ev d)"
    by (cases "reap_expired_jobs e1 e2 n d")
      (auto dest: reap_expired_jobs_run jobs_run_ok)
qed

lemma reap_keeps_live:
  assumes "reap_expired_jobs e1 e2 n d = Inr (m, d')" "jobs_ok d" "scan_ok e1" "scan_ok e2"
    "get_job i d = Some j" "\<not> expired (now e1) j" "\<not> expired (now e2) j"
  shows "get_job i d' = Some j"
proof -
  obtain m1 d1 m2 d2 where r: "reap_dead e1 n d = Inr (m1, d1)" "reap_recover e2 n d1 = Inr (m2, d2)"
    "d' = conn_commit d2" "jobs_ok d1"
    by (rule reap_expiredE [OF assms(1-3)])
  obtain js where "set js \<subseteq> {j \<in> set (jobs d). (expired (now e1) j \<and> poisoned j) \<and> jid j \<notin> set (locked e1)}"
    and g1: "\<And>i. get_job i d1 = map_option (\<lambda>j. if j \<in> set js then reap_dead_row (now e1) j else j) (get_job i d)"
    by (rule get_job_sweep [OF r(1) [unfolded reap_dead_def] assms(2,3) reap_rows_id(1)]) blast
  obtain ks where "set ks \<subseteq> {j \<in> set (jobs d1). expired (now e2) j \<and> jid j \<notin> set (locked e2)}"
    and g2: "\<And>i. get_job i d2 = map_option (\<lambda>j. if j \<in> set ks then reap_recover_row j else j) (get_job i d1)"
    by (rule get_job_sweep [OF r(2) [unfolded reap_recover_def] r(4) assms(4) reap_rows_id(2)]) blast
  with g1 assms(5-7) \<open>set js \<subseteq> _\<close> show ?thesis by (auto simp: r(3))
qed

lemma get_job_beat:
  assumes "hb_ok h" "get_job i d = Some j" "owned (hb_worker_id h) j"
    "case deadline_of h i of None \<Rightarrow> False | Some None \<Rightarrow> True | Some (Some x) \<Rightarrow> mt < x"
  shows "get_job i (fst (beat e mt None h d)) =
    Some (j\<lparr>locked_until := Some (now e + seconds (hb_lease_seconds h))\<rparr>)"
proof -
  have "i \<in> set (live mt h)"
    using assms(4) live_iff [OF assms(1), of i mt] by (auto split: option.splits)
  moreover from this have "live mt h \<noteq> []" by auto
  ultimately show ?thesis
    using assms(2,3) by (simp add: beat_def Let_def get_job_extend_leases lease_row_def)
qed

lemma fst_beat_fails [simp]: "fst (beat e mt (Some x) h d) = d"
  by (simp add: beat_def Let_def)

lemma lease_kept_from:
  assumes "hb_ok h" and "deadline_of h i \<noteq> None"
  shows "jobs_ok d \<Longrightarrow> get_job i d = Some (j\<lparr>locked_until := Some u\<rparr>) \<Longrightarrow> owned (hb_worker_id h) j \<Longrightarrow>
    beats_in_time h i t u evs \<Longrightarrow>
    \<exists>u'. get_job i (fold (do_event h) evs d) = Some (j\<lparr>locked_until := Some u'\<rparr>)"
proof (induction evs arbitrary: d t u)
  case (Cons ev evs)
  have ok: "jobs_ok (do_event h ev d)"
    using Cons.prems(1,4) jobs_ok_do_event by simp
  show ?case
  proof (cases ev)
    case (Beat e mt k)
    have "get_job i (do_event h ev d) = Some (j\<lparr>locked_until :=
        Some (if k then now e + seconds (hb_lease_seconds h) else u)\<rparr>)"
      using Cons.prems get_job_beat [OF assms(1) Cons.prems(2), of mt e] assms(2)
      by (auto simp: Beat owned_def split: option.splits)
    from Cons.IH [OF ok this Cons.prems(3), of "now e"] Cons.prems(4) show ?thesis
      by (simp add: Beat split del: if_split)
  next
    case (Reap e1 e2 n)
    have "get_job i (do_event h ev d) = get_job i d"
    proof (cases "reap_expired_jobs e1 e2 n d")
      case (Inr p)
      obtain m d' where p: "p = (m, d')" by (cases p)
      have "get_job i d' = Some (j\<lparr>locked_until := Some u\<rparr>)"
        by (rule reap_keeps_live [OF Inr [unfolded p] Cons.prems(1)])
          (use Cons.prems in \<open>auto simp: Reap expired_def\<close>)
      with Inr p Cons.prems(2) show ?thesis by (simp add: Reap)
    qed (simp add: Reap)
    with Cons.prems(2) have "get_job i (do_event h ev d) = Some (j\<lparr>locked_until := Some u\<rparr>)" by simp
    from Cons.IH [OF ok this Cons.prems(3), of "now e2"] Cons.prems(4) show ?thesis by (simp add: Reap)
  qed
qed auto

text \<open>
  C18: a job whose worker is alive is never taken from it. As long as a beat gets through before
  the lease runs out, in whatever order beats, failed beats and any worker's reaps come, and
  the job is within its execution ceiling, its row stays as it was, owned and running, but
  for a later end of the lease.
\<close>

theorem lease_kept:
  assumes "jobs_ok d" and "hb_ok h" and "deadline_of h i \<noteq> None" and "get_job i d = Some j"
    and "owned (hb_worker_id h) j" and "locked_until j = Some u" and "beats_in_time h i t u evs"
  shows "\<exists>u'. get_job i (fold (do_event h) evs d) = Some (j\<lparr>locked_until := Some u'\<rparr>)"
proof -
  have "j = j\<lparr>locked_until := Some u\<rparr>" using assms(6) by simp
  with assms lease_kept_from [OF assms(2,3,1)] show ?thesis by metis
qed

lemma lease_kept_witness:
  "\<exists>u'. get_job 1 (fold (do_event (hold 0 [1] (Some 60) (new_heartbeat ''w'' 30 10 False)))
     [Beat (stmt_at 2) 0 False, Reap (stmt_at 3) (stmt_at 4) 100, Beat (stmt_at 5) 10 True,
      Reap (stmt_at 9) (stmt_at 9) 100] db1) = Some (job1\<lparr>locked_until := Some u'\<rparr>)"
  by (rule lease_kept [OF jobs_ok_db1, where t = 1 and u = 5])
    (simp_all add: deadline_of_def hb_ok_def seconds_def new_heartbeat_def hold_def job1_defs
      get_job_def owned_def)



end
