(* ===== verification/Registry.thy ===== *)
theory Registry
  imports Schema
begin

section \<open>The task registry\<close>

text \<open>
  \<^verbatim>\<open>src/durable_queue/registry.py\<close>: the module's \<^verbatim>\<open>_registry\<close> dict as a map, the
  \<^verbatim>\<open>task\<close> decorator in both its forms, and the two lookups. A Python callable is its
  name, the parameters of its signature, and what calling it does, a parameter of the model.
\<close>

subsection \<open>Python's repr of a string\<close>

text \<open>
  \<^verbatim>\<open>repr(s)\<close> quotes with apostrophes, or with double quotes if that saves escaping, and
  escapes what is not printable.
\<close>

definition hex_digit :: "nat \<Rightarrow> char" where
  "hex_digit n = (if n < 10 then char_of (48 + n) else char_of (87 + n))"

definition repr_char :: "char \<Rightarrow> char \<Rightarrow> string" where
  "repr_char q c =
     (let n = of_char c :: nat
      in if c = q \<or> n = 92 then [char_of (92::nat), c]
         else if n = 10 then [char_of (92::nat), CHR ''n'']
         else if n = 13 then [char_of (92::nat), CHR ''r'']
         else if n = 9 then [char_of (92::nat), CHR ''t'']
         else if n < 32 \<or> (127 \<le> n \<and> n \<le> 160) \<or> n = 173
           then [char_of (92::nat), CHR ''x'', hex_digit (n div 16), hex_digit (n mod 16)]
         else [c])"

definition py_repr :: "string \<Rightarrow> string" where
  "py_repr s =
     (let q = (if CHR 0x27 \<in> set s \<and> CHR 0x22 \<notin> set s then CHR 0x22 else CHR 0x27)
      in q # concat (map (repr_char q) s) @ [q])"

subsection \<open>Registering and looking up\<close>

record 'c callable =
  fname :: string
  params :: "string list"
  call :: 'c

record 'c registered_task =
  fn :: "'c callable"
  wants_connection :: bool
  rt_max_attempts :: "int option"
  rt_max_execution_seconds :: "real option"

type_synonym 'c registry = "string \<Rightarrow> 'c registered_task option"

type_synonym 'c register =
  "'c callable \<Rightarrow> 'c registry \<Rightarrow> ('c callable \<times> 'c registry) result"

definition register :: "int option \<Rightarrow> real option \<Rightarrow> 'c register" where
  "register max_att max_exec f reg =
     (if reg (fname f) \<noteq> None
      then Inl (ValueError (''task '' @ py_repr (fname f) @ '' already registered''))
      else
        let wants = ''conn'' \<in> set (params f)
        in Inr (f, reg(fname f \<mapsto>
             \<lparr> fn = f, wants_connection = wants, rt_max_attempts = max_att,
               rt_max_execution_seconds = max_exec \<rparr>)))"

text \<open>
  \<^verbatim>\<open>@task(..)\<close> returns the inner function, still to be applied; \<^verbatim>\<open>@task\<close> applies
  it at once.
\<close>

definition task_decorator :: "'c callable option \<Rightarrow> int option \<Rightarrow> real option \<Rightarrow> 'c registry
    \<Rightarrow> 'c register + ('c callable \<times> 'c registry) result" where
  "task_decorator f max_att max_exec reg =
     (case f of
        None \<Rightarrow> Inl (register max_att max_exec)
      | Some f \<Rightarrow> Inr (register max_att max_exec f reg))"

definition get_registered_task :: "string \<Rightarrow> 'c registry \<Rightarrow> 'c registered_task result" where
  "get_registered_task name reg =
     (case reg name of
        Some r \<Rightarrow> Inr r
      | None \<Rightarrow> Inl (KeyError (''no task registered as '' @ py_repr name)))"

definition get_task :: "string \<Rightarrow> 'c registry \<Rightarrow> 'c callable result" where
  "get_task name reg = bind_result (get_registered_task name reg) (\<lambda>r. Inr (fn r))"

lemma get_registered_task_Inr [simp]: "get_registered_task n reg = Inr r \<longleftrightarrow> reg n = Some r"
  by (simp add: get_registered_task_def split: option.split)

subsection \<open>Importing task modules\<close>

text \<open>
  The decorators run as modules are imported, one after the other, in either form; one that
  raises leaves the registry as it is.
\<close>

definition decorate :: "bool \<Rightarrow> int option \<Rightarrow> real option \<Rightarrow> 'c callable \<Rightarrow> 'c registry \<Rightarrow> 'c registry" where
  "decorate bare max_att max_exec f reg =
     (let applied = (if bare
        then (case task_decorator (Some f) None None reg of
                Inr r \<Rightarrow> r | Inl g \<Rightarrow> g f reg)
        else (case task_decorator None max_att max_exec reg of
                Inr r \<Rightarrow> r | Inl g \<Rightarrow> g f reg))
      in case applied of Inl _ \<Rightarrow> reg | Inr (_, reg') \<Rightarrow> reg')"

primrec import_tasks :: "(bool \<times> int option \<times> real option \<times> 'c callable) list \<Rightarrow> 'c registry
    \<Rightarrow> 'c registry" where
  "import_tasks [] reg = reg"
| "import_tasks (x # xs) reg =
     (case x of (bare, ma, me, f) \<Rightarrow> import_tasks xs (decorate bare ma me f reg))"

lemma decorate_eq:
  "decorate bare ma me f reg =
     (if reg (fname f) \<noteq> None then reg
      else reg(fname f \<mapsto>
        \<lparr> fn = f, wants_connection = ''conn'' \<in> set (params f),
          rt_max_attempts = (if bare then None else ma),
          rt_max_execution_seconds = (if bare then None else me) \<rparr>))"
  by (simp add: decorate_def task_decorator_def register_def)

text \<open>The decorator call that named a task first.\<close>

definition first_call :: "string \<Rightarrow> (bool \<times> int option \<times> real option \<times> 'c callable) list
    \<Rightarrow> (bool \<times> int option \<times> real option \<times> 'c callable) option" where
  "first_call n xs = find (\<lambda>(_, _, _, f). fname f = n) xs"

lemma import_tasks_keeps: "reg n = Some r \<Longrightarrow> import_tasks xs reg n = Some r"
proof (induction xs arbitrary: reg)
  case (Cons x xs)
  obtain bare ma me f where x: "x = (bare, ma, me, f)" by (cases x)
  have "decorate bare ma me f reg n = Some r"
    using Cons.prems by (auto simp: decorate_eq)
  with Cons.IH show ?case by (simp add: x)
qed simp

text \<open>
  Whatever tasks are imported, in whatever order, a name resolves to the first callable
  registered under it, with the options of that decorator and with a connection exactly if
  its signature has a \<open>conn\<close> parameter; later registrations of the name never replace it, and
  a name no import registers raises \<open>KeyError\<close> from both lookups.
\<close>

lemma registry_first_wins:
  "case first_call n xs of
     None \<Rightarrow>
       get_registered_task n (import_tasks xs Map.empty) =
         Inl (KeyError (''no task registered as '' @ py_repr n)) \<and>
       get_task n (import_tasks xs Map.empty) = Inl (KeyError (''no task registered as '' @ py_repr n))
   | Some (bare, ma, me, f) \<Rightarrow>
       get_task n (import_tasks xs Map.empty) = Inr f \<and> fname f = n \<and>
       get_registered_task n (import_tasks (xs @ ys) Map.empty) =
         Inr \<lparr> fn = f, wants_connection = ''conn'' \<in> set (params f),
               rt_max_attempts = (if bare then None else ma),
               rt_max_execution_seconds = (if bare then None else me) \<rparr>"
proof -
  have import: "import_tasks xs reg n = (case first_call n xs of
        None \<Rightarrow> None
      | Some (bare, ma, me, f) \<Rightarrow>
          Some \<lparr> fn = f, wants_connection = ''conn'' \<in> set (params f),
                 rt_max_attempts = (if bare then None else ma),
                 rt_max_execution_seconds = (if bare then None else me) \<rparr>)"
    if "reg n = None" for reg
    using that
  proof (induction xs arbitrary: reg)
    case (Cons x xs)
    obtain bare ma me f where x: "x = (bare, ma, me, f)" by (cases x)
    show ?case
    proof (cases "fname f = n")
      case True
      with Cons.prems show ?thesis
        by (simp add: x first_call_def decorate_eq import_tasks_keeps)
    next
      case False
      then have "decorate bare ma me f reg n = None"
        using Cons.prems by (simp add: decorate_eq)
      with Cons.IH False show ?thesis by (simp add: x first_call_def)
    qed
  qed (simp add: first_call_def)
  have app: "import_tasks (xs @ ys) reg = import_tasks ys (import_tasks xs reg)" for reg
    by (induction xs arbitrary: reg) auto
  show ?thesis
  proof (cases "first_call n xs")
    case None
    with import [of Map.empty] show ?thesis
      by (simp add: get_task_def get_registered_task_def)
  next
    case (Some c)
    then obtain bare ma me f where c: "c = (bare, ma, me, f)" by (cases c)
    from Some have "fname f = n" unfolding first_call_def c by (auto simp: find_Some_iff)
    with Some import [of Map.empty] show ?thesis
      by (simp add: c get_task_def get_registered_task_def app import_tasks_keeps)
  qed
qed

end
