(* ===== verification/Wakeup.thy ===== *)
theory Wakeup
  imports Prelude
begin

section \<open>Waking idle loops\<close>

text \<open>
  \<^verbatim>\<open>src/durable_queue/wakeup.py\<close>: the generation counter behind
  \<^verbatim>\<open>current\<close>, \<^verbatim>\<open>wake\<close> and \<^verbatim>\<open>wait\<close>, and the protocol that the idle loops of
  \<^verbatim>\<open>run_worker\<close> and \<^verbatim>\<open>run_scheduler\<close> follow with it: read the generation, look
  for work, wait on what was read.
\<close>

definition CLOSE_CONNECTIONS_AFTER :: real where
  "CLOSE_CONNECTIONS_AFTER = 60"

definition MIN_SLEEP :: real where
  "MIN_SLEEP = 1 / 10"

record wakeup =
  generation :: int

definition initial_wakeup :: wakeup where
  "initial_wakeup = \<lparr> generation = 0 \<rparr>"

definition current :: "wakeup \<Rightarrow> int" where
  "current g = generation g"

definition wake :: "wakeup \<Rightarrow> wakeup" where
  "wake g = g\<lparr>generation := generation g + 1\<rparr>"

text \<open>
  Whether a call of \<^verbatim>\<open>wait(seen, timeout)\<close> that has slept for \<open>slept\<close> seconds returns
  now: \<^verbatim>\<open>wait_for\<close> tests the predicate when it is called and at each notification.
\<close>

definition wait_returns :: "int \<Rightarrow> real option \<Rightarrow> real \<Rightarrow> wakeup \<Rightarrow> bool" where
  "wait_returns seen timeout slept g \<longleftrightarrow>
     generation g \<noteq> seen \<or> (case timeout of None \<Rightarrow> False | Some t \<Rightarrow> t \<le> slept)"

definition pause_returns :: "real \<Rightarrow> bool option \<Rightarrow> real \<Rightarrow> bool" where
  "pause_returns delay stop slept \<longleftrightarrow> stop = Some True \<or> delay \<le> slept"

text \<open>How long an idle loop sleeps, and whether it lets go of its connections first.\<close>

definition idle_timeout :: "real option \<Rightarrow> real option" where
  "idle_timeout secs = map_option (\<lambda>s. max s MIN_SLEEP) secs"

definition long_sleep :: "real option \<Rightarrow> bool" where
  "long_sleep timeout \<longleftrightarrow> (case timeout of None \<Rightarrow> True | Some t \<Rightarrow> CLOSE_CONNECTIONS_AFTER < t)"

subsection \<open>The interface\<close>

text \<open>What the idle loops rely on: a wake is a change they can see, for ever after.\<close>

locale wake_channel =
  fixes cur :: "'g \<Rightarrow> int" and wk :: "'g \<Rightarrow> 'g"
  assumes wake_later: "cur g < cur (wk g)"
begin

lemma wakes_later: "0 < n \<Longrightarrow> cur g < cur ((wk ^^ n) g)"
proof (induction n)
  case (Suc n)
  have "cur g \<le> cur ((wk ^^ n) g)"
    using Suc.IH by (cases n) auto
  also have "\<dots> < cur ((wk ^^ Suc n) g)" using wake_later by simp
  finally show ?case .
qed simp

lemma seen_stays_seen: "seen < cur g \<Longrightarrow> seen < cur ((wk ^^ n) g)"
  using wakes_later [of n g] by (cases n) auto

end

interpretation wakes: wake_channel current wake
  by unfold_locales (simp add: current_def wake_def)

subsection \<open>The idle loop\<close>

text \<open>
  Where the loop is: at its top, having read the generation, having looked and found nothing,
  or asleep in \<^verbatim>\<open>wait\<close>.
\<close>

datatype idle_pc = Top | Seen int | Idle int | Asleep int

text \<open>
  \<open>work\<close>: something a look would find. \<open>owed\<close>: threads of this process that have committed
  work and not called \<^verbatim>\<open>wake\<close> yet.
\<close>

record idle_state =
  chan :: wakeup
  pc :: idle_pc
  work :: bool
  owed :: nat

inductive idle_step :: "idle_state \<Rightarrow> idle_state \<Rightarrow> bool" where
  read: "pc s = Top \<Longrightarrow> idle_step s (s\<lparr>pc := Seen (current (chan s))\<rparr>)"
| look_found: "pc s = Seen g \<Longrightarrow> work s \<Longrightarrow> idle_step s (s\<lparr>pc := Top, work := False\<rparr>)"
| look_none: "pc s = Seen g \<Longrightarrow> \<not> work s \<Longrightarrow> idle_step s (s\<lparr>pc := Idle g\<rparr>)"
| sleep: "pc s = Idle g \<Longrightarrow> \<not> wait_returns g timeout 0 (chan s) \<Longrightarrow>
    idle_step s (s\<lparr>pc := Asleep g\<rparr>)"
| no_sleep: "pc s = Idle g \<Longrightarrow> wait_returns g timeout 0 (chan s) \<Longrightarrow> idle_step s (s\<lparr>pc := Top\<rparr>)"
| awake: "pc s = Asleep g \<Longrightarrow> wait_returns g timeout slept (chan s) \<Longrightarrow> idle_step s (s\<lparr>pc := Top\<rparr>)"
| create: "idle_step s (s\<lparr>work := True, owed := owed s + 1\<rparr>)"
| announce: "owed s = Suc n \<Longrightarrow> idle_step s (s\<lparr>chan := wake (chan s), owed := n\<rparr>)"

definition idle_start :: "idle_state \<Rightarrow> bool" where
  "idle_start s \<longleftrightarrow> pc s = Top \<and> \<not> work s \<and> owed s = 0"

fun pc_seen :: "idle_pc \<Rightarrow> int option" where
  "pc_seen Top = None"
| "pc_seen (Seen g) = Some g"
| "pc_seen (Idle g) = Some g"
| "pc_seen (Asleep g) = Some g"

definition idle_inv :: "idle_state \<Rightarrow> bool" where
  "idle_inv s \<longleftrightarrow>
     (\<forall>g. pc_seen (pc s) = Some g \<longrightarrow> g \<le> current (chan s)) \<and>
     (\<forall>g. (pc s = Idle g \<or> pc s = Asleep g) \<longrightarrow> work s \<longrightarrow> owed s = 0 \<longrightarrow> g < current (chan s))"

lemma current_wake [simp]: "current (wake g) = current g + 1"
  by (simp add: current_def wake_def)

lemma idle_inv_step: "idle_step s s' \<Longrightarrow> idle_inv s \<Longrightarrow> idle_inv s'"
  by (induction rule: idle_step.induct) (auto simp: idle_inv_def)

lemma idle_inv_reachable:
  assumes "idle_start s0" "idle_step\<^sup>*\<^sup>* s0 s"
  shows "idle_inv s"
  using assms(2)
proof (induction rule: rtranclp_induct)
  case base
  from assms(1) show ?case by (simp add: idle_inv_def idle_start_def)
qed (rule idle_inv_step)

text \<open>
  C20: no wake-up is lost. Whenever an idle loop is asleep, or about to be, while there is work
  it has not looked at, either the wait returns at once or a thread that created work is
  still about to call \<open>wake\<close>, and that call makes the wait return, whichever other wakes come
  before or after it. It needs the generation to be read before looking.
\<close>

theorem no_lost_wakeup:
  assumes "idle_start s0" and "idle_step\<^sup>*\<^sup>* s0 s" and "pc s = Idle g \<or> pc s = Asleep g" and "work s"
  shows "if owed s = 0 then wait_returns g timeout slept (chan s)
    else wait_returns g timeout slept ((wake ^^ Suc n) (chan s))"
proof -
  have inv: "idle_inv s" using assms(1,2) by (rule idle_inv_reachable)
  have "current (chan s) < current ((wake ^^ Suc n) (chan s))"
    by (rule wakes.wakes_later) simp
  with inv assms(3,4) have "g < current ((wake ^^ Suc n) (chan s))"
    and "owed s = 0 \<Longrightarrow> g < current (chan s)"
    by (force simp: idle_inv_def)+
  then show ?thesis unfolding wait_returns_def current_def by auto
qed

lemma no_lost_wakeup_witness:
  "wait_returns 0 None 5 (wake initial_wakeup)"
proof -
  let ?s = "\<lparr> chan = initial_wakeup, pc = Top, work = False, owed = 0 \<rparr> :: idle_state"
  have "idle_step ?s (?s\<lparr>pc := Seen (current initial_wakeup)\<rparr>)"
    using idle_step.read [of ?s] by simp
  moreover have "idle_step (?s\<lparr>pc := Seen (current initial_wakeup)\<rparr>)
      (?s\<lparr>pc := Idle (current initial_wakeup)\<rparr>)"
    using idle_step.look_none [of "?s\<lparr>pc := Seen (current initial_wakeup)\<rparr>" "current initial_wakeup"]
    by simp
  moreover have "idle_step (?s\<lparr>pc := Idle (current initial_wakeup)\<rparr>)
      (?s\<lparr>pc := Idle (current initial_wakeup), work := True, owed := 1\<rparr>)"
    using idle_step.create [of "?s\<lparr>pc := Idle (current initial_wakeup)\<rparr>"] by simp
  ultimately have "idle_step\<^sup>*\<^sup>* ?s (?s\<lparr>pc := Idle (current initial_wakeup), work := True, owed := 1\<rparr>)"
    by (meson converse_rtranclp_into_rtranclp r_into_rtranclp)
  from no_lost_wakeup [OF _ this, of "current initial_wakeup" None 5 0] show ?thesis
    by (simp add: idle_start_def current_def initial_wakeup_def)
qed

end
