(* ===== verification/Worker.thy ===== *)
theory Worker
  imports Heartbeat Registry Wakeup
begin

section \<open>Running one job\<close>

text \<open>
  \<^verbatim>\<open>run_job\<close> and \<^verbatim>\<open>process_one\<close> of \<^verbatim>\<open>src/durable_queue/worker.py\<close>. What a task's
  code does is a parameter: called with its arguments, on a database, in a world, it raises or
  returns, and leaves a database and a world. For a task that takes \<^verbatim>\<open>conn\<close> the database is
  its transaction's view. Everything else that can happen around a run is in \<open>run_env\<close>:
  connections that break, and what other sessions commit meanwhile.
\<close>

type_synonym code = "args \<Rightarrow> db \<Rightarrow> string list \<Rightarrow> exn option \<times> db \<times> string list"

text \<open>
  \<open>re_begin\<close>: borrowing a connection and opening the transaction fails. \<open>re_finish\<close>: the
  completion write or its commit fails, although it may have landed. \<open>re_record\<close>: the failure
  cannot be recorded. \<open>re_during\<close> and \<open>re_after\<close>: what others commit before the task's
  code has run, and before its failure is recorded.
\<close>

record run_env =
  re_begin :: "exn option"
  re_during :: "db \<Rightarrow> db"
  re_done :: stmt
  re_finish :: "(bool \<times> exn) option"
  re_after :: "db \<Rightarrow> db"
  re_fail :: stmt
  re_unif :: real
  re_record :: "exn option"

record proc =
  pdb :: db
  world :: "string list"
  wakes :: wakeup

definition DEFAULT_MAX_EXECUTION_SECONDS :: real where
  "DEFAULT_MAX_EXECUTION_SECONDS = 300"

text \<open>\<^verbatim>\<open>isinstance(exc, Exception)\<close>\<close>

definition is_exception :: "exn \<Rightarrow> bool" where
  "is_exception x \<longleftrightarrow> x \<noteq> SystemExit"

definition is_permanent :: "exn \<Rightarrow> bool" where
  "is_permanent x \<longleftrightarrow> (case x of PermanentError _ \<Rightarrow> True | _ \<Rightarrow> False)"

text \<open>
  A task that takes the connection: its writes and the completion in one transaction, on the
  view that the writes of others committed so far give.
\<close>

definition run_in_transaction :: "run_env \<Rightarrow> code \<Rightarrow> args \<Rightarrow> int \<Rightarrow> string \<Rightarrow> db \<Rightarrow> string list
    \<Rightarrow> exn option \<times> db \<times> string list" where
  "run_in_transaction E f a job_id worker_id d ws =
     (case re_begin E of
        Some x \<Rightarrow> (Some x, d, ws)
      | None \<Rightarrow>
          let d1 = re_during E d
          in case f a d1 ws of
               (Some x, dv, ws') \<Rightarrow> (Some x, rollback_tx d1 dv, ws')
             | (None, dv, ws') \<Rightarrow>
                 (case mark_succeeded_in_transaction (re_done E) job_id worker_id dv of
                    (False, dv') \<Rightarrow> (Some LeaseLost, rollback_tx d1 dv', ws')
                  | (True, dv') \<Rightarrow>
                      (case re_finish E of
                         None \<Rightarrow> (None, conn_commit dv', ws')
                       | Some (landed, x) \<Rightarrow>
                           (Some x, if landed then conn_commit dv' else rollback_tx d1 dv', ws'))))"

text \<open>Any other task: it runs with no connection borrowed, and the completion follows it.\<close>

definition run_plain :: "run_env \<Rightarrow> code \<Rightarrow> args \<Rightarrow> int \<Rightarrow> string \<Rightarrow> db \<Rightarrow> string list
    \<Rightarrow> exn option \<times> db \<times> string list" where
  "run_plain E f a job_id worker_id d ws =
     (case f a (re_during E d) ws of
        (Some x, d1, ws') \<Rightarrow> (Some x, d1, ws')
      | (None, d1, ws') \<Rightarrow>
          let done = snd (mark_succeeded (re_done E) job_id worker_id d1)
          in case re_finish E of
               None \<Rightarrow> (None, done, ws')
             | Some (landed, x) \<Rightarrow> (Some x, if landed then done else d1, ws'))"

text \<open>The body of the \<^verbatim>\<open>try\<close>: what it raises, the registered task if it was found.\<close>

definition attempt :: "code registry \<Rightarrow> run_env \<Rightarrow> real \<Rightarrow> claimed \<Rightarrow> string \<Rightarrow> real \<Rightarrow> heartbeat \<Rightarrow> proc
    \<Rightarrow> exn option \<times> code registered_task option \<times> heartbeat \<times> proc" where
  "attempt reg E mt job worker_id max_execution_seconds h p =
     (case job of (job_id, tsk, a) \<Rightarrow>
        case get_registered_task tsk reg of
          Inl x \<Rightarrow> (Some x, None, h, p)
        | Inr r \<Rightarrow>
            let m = (case rt_max_execution_seconds r of
                       None \<Rightarrow> max_execution_seconds | Some s \<Rightarrow> s);
                run = (if wants_connection r then run_in_transaction else run_plain)
            in case run E (call (fn r)) a job_id worker_id (pdb p) (world p) of
                 (x, d', ws') \<Rightarrow> (x, Some r, hold mt [job_id] (Some m) h, p\<lparr>pdb := d', world := ws'\<rparr>))"

text \<open>The handlers. \<open>str_of\<close> is Python's \<^verbatim>\<open>str(exc)\<close>.\<close>

definition handle_exn :: "(exn \<Rightarrow> string) \<Rightarrow> run_env \<Rightarrow> int \<Rightarrow> string \<Rightarrow> code registered_task option
    \<Rightarrow> exn \<Rightarrow> proc \<Rightarrow> exn option \<times> proc" where
  "handle_exn str_of E job_id worker_id registered x p =
     (if x = LeaseLost then (None, p)
      else if \<not> is_exception x then (Some x, p)
      else
        let d1 = re_after E (pdb p)
        in case re_record E of
             Some y \<Rightarrow> (Some y, p\<lparr>pdb := d1\<rparr>)
           | None \<Rightarrow>
               (case mark_failed (re_fail E) (re_unif E) job_id worker_id (str_of x) (is_permanent x)
                       (case registered of None \<Rightarrow> None | Some r \<Rightarrow> rt_max_attempts r) d1 of
                  Inl y \<Rightarrow> (Some y, p\<lparr>pdb := d1\<rparr>)
                | Inr (_, d2) \<Rightarrow> (None, p\<lparr>pdb := d2, wakes := wake (wakes p)\<rparr>)))"

text \<open>
  The whole of \<^verbatim>\<open>run_job\<close>: what it raises, the heartbeat it was given (a temporary one is
  gone when it returns), and the state it leaves.
\<close>

definition run_job :: "(exn \<Rightarrow> string) \<Rightarrow> code registry \<Rightarrow> run_env \<Rightarrow> real \<Rightarrow> claimed \<Rightarrow> string \<Rightarrow> int
    \<Rightarrow> real \<Rightarrow> heartbeat option \<Rightarrow> proc \<Rightarrow> exn option \<times> heartbeat option \<times> proc" where
  "run_job str_of reg E mt job worker_id lease_seconds max_execution_seconds hb p =
     (let h = (case hb of
                 None \<Rightarrow> new_heartbeat worker_id lease_seconds (of_int lease_seconds / 3) False
               | Some h \<Rightarrow> h)
      in case attempt reg E mt job worker_id max_execution_seconds h p of
           (x, registered, h1, p1) \<Rightarrow>
             (case (case x of
                      None \<Rightarrow> (None, p1)
                    | Some x \<Rightarrow> handle_exn str_of E (fst job) worker_id registered x p1) of
                (y, p2) \<Rightarrow> (y, map_option (\<lambda>_. hb_release [fst job] h1) hb, p2)))"

definition process_one :: "(exn \<Rightarrow> string) \<Rightarrow> code registry \<Rightarrow> run_env \<Rightarrow> stmt \<Rightarrow> real \<Rightarrow> string \<Rightarrow> int
    \<Rightarrow> real \<Rightarrow> heartbeat option \<Rightarrow> proc \<Rightarrow> bool result \<times> heartbeat option \<times> proc" where
  "process_one str_of reg E e mt worker_id lease_seconds max_execution_seconds hb p =
     (case claim_next_job e worker_id lease_seconds (pdb p) of
        Inl x \<Rightarrow> (Inl x, hb, p)
      | Inr (None, d1) \<Rightarrow> (Inr False, hb, p\<lparr>pdb := d1\<rparr>)
      | Inr (Some job, d1) \<Rightarrow>
          (case run_job str_of reg E mt job worker_id lease_seconds max_execution_seconds hb
                  (p\<lparr>pdb := d1\<rparr>) of
             (None, hb', p') \<Rightarrow> (Inr True, hb', p')
           | (Some x, hb', p') \<Rightarrow> (Inl x, hb', p')))"

subsection \<open>Reasoning about a run\<close>

text \<open>
  What the library asks of a task's code: to leave the row of its own job to the library, and
  not to raise the library's private exception.
\<close>

definition code_ok :: "int \<Rightarrow> code \<Rightarrow> bool" where
  "code_ok i f \<longleftrightarrow>
     (\<forall>a d ws. fst (f a d ws) \<noteq> Some LeaseLost \<and>
        (jobs_ok d \<longrightarrow>
           jobs_ok (fst (snd (f a d ws))) \<and> jobs_id_seq d \<le> jobs_id_seq (fst (snd (f a d ws))) \<and>
           get_job i (fst (snd (f a d ws))) = get_job i d))"

definition tasks_ok :: "int \<Rightarrow> code registry \<Rightarrow> bool" where
  "tasks_ok i reg \<longleftrightarrow> (\<forall>n r. reg n = Some r \<longrightarrow> code_ok i (call (fn r)))"

text \<open>Other sessions keep the table well formed, and a connection does not raise it either.\<close>

definition env_ok :: "run_env \<Rightarrow> bool" where
  "env_ok E \<longleftrightarrow>
     (\<forall>d. jobs_ok d \<longrightarrow> jobs_ok (re_during E d) \<and> jobs_ok (re_after E d)) \<and>
     re_begin E \<noteq> Some LeaseLost \<and> (\<forall>landed. re_finish E \<noteq> Some (landed, LeaseLost))"

definition not_held :: "string \<Rightarrow> int \<Rightarrow> db \<Rightarrow> bool" where
  "not_held w i d \<longleftrightarrow> (\<forall>j. get_job i d = Some j \<longrightarrow> \<not> owned w j)"

lemma get_job_succeed:
  "get_job i' (snd (mark_succeeded_in_transaction e i w d)) =
     map_option (\<lambda>j. if jid j = i \<and> owned w j then succeed_row (now e) j else j) (get_job i' d)"
  by (simp add: mark_succeeded_in_transaction_def Let_def succ.get_job_write)

lemma succeed_row_not_owned [simp]: "\<not> owned w (succeed_row t j)"
  by (simp add: owned_def row_defs)

lemma fail_rows_not_owned [simp]:
  "\<not> owned w (fail_dead_row t err j)" "\<not> owned w (fail_retry_row t err j)"
  by (simp_all add: owned_def row_defs)

lemma not_held_succeed: "not_held w i (snd (mark_succeeded_in_transaction e i w d))"
proof (cases "get_job i d")
  case (Some j)
  then have "jid j = i" by (auto dest: get_job_SomeD)
  with Some show ?thesis by (simp add: not_held_def get_job_succeed)
qed (simp add: not_held_def get_job_succeed)

lemma not_held_conn_commit [simp]: "not_held w i (conn_commit d) = not_held w i d"
  by (simp add: not_held_def)

lemma not_held_mark_succeeded: "not_held w i (snd (mark_succeeded e i w d))"
  using not_held_succeed [of w i e d] by (simp add: mark_succeeded_def case_prod_beta)

lemma mark_lost:
  assumes "mark_succeeded_in_transaction e i w d = (False, d')"
  shows "d' = d \<and> not_held w i d"
proof -
  have none: "filter (\<lambda>j. jid j = i \<and> owned w j) (jobs d) = []"
    using assms by (simp add: mark_succeeded_in_transaction_def Let_def)
  then have "update_where (\<lambda>j. jid j = i \<and> owned w j) (succeed_row (now e)) (jobs d) = jobs d"
    by (intro update_where_none) (auto simp: filter_empty_conv)
  with assms none show ?thesis
    by (auto simp: mark_succeeded_in_transaction_def Let_def not_held_def filter_empty_conv dest: get_job_SomeD)
qed

lemma not_held_mark_failed:
  assumes "mark_failed e u i w err permanent limit d = Inr (b, d')" "jobs_ok d"
  shows "not_held w i d'"
  using assms
proof (cases rule: mark_failed_cases)
  case lost
  then show ?thesis by (auto simp: not_held_def)
next
  case (dead j)
  then have "jid j = i" by (auto dest: get_job_SomeD)
  with dead show ?thesis by (simp add: not_held_def faild.get_job_write)
next
  case (retry j delay)
  then have "jid j = i" by (auto dest: get_job_SomeD)
  with retry show ?thesis by (simp add: not_held_def failr.get_job_write)
qed

lemma jobs_ok_rollback: "jobs_ok d \<Longrightarrow> jobs_id_seq d \<le> jobs_id_seq dv \<Longrightarrow> jobs_ok (rollback_tx d dv)"
  by (rule jobs_ok_frame) simp_all

lemma get_job_rollback [simp]: "get_job i (rollback_tx d dv) = get_job i d"
  by (simp add: get_job_def)

lemma run_job_deadlines:
  assumes "run_job str_of reg E mt job w l m (Some h) p = (y, ho, p')"
  shows "\<exists>h'. ho = Some h' \<and> (\<forall>i. deadline_of h' i = (if i = fst job then None else deadline_of h i))"
proof -
  obtain x r h1 p1 where at: "attempt reg E mt job w m h p = (x, r, h1, p1)"
    by (metis prod_cases4)
  have "deadline_of (hb_release [fst job] h1) i = (if i = fst job then None else deadline_of h i)" for i
    using at
    by (auto simp: attempt_def Let_def deadline_of_release deadline_of_hold split: prod.splits sum.splits)
  with assms show ?thesis
    by (auto simp: run_job_def at split: prod.splits)
qed


lemma code_okD:
  assumes "code_ok i f" "f a d ws = (x, d', ws')"
  shows "x \<noteq> Some LeaseLost" "jobs_ok d \<Longrightarrow> jobs_ok d'" "jobs_ok d \<Longrightarrow> jobs_id_seq d \<le> jobs_id_seq d'"
    "jobs_ok d \<Longrightarrow> get_job i d' = get_job i d"
  using assms(1) [unfolded code_ok_def, rule_format, of a d ws] by (simp_all add: assms(2))

lemma mark_succeeded_in_transaction_seq:
  "mark_succeeded_in_transaction e i w d = (b, d') \<Longrightarrow> jobs_id_seq d' = jobs_id_seq d"
  by (auto simp: mark_succeeded_in_transaction_def Let_def)

text \<open>The ways a transactional run can end.\<close>

lemma run_in_transaction_cases:
  assumes "run_in_transaction E f a i w d ws = (x, d', ws')"
  obtains (no_begin) y where "re_begin E = Some y" "x = Some y" "d' = d" "ws' = ws"
  | (raised) y dv where "re_begin E = None" "f a (re_during E d) ws = (Some y, dv, ws')" "x = Some y"
      "d' = rollback_tx (re_during E d) dv"
  | (lost) dv where "re_begin E = None" "f a (re_during E d) ws = (None, dv, ws')" "x = Some LeaseLost"
      "not_held w i dv" "d' = rollback_tx (re_during E d) dv"
  | (aborted) y dv dv' where "re_begin E = None" "f a (re_during E d) ws = (None, dv, ws')"
      "mark_succeeded_in_transaction (re_done E) i w dv = (True, dv')" "re_finish E = Some (False, y)"
      "x = Some y" "d' = rollback_tx (re_during E d) dv'"
  | (committed) dv dv' where "re_begin E = None" "f a (re_during E d) ws = (None, dv, ws')"
      "mark_succeeded_in_transaction (re_done E) i w dv = (True, dv')" "d' = conn_commit dv'"
      "case re_finish E of None \<Rightarrow> x = None | Some (landed, y) \<Rightarrow> landed \<and> x = Some y"
proof (cases "re_begin E")
  case (Some y)
  with assms show ?thesis by (intro no_begin [OF Some]) (auto simp: run_in_transaction_def)
next
  case started: None
  obtain z dv ws1 where f: "f a (re_during E d) ws = (z, dv, ws1)" by (cases "f a (re_during E d) ws")
  show ?thesis
  proof (cases z)
    case (Some y)
    with started f assms show ?thesis by (intro raised) (auto simp: run_in_transaction_def Let_def)
  next
    case z: None
    obtain b dv' where m: "mark_succeeded_in_transaction (re_done E) i w dv = (b, dv')" by fastforce
    show ?thesis
    proof (cases b)
      case False
      with mark_lost [of "re_done E" i w dv dv'] m have "dv' = dv" "not_held w i dv" by simp_all
      with started f z m False assms show ?thesis
        by (intro lost) (auto simp: run_in_transaction_def Let_def)
    next
      case True
      show ?thesis
      proof (cases "re_finish E = None \<or> (\<exists>y. re_finish E = Some (True, y))")
        case True
        with started f z m \<open>b\<close> assms show ?thesis
          by (intro committed) (auto simp: run_in_transaction_def Let_def)
      next
        case False
        then obtain y where "re_finish E = Some (False, y)" by (cases "re_finish E") auto
        with started f z m \<open>b\<close> assms show ?thesis
          by (intro aborted) (auto simp: run_in_transaction_def Let_def)
      qed
    qed
  qed
qed

lemma run_plain_cases:
  assumes "run_plain E f a i w d ws = (x, d', ws')"
  obtains (raised) y where "f a (re_during E d) ws = (Some y, d', ws')" "x = Some y"
  | (uncompleted) y where "f a (re_during E d) ws = (None, d', ws')" "re_finish E = Some (False, y)" "x = Some y"
  | (completed) d1 where "f a (re_during E d) ws = (None, d1, ws')" "d' = snd (mark_succeeded (re_done E) i w d1)"
      "case re_finish E of None \<Rightarrow> x = None | Some (landed, y) \<Rightarrow> landed \<and> x = Some y"
proof -
  obtain z d1 ws1 where f: "f a (re_during E d) ws = (z, d1, ws1)" by (cases "f a (re_during E d) ws")
  show ?thesis
    using assms f that
    by (cases z; cases "re_finish E"; cases "fst (the (re_finish E))")
      (auto simp: run_plain_def Let_def)
qed

text \<open>What the body of the \<^verbatim>\<open>try\<close> leaves for the handlers.\<close>

lemma run_in_transaction_settles:
  assumes "run_in_transaction E f a i w d ws = (x, d', ws')" "jobs_ok d" "code_ok i f" "env_ok E"
  shows "jobs_ok d' \<and> (x \<in> {None, Some LeaseLost} \<longrightarrow> not_held w i d')"
proof -
  note env = assms(4) [unfolded env_ok_def]
  have d1: "jobs_ok (re_during E d)" using env assms(2) by blast
  show ?thesis
    using assms(1)
  proof (cases rule: run_in_transaction_cases)
    case (no_begin y)
    with env assms(2) show ?thesis by auto
  next
    case (raised y dv)
    with code_okD [OF assms(3) raised(2)] d1 show ?thesis by (auto intro: jobs_ok_rollback)
  next
    case (lost dv)
    with code_okD [OF assms(3) lost(2)] d1 show ?thesis
      by (auto simp: not_held_def intro: jobs_ok_rollback)
  next
    case (aborted y dv dv')
    have "jobs_id_seq (re_during E d) \<le> jobs_id_seq dv'"
      using code_okD(3) [OF assms(3) aborted(2) d1] mark_succeeded_in_transaction_seq [OF aborted(3)] by simp
    with d1 have "jobs_ok d'" unfolding aborted(6) by (rule jobs_ok_rollback)
    moreover have "y \<noteq> LeaseLost" using env aborted(4) by auto
    ultimately show ?thesis by (simp add: aborted(5))
  next
    case (committed dv dv')
    have "jobs_ok dv" using code_okD(2) [OF assms(3) committed(2) d1] .
    then have "jobs_ok dv'" by (rule mark_succeeded_in_transaction_ok(1) [OF _ committed(3)])
    moreover have "not_held w i dv'" using not_held_succeed [of w i "re_done E" dv] by (simp add: committed(3))
    ultimately show ?thesis by (simp add: committed(4))
  qed
qed

lemma run_plain_settles:
  assumes "run_plain E f a i w d ws = (x, d', ws')" "jobs_ok d" "code_ok i f" "env_ok E"
  shows "jobs_ok d' \<and> (x \<in> {None, Some LeaseLost} \<longrightarrow> not_held w i d')"
proof -
  note env = assms(4) [unfolded env_ok_def]
  have d1: "jobs_ok (re_during E d)" using env assms(2) by blast
  show ?thesis
    using assms(1)
  proof (cases rule: run_plain_cases)
    case (raised y)
    with code_okD [OF assms(3) raised(1)] d1 show ?thesis by auto
  next
    case (uncompleted y)
    with code_okD [OF assms(3) uncompleted(1)] d1 env show ?thesis by auto
  next
    case (completed d2)
    have "jobs_ok d2" using code_okD(2) [OF assms(3) completed(1) d1] .
    then have "jobs_ok d'"
      unfolding completed(2) by (rule mark_succeeded_ok(1) [OF _ prod.collapse [symmetric]])
    then show ?thesis using not_held_mark_succeeded by (simp add: completed(2))
  qed
qed

lemma attempt_settles:
  assumes "attempt reg E mt job w m h p = (x, r, h1, p1)" "jobs_ok (pdb p)"
    "tasks_ok (fst job) reg" "env_ok E"
  shows "jobs_ok (pdb p1) \<and> (x \<in> {None, Some LeaseLost} \<longrightarrow> not_held w (fst job) (pdb p1))"
proof -
  obtain i t a where job: "job = (i, t, a)" by (cases job)
  show ?thesis
  proof (cases "reg t")
    case None
    with assms(1,2) show ?thesis by (auto simp: attempt_def job get_registered_task_def)
  next
    case (Some r')
    then have f: "code_ok i (call (fn r'))" using assms(3) by (simp add: tasks_ok_def job)
    obtain y d' ws' where run: "(if wants_connection r' then run_in_transaction else run_plain) E
        (call (fn r')) a i w (pdb p) (world p) = (y, d', ws')"
      by (metis prod_cases3)
    then have "jobs_ok d' \<and> (y \<in> {None, Some LeaseLost} \<longrightarrow> not_held w i d')"
      using run_in_transaction_settles run_plain_settles assms(2,4) f by (auto split: if_splits)
    with assms(1) run Some show ?thesis
      by (auto simp: attempt_def job get_registered_task_def Let_def)
  qed
qed

lemma mark_failed_Inl: "mark_failed e u i w err permanent limit d = Inl y \<Longrightarrow> \<exists>s. y = OverflowError s"
  by (auto simp: mark_failed_def settle_failure_def compute_backoff_def Let_def bind_result_def
      split: prod.splits option.splits if_splits sum.splits)


text \<open>A task that writes one row, and a run in which nothing goes wrong, for the witnesses.\<close>

definition reg1 :: "code registry" where
  "reg1 = [''t'' \<mapsto> \<lparr> fn = \<lparr> fname = ''t'', params = [''conn''],
      call = (\<lambda>a d ws. (None, d\<lparr>effects := effects d @ [''done'']\<rparr>, ws)) \<rparr>,
    wants_connection = True, rt_max_attempts = None, rt_max_execution_seconds = None \<rparr>]"

definition env1 :: run_env where
  "env1 = \<lparr> re_begin = None, re_during = id, re_done = stmt_at 4, re_finish = None, re_after = id,
     re_fail = stmt_at 4, re_unif = 0, re_record = None \<rparr>"

definition proc1 :: proc where
  "proc1 = \<lparr> pdb = db1, world = [], wakes = initial_wakeup \<rparr>"

lemma tasks_ok_reg1: "tasks_ok i reg1"
  by (simp add: tasks_ok_def code_ok_def reg1_def get_job_def jobs_ok_def)

lemma env_ok_env1: "env_ok env1"
  by (simp add: env_ok_def env1_def)


end
