(* ===== verification/Effects.thy ===== *)
theory Effects
  imports Jobs
begin

section \<open>The effects ledger\<close>

text \<open>
  \<^verbatim>\<open>src/durable_queue/effects.py\<close>, and the protocol its docstring prescribes: check,
  act, record. A run of the protocol may be cut short at any point by a crash; the job is
  then run again.
\<close>

definition has_effect :: "string \<Rightarrow> db \<Rightarrow> bool" where
  "has_effect key d \<longleftrightarrow> key \<in> set (effects d)"

definition record_effect :: "string \<Rightarrow> db \<Rightarrow> db" where
  "record_effect key d =
     conn_commit (if key \<in> set (effects d) then d else d\<lparr>effects := effects d @ [key]\<rparr>)"

lemma has_effect_record [simp]: "has_effect k (record_effect k' d) \<longleftrightarrow> k = k' \<or> has_effect k d"
  by (auto simp: has_effect_def record_effect_def)

lemma jobs_record_effect [simp]: "jobs (record_effect k d) = jobs d"
  by (simp add: record_effect_def)

lemma distinct_effects_record: "distinct (effects d) \<Longrightarrow> distinct (effects (record_effect k d))"
  by (simp add: record_effect_def)

subsection \<open>Check, act, record\<close>

text \<open>
  How far a run gets: it may crash before acting, between acting and recording, or not at all.
  The world outside is the list of the keys acted on, in order.
\<close>

datatype reach = Checked | Acted | Recorded

definition run_effect :: "reach \<Rightarrow> string \<Rightarrow> db \<times> string list \<Rightarrow> db \<times> string list" where
  "run_effect r key s =
     (case s of (d, world) \<Rightarrow>
        if has_effect key d then s
        else (case r of
            Checked \<Rightarrow> s
          | Acted \<Rightarrow> (d, world @ [key])
          | Recorded \<Rightarrow> (record_effect key d, world @ [key])))"

text \<open>Recording first, the order the docstring warns against.\<close>

definition run_effect_recording_first :: "reach \<Rightarrow> string \<Rightarrow> db \<times> string list \<Rightarrow> db \<times> string list" where
  "run_effect_recording_first r key s =
     (case s of (d, world) \<Rightarrow>
        if has_effect key d then s
        else (case r of
            Checked \<Rightarrow> s
          | Recorded \<Rightarrow> (record_effect key d, world)
          | Acted \<Rightarrow> (record_effect key d, world @ [key])))"

text \<open>A history of runs, each for a key, each cut off somewhere.\<close>

definition run_effects :: "(reach \<times> string) list \<Rightarrow> db \<times> string list \<Rightarrow> db \<times> string list" where
  "run_effects rs s = fold (\<lambda>(r, key). run_effect r key) rs s"

lemma run_effects_simps [simp]:
  "run_effects [] s = s"
  "run_effects ((r, k) # rs) s = run_effects rs (run_effect r k s)"
  by (simp_all add: run_effects_def)

text \<open>The runs that acted and crashed before recording, before the first that recorded.\<close>

fun unrecorded_acts :: "string \<Rightarrow> (reach \<times> string) list \<Rightarrow> nat" where
  "unrecorded_acts k [] = 0"
| "unrecorded_acts k ((r, k') # rs) =
     (if k' \<noteq> k then unrecorded_acts k rs
      else case r of
          Checked \<Rightarrow> unrecorded_acts k rs
        | Acted \<Rightarrow> Suc (unrecorded_acts k rs)
        | Recorded \<Rightarrow> 0)"

lemma run_effects_recorded:
  "has_effect k (fst s) \<Longrightarrow>
   has_effect k (fst (run_effects rs s)) \<and>
   count_list (snd (run_effects rs s)) k = count_list (snd s) k"
proof (induction rs arbitrary: s)
  case (Cons x rs)
  obtain r k' where x: "x = (r, k')" by (cases x)
  obtain d world where s: "s = (d, world)" by (cases s)
  have "has_effect k (fst (run_effect r k' s)) \<and>
      count_list (snd (run_effect r k' s)) k = count_list (snd s) k"
    using Cons.prems by (auto simp: run_effect_def s split: reach.split)
  with Cons.IH [of "run_effect r k' s"] show ?case by (simp add: x)
qed simp



text \<open>
  Recording before acting turns this round: a crash between the two leaves a ledger that
  claims an effect that never happened, and no later run ever makes it happen.
\<close>

lemma recording_first_loses:
  assumes "run_effect_recording_first Recorded k (d, world) = (d', world')" and "\<not> has_effect k d"
  shows "has_effect k d' \<and> world' = world \<and>
    (\<forall>rs. (\<forall>r \<in> set rs. snd r = k) \<longrightarrow>
       fold (\<lambda>(r, key). run_effect_recording_first r key) rs (d', world') = (d', world))"
proof -
  from assms have d': "d' = record_effect k d" "world' = world"
    by (simp_all add: run_effect_recording_first_def)
  have "fold (\<lambda>(r, key). run_effect_recording_first r key) rs (d', world) = (d', world)"
    if "\<forall>r \<in> set rs. snd r = k" for rs
    using that by (induction rs) (auto simp: run_effect_recording_first_def d')
  with d' show ?thesis by simp
qed

end
