(* ===== verification/System.thy ===== *)
theory System
  imports Worker Effects
begin

section \<open>The whole queue: exactly once and at least once\<close>

text \<open>
  Any number of workers, reapers, enqueuers and tasks on one database, as a labelled step
  relation. Everything a process does to the database is one of the steps, and each run of
  \<^verbatim>\<open>run_job\<close> is shown to be a sequence of them, so what holds of every sequence of steps
  holds of the program. The state also keeps the ids of the jobs whose code has returned.
\<close>

datatype label = Internal | Committed int | Returned int

text \<open>What a task's code may do to the database: enqueue, write rows of its own, but not
  complete jobs.\<close>

definition code_safe :: "code \<Rightarrow> bool" where
  "code_safe f \<longleftrightarrow>
     (\<forall>a d ws. jobs_ok d \<longrightarrow>
        jobs_ok (fst (snd (f a d ws))) \<and> jobs_evolve d (fst (snd (f a d ws))) \<and>
        no_success d (fst (snd (f a d ws))))"

definition tasks_safe :: "code registry \<Rightarrow> bool" where
  "tasks_safe reg \<longleftrightarrow> (\<forall>n r. reg n = Some r \<longrightarrow> code_safe (call (fn r)))"

text \<open>Whether the rows with an id, if there are any, are for a task.\<close>

definition job_is :: "db \<Rightarrow> int \<Rightarrow> string \<Rightarrow> bool" where
  "job_is d i t \<longleftrightarrow> (\<exists>j. get_job i d = Some j \<and> task j = t)"

inductive sys_step :: "code registry \<Rightarrow> db \<times> int set \<Rightarrow> label \<Rightarrow> db \<times> int set \<Rightarrow> bool"
  for reg where
  upkeep: "upkeep_step d d' \<Longrightarrow> sys_step reg (d, A) Internal (d', A)"
| burn: "jobs_id_seq d \<le> n \<Longrightarrow> sys_step reg (d, A) Internal (d\<lparr>jobs_id_seq := n\<rparr>, A)"
| commit: "reg t = Some r \<Longrightarrow> wants_connection r \<Longrightarrow> job_is d i t \<Longrightarrow>
    call (fn r) a d ws = (None, dv, ws') \<Longrightarrow>
    mark_succeeded_in_transaction e i w dv = (True, dv') \<Longrightarrow>
    sys_step reg (d, A) (Committed i) (conn_commit dv', A)"
| returned: "reg t = Some r \<Longrightarrow> \<not> wants_connection r \<Longrightarrow>
    call (fn r) a d ws = (None, d', ws') \<Longrightarrow> sys_step reg (d, A) (Returned i) (d', insert i A)"
| raised: "reg t = Some r \<Longrightarrow> \<not> wants_connection r \<Longrightarrow>
    call (fn r) a d ws = (Some x, d', ws') \<Longrightarrow> sys_step reg (d, A) Internal (d', A)"
| complete: "i \<in> A \<Longrightarrow> reg t = Some r \<Longrightarrow> \<not> wants_connection r \<Longrightarrow> job_is d i t \<or> get_job i d = None \<Longrightarrow>
    mark_succeeded e i w d = (b, d') \<Longrightarrow> sys_step reg (d, A) Internal (d', A)"

inductive sys_run :: "code registry \<Rightarrow> db \<times> int set \<Rightarrow> label list \<Rightarrow> db \<times> int set \<Rightarrow> bool"
  for reg where
  finish: "sys_run reg s [] s"
| step: "sys_step reg s l s1 \<Longrightarrow> sys_run reg s1 ls s2 \<Longrightarrow> sys_run reg s (l # ls) s2"

inductive_cases sys_run_NilE [elim!]: "sys_run reg s [] s'"
inductive_cases sys_run_ConsE [elim!]: "sys_run reg s (l # ls) s'"

lemma sys_run_append: "sys_run reg s ls s1 \<Longrightarrow> sys_run reg s1 ls' s2 \<Longrightarrow> sys_run reg s (ls @ ls') s2"
  by (induction rule: sys_run.induct) (auto intro: sys_run.step)

lemma sys_run_one: "sys_step reg s l s' \<Longrightarrow> sys_run reg s [l] s'"
  by (rule sys_run.step [OF _ sys_run.finish])

subsection \<open>What one step does\<close>

lemma code_safeD:
  assumes "code_safe f" "f a d ws = (x, d', ws')" "jobs_ok d"
  shows "jobs_ok d'" "jobs_evolve d d'" "no_success d d'"
  using assms(1) [unfolded code_safe_def, rule_format, OF assms(3), of a ws] by (simp_all add: assms(2))

lemma tasks_safeD: "tasks_safe reg \<Longrightarrow> reg t = Some r \<Longrightarrow> code_safe (call (fn r))"
  by (simp add: tasks_safe_def)

text \<open>The step's effect on the table, and on which jobs are completed.\<close>

lemma mark_succeeded_others:
  assumes "mark_succeeded_in_transaction e i w d = (b, d')" "get_job i' d' = Some j'" "status j' = Succeeded"
    "i' \<noteq> i"
  shows "get_job i' d = Some j'"
  using assms get_job_succeed [of i' e i w d]
  by (cases "get_job i' d") (auto dest: get_job_SomeD)

lemma mark_succeeded_true:
  assumes "mark_succeeded_in_transaction e i w d = (True, d')" "jobs_ok d"
  obtains j where "get_job i d = Some j" "owned w j" "get_job i d' = Some (succeed_row (now e) j)"
proof -
  from assms(1) obtain j where j: "j \<in> set (jobs d)" "jid j = i" "owned w j"
    by (auto simp: mark_succeeded_in_transaction_def Let_def filter_empty_conv)
  with assms(2) have "get_job i d = Some j" by (auto intro: get_job_in_set)
  with j get_job_succeed [of i e i w d] assms(1) show ?thesis by (intro that) auto
qed

subsection \<open>Following jobs over several operations\<close>

definition jobs_follow :: "db \<Rightarrow> db \<Rightarrow> bool" where
  "jobs_follow d d' \<longleftrightarrow>
     jobs_id_seq d \<le> jobs_id_seq d' \<and>
     (\<forall>i j. get_job i d = Some j \<longrightarrow> job_fate d i j d') \<and>
     (\<forall>i. get_job i d = None \<longrightarrow> get_job i d' \<noteq> None \<longrightarrow> jobs_id_seq d \<le> i)"

lemma jobs_follow_refl [simp]: "jobs_follow d d"
  by (simp add: jobs_follow_def job_fate_def)

lemma jobs_follow_frame:
  "jobs d' = jobs d \<Longrightarrow> jobs_id_seq d \<le> jobs_id_seq d' \<Longrightarrow> jobs_follow d d'"
  by (simp add: jobs_follow_def job_fate_def get_job_def)

lemma jobs_follow_gone: "jobs_follow d d' \<Longrightarrow> get_job i d = None \<Longrightarrow> i < jobs_id_seq d \<Longrightarrow> get_job i d' = None"
  by (force simp: jobs_follow_def)

lemma jobs_follow_fate: "jobs_follow d d' \<Longrightarrow> get_job i d = Some j \<Longrightarrow> job_fate d i j d'"
  by (simp add: jobs_follow_def)

lemma jobs_follow_conn_commit [simp]: "jobs_follow d (conn_commit d') = jobs_follow d d'"
  by (simp add: jobs_follow_def job_fate_def)

lemma jobs_follow_trans:
  assumes "jobs_ok d" "jobs_follow d d1" "jobs_follow d1 d2"
  shows "jobs_follow d d2"
proof -
  have seq: "jobs_id_seq d \<le> jobs_id_seq d1" "jobs_id_seq d1 \<le> jobs_id_seq d2"
    using assms(2,3) by (simp_all add: jobs_follow_def)
  have "job_fate d i j d2" if j: "get_job i d = Some j" for i j
  proof (cases "get_job i d1")
    case None
    have "i < jobs_id_seq d1" using get_job_below_seq [OF assms(1) j] seq by simp
    with None assms(3) have "get_job i d2 = None" by (blast intro: jobs_follow_gone)
    with None jobs_follow_fate [OF assms(2) j] show ?thesis by (simp add: job_fate_def)
  next
    case (Some j1)
    with jobs_follow_fate [OF assms(2) j] have "same_work j j1" "status_step\<^sup>*\<^sup>* (status j) (status j1)"
      by (simp_all add: job_fate_def)
    with jobs_follow_fate [OF assms(3) Some] show ?thesis
      by (auto simp: job_fate_def intro: same_work_trans rtranclp_trans split: option.splits)
  qed
  moreover have "jobs_id_seq d \<le> i" if "get_job i d = None" "get_job i d2 \<noteq> None" for i
    using that assms(2,3) seq by (cases "get_job i d1") (force simp: jobs_follow_def)+
  ultimately show ?thesis using seq by (simp add: jobs_follow_def)
qed

lemma jobs_evolve_follow: "jobs_evolve d d' \<Longrightarrow> jobs_follow d d'"
proof -
  assume ev: "jobs_evolve d d'"
  have "job_fate d i j d'" if "get_job i d = Some j" for i j
    using jobs_evolveD(2) [OF ev that] by (auto simp: job_fate_def)
  with ev show ?thesis by (simp add: jobs_follow_def jobs_evolve_def)
qed

lemma jobs_follow_succeeded:
  assumes "jobs_follow d d'" "get_job i d = Some j" "get_job i d' = Some j'"
  shows "same_work j j'" "status j = Succeeded \<Longrightarrow> status j' = Succeeded"
  using jobs_follow_fate [OF assms(1,2)] assms(3)
  by (auto simp: job_fate_def dest: from_Succeeded_star)

subsection \<open>One step\<close>

lemma sys_step_ok:
  "sys_step reg s l s' \<Longrightarrow> tasks_safe reg \<Longrightarrow> jobs_ok (fst s) \<Longrightarrow>
   jobs_ok (fst s') \<and> jobs_follow (fst s) (fst s')"
proof (induction rule: sys_step.induct)
  case (upkeep d d' A)
  then show ?case using upkeep_step_ok jobs_evolve_follow by auto
next
  case (burn d n A)
  then show ?case by (auto intro: jobs_ok_frame jobs_follow_frame)
next
  case (commit t r d i a ws dv ws' e w dv' A)
  note v = code_safeD [OF tasks_safeD [OF commit(6,1)] commit(4)]
  have "jobs_ok dv" "jobs_follow d dv" using commit(7) v by (auto intro: jobs_evolve_follow)
  moreover from this commit(5) have "jobs_ok dv'" "jobs_follow dv dv'"
    using mark_succeeded_in_transaction_ok jobs_evolve_follow by blast+
  ultimately show ?case using jobs_follow_trans [of d dv dv'] commit(7) by simp
next
  case (returned t r a d ws d' ws' i A)
  then show ?case using code_safeD [OF tasks_safeD [OF returned(4,1)] returned(3)] by (auto intro: jobs_evolve_follow)
next
  case (raised t r a d ws x d' ws' A)
  then show ?case using code_safeD [OF tasks_safeD [OF raised(4,1)] raised(3)] by (auto intro: jobs_evolve_follow)
next
  case (complete i A t r d e w b d')
  then show ?case using mark_succeeded_ok jobs_evolve_follow by auto
qed

lemma sys_run_ok:
  assumes "sys_run reg s ls s'" "tasks_safe reg" "jobs_ok (fst s)"
  shows "jobs_ok (fst s') \<and> jobs_follow (fst s) (fst s')"
  using assms
proof (induction rule: sys_run.induct)
  case (step s l s1 ls s2)
  with sys_step_ok [OF step(1,4,5)] jobs_follow_trans show ?case by blast
qed simp

text \<open>Where a succeeded row can have come from, and what a commit finds and leaves.\<close>

definition for_task :: "code registry \<Rightarrow> bool \<Rightarrow> db \<Rightarrow> int \<Rightarrow> bool" where
  "for_task reg conn d i \<longleftrightarrow> (\<exists>t r. job_is d i t \<and> reg t = Some r \<and> wants_connection r = conn)"

lemma for_task_follow:
  "jobs_follow d d' \<Longrightarrow> for_task reg conn d i \<Longrightarrow> get_job i d' = Some j \<Longrightarrow> for_task reg conn d' i"
  using jobs_follow_succeeded(1) [of d d' i] by (fastforce simp: for_task_def job_is_def same_work_def)

lemma sys_step_success:
  "sys_step reg s l s' \<Longrightarrow> tasks_safe reg \<Longrightarrow> jobs_ok (fst s) \<Longrightarrow>
   get_job i (fst s') = Some j' \<Longrightarrow> status j' = Succeeded \<Longrightarrow>
   (\<exists>j. get_job i (fst s) = Some j \<and> status j = Succeeded) \<or> l = Committed i \<or>
   (for_task reg False (fst s) i \<and> i \<in> snd s \<and> l = Internal)"
proof (induction rule: sys_step.induct)
  case (upkeep d d' A)
  then show ?case using upkeep_no_success [of d d'] by (auto simp: no_success_def)
next
  case (burn d n A)
  then show ?case by (simp add: get_job_def)
next
  case (commit t r d i' a ws dv ws' e w dv' A)
  have "no_success d dv" using code_safeD [OF tasks_safeD [OF commit(6,1)] commit(4)] commit(7) by simp
  with commit mark_succeeded_others [OF commit(5), of i j'] show ?case
    by (cases "i' = i") (auto simp: no_success_def)
next
  case (returned t r a d ws d' ws' i' A)
  then show ?case using code_safeD(3) [OF tasks_safeD [OF returned(4,1)] returned(3)] by (auto simp: no_success_def)
next
  case (raised t r a d ws x d' ws' A)
  then show ?case using code_safeD(3) [OF tasks_safeD [OF raised(4,1)] raised(3)] by (auto simp: no_success_def)
next
  case (complete i' A t r d e w b d')
  obtain d1 where m: "mark_succeeded_in_transaction e i' w d = (b, d1)" "d' = conn_commit d1"
    using complete(5) by (auto simp: mark_succeeded_def split: prod.splits)
  show ?case
  proof (cases "i = i'")
    case False
    with mark_succeeded_others [OF m(1), of i j'] complete m(2) show ?thesis by auto
  next
    case True
    have "get_job i d \<noteq> None"
      using complete(8) get_job_succeed [of i e i' w d] m by (cases "get_job i d") auto
    with complete True show ?thesis by (auto simp: for_task_def)
  qed
qed

lemma sys_step_committed:
  assumes "sys_step reg s (Committed i) s'" "tasks_safe reg" "jobs_ok (fst s)"
  shows "for_task reg True (fst s) i \<and>
    (\<exists>j j'. get_job i (fst s) = Some j \<and> status j \<noteq> Succeeded \<and>
            get_job i (fst s') = Some j' \<and> status j' = Succeeded)"
  using assms(1)
proof (cases rule: sys_step.cases)
  case (commit t r d a ws dv ws' e w dv' A)
  note v = code_safeD [OF tasks_safeD [OF assms(2) commit(3)] commit(6)]
  have ok: "jobs_ok d" using assms(3) commit(1) by simp
  obtain j where j: "get_job i dv = Some j" "owned w j" "get_job i dv' = Some (succeed_row (now e) j)"
    by (rule mark_succeeded_true [OF commit(7) v(1) [OF ok]])
  obtain j0 where j0: "get_job i d = Some j0" "task j0 = t" using commit(5) by (auto simp: job_is_def)
  have "status j0 \<noteq> Succeeded"
    using jobs_follow_succeeded(2) [OF jobs_evolve_follow [OF v(2) [OF ok]] j0(1) j(1)] j(2)
    by (auto simp: owned_def)
  with j j0 commit(1-5) show ?thesis by (auto simp: for_task_def row_defs)
qed

subsection \<open>Properties: execution guarantees\<close>

lemma committed_once:
  assumes "sys_run reg s ls s'" "tasks_safe reg" "jobs_ok (fst s)" "i < jobs_id_seq (fst s)"
    "get_job i (fst s) \<noteq> None \<longrightarrow> for_task reg True (fst s) i"
  shows "case get_job i (fst s) of
      None \<Rightarrow> count_list ls (Committed i) = 0
    | Some j \<Rightarrow> count_list ls (Committed i) + (if status j = Succeeded then 1 else 0) \<le> 1 \<and>
        (\<forall>j'. get_job i (fst s') = Some j' \<longrightarrow>
           (status j' = Succeeded \<longleftrightarrow> status j = Succeeded \<or> count_list ls (Committed i) = 1))"
  using assms
proof (induction rule: sys_run.induct)
  case (finish s)
  then show ?case by (simp split: option.split)
next
  case (step s l s1 ls s2)
  have ok1: "jobs_ok (fst s1)" and f: "jobs_follow (fst s) (fst s1)"
    using sys_step_ok [OF step(1,4,5)] by simp_all
  have seq: "i < jobs_id_seq (fst s1)" using f step(6) by (simp add: jobs_follow_def)
  show ?case
  proof (cases "get_job i (fst s)")
    case None
    then have "get_job i (fst s1) = None" using f step(6) by (blast intro: jobs_follow_gone)
    moreover have "l \<noteq> Committed i" using sys_step_committed [of reg s i s1] step(1,4,5) None by auto
    ultimately show ?thesis using step.IH [OF step(4) ok1 seq] None by simp
  next
    case (Some j)
    then have ft: "for_task reg True (fst s) i" using step(7) by simp
    then have ft1: "get_job i (fst s1) \<noteq> None \<longrightarrow> for_task reg True (fst s1) i"
      using for_task_follow [OF f] by auto
    note IH = step.IH [OF step(4) ok1 seq ft1]
    have notF: "\<not> for_task reg False (fst s) i"
      using ft by (auto simp: for_task_def job_is_def)
    show ?thesis
    proof (cases "l = Committed i")
      case True
      with sys_step_committed [of reg s i s1] step(1,4,5) Some IH show ?thesis
        by (auto split: option.splits)
    next
      case False
      show ?thesis
      proof (cases "get_job i (fst s1)")
        case None
        then have "get_job i (fst s2) = None"
          using sys_run_ok [OF step(2,4) ok1] seq by (blast intro: jobs_follow_gone)
        with None IH False Some show ?thesis by simp
      next
        case (Some j1)
        have "status j1 = Succeeded \<longleftrightarrow> status j = Succeeded"
          using sys_step_success [OF step(1,4,5) Some] False notF \<open>get_job i (fst s) = Some j\<close>
            jobs_follow_succeeded(2) [OF f \<open>get_job i (fst s) = Some j\<close> Some] by auto
        with IH Some False \<open>get_job i (fst s) = Some j\<close> show ?thesis by simp
      qed
    qed
  qed
qed

text \<open>
  C1: exactly once. Whatever workers, reapers, retries, crashes and enqueuers do, the writes of a
  task that takes a connection are committed at most once for each of its jobs, and they are
  committed if and only if the job is succeeded: never for a job that is pending, running or
  dead, and never twice.
\<close>

theorem exactly_once:
  assumes "sys_run reg (d, A) ls (d', A')" and "tasks_safe reg" and "jobs_ok d"
    and "get_job i d = Some j" and "status j \<noteq> Succeeded"
    and "reg (task j) = Some r" and "wants_connection r"
  shows "count_list ls (Committed i) \<le> 1 \<and>
    (\<forall>j'. get_job i d' = Some j' \<longrightarrow> (status j' = Succeeded \<longleftrightarrow> count_list ls (Committed i) = 1))"
proof -
  have "for_task reg True d i" using assms(4,6,7) by (auto simp: for_task_def job_is_def)
  with committed_once [OF assms(1,2), of i] assms(3-5) get_job_below_seq [OF assms(3,4)]
  show ?thesis by simp
qed

lemma tasks_safe_reg1: "tasks_safe reg1"
  by (simp add: tasks_safe_def code_safe_def reg1_def jobs_ok_def jobs_evolve_frame no_success_frame)

definition db1_done :: db where
  "db1_done = conn_commit (snd (mark_succeeded_in_transaction (stmt_at 4) 1 ''w''
     (db1\<lparr>effects := [''done'']\<rparr>)))"

lemma job_is_db1: "job_is db1 1 ''t''"
  using get_job_db1(1) by (simp add: job_is_def job1_defs)

lemma exactly_once_witness:
  "\<exists>j'. get_job 1 db1_done = Some j' \<and> status j' = Succeeded"
proof -
  have own: "owned ''w'' job1" "jid job1 = 1" "jobs db1 = [job1]"
    by (simp_all add: owned_def job1_defs)
  then have m: "mark_succeeded_in_transaction (stmt_at 4) 1 ''w'' (db1\<lparr>effects := [''done'']\<rparr>) =
      (True, snd (mark_succeeded_in_transaction (stmt_at 4) 1 ''w'' (db1\<lparr>effects := [''done'']\<rparr>)))"
    by (simp add: mark_succeeded_in_transaction_def)
  obtain r where r: "reg1 ''t'' = Some r" "wants_connection r"
    "call (fn r) = (\<lambda>a d ws. (None, d\<lparr>effects := effects d @ [''done'']\<rparr>, ws))"
    by (auto simp: reg1_def)
  then have "call (fn r) [] db1 [] = (None, db1\<lparr>effects := [''done'']\<rparr>, [])"
    by (simp add: db1_def empty_db_def)
  from sys_step.commit [where reg = reg1 and t = "''t''" and r = r, OF r(1,2) job_is_db1 this m]
  have "sys_step reg1 (db1, {}) (Committed 1) (db1_done, {})" unfolding db1_done_def .
  then have run: "sys_run reg1 (db1, {}) [Committed 1] (db1_done, {})" by (rule sys_run_one)
  have t: "task job1 = ''t''" "status job1 \<noteq> Succeeded" by (simp_all add: job1_defs)
  have "get_job 1 (db1\<lparr>effects := [''done'']\<rparr>) = Some job1"
    using get_job_db1(1) by (simp add: get_job_def)
  with own have "get_job 1 db1_done = Some (succeed_row 4 job1)"
    unfolding db1_done_def by (simp add: get_job_succeed)
  with exactly_once [OF run tasks_safe_reg1 jobs_ok_db1 get_job_db1(1) t(2) r(1) [folded t(1)] r(2)]
  show ?thesis by simp
qed

lemma acted_only_by_return:
  "sys_run reg s ls s' \<Longrightarrow> i \<in> snd s' \<Longrightarrow> i \<in> snd s \<or> Returned i \<in> set ls"
proof (induction rule: sys_run.induct)
  case (step s l s1 ls s2)
  from step(1) have "i \<in> snd s1 \<Longrightarrow> i \<in> snd s \<or> l = Returned i"
    by (cases rule: sys_step.cases) auto
  with step show ?case by auto
qed simp

lemma sys_run_success:
  assumes "sys_run reg s ls s'" "tasks_safe reg" "jobs_ok (fst s)" "for_task reg False (fst s) i"
    "get_job i (fst s) = Some j" "status j \<noteq> Succeeded"
    "get_job i (fst s') = Some j'" "status j' = Succeeded"
  shows "\<exists>s1 ls1 ls2. sys_run reg s ls1 s1 \<and> i \<in> snd s1 \<and> ls = ls1 @ ls2"
  using assms
proof (induction arbitrary: j rule: sys_run.induct)
  case (step s l s1 ls s2)
  have ok1: "jobs_ok (fst s1)" and f: "jobs_follow (fst s) (fst s1)"
    using sys_step_ok [OF step(1,4,5)] by simp_all
  have "i < jobs_id_seq (fst s1)"
    using get_job_below_seq [OF step(5,7)] f by (simp add: jobs_follow_def)
  then have "get_job i (fst s1) \<noteq> None"
    using sys_run_ok [OF step(2,4) ok1] step(9) jobs_follow_gone by fastforce
  then obtain j1 where j1: "get_job i (fst s1) = Some j1" by auto
  show ?case
  proof (cases "status j1 = Succeeded")
    case True
    have "l \<noteq> Committed i"
      using sys_step_committed [of reg s i s1] step(1,4,5,6) by (auto simp: for_task_def job_is_def)
    with sys_step_success [OF step(1,4,5) j1 True] step(7,8) have "i \<in> snd s" by auto
    then show ?thesis by (metis append_Nil sys_run.finish)
  next
    case False
    from step.IH [OF step(4) ok1 for_task_follow [OF f step(6) j1] j1 False step(9,10)]
    obtain s3 ls1 ls2 where "sys_run reg s1 ls1 s3" "i \<in> snd s3" "ls = ls1 @ ls2" by blast
    with step(1) show ?thesis by (metis append_Cons sys_run.step)
  qed
qed simp


definition reg2 :: "code registry" where
  "reg2 = [''t'' \<mapsto> \<lparr> fn = \<lparr> fname = ''t'', params = [],
      call = (\<lambda>a d ws. (None, d, ws @ [''sent''])) \<rparr>,
    wants_connection = False, rt_max_attempts = None, rt_max_execution_seconds = None \<rparr>]"


subsection \<open>A run is a sequence of steps\<close>

text \<open>What others do around a run is steps of the same system.\<close>

definition others_run :: "code registry \<Rightarrow> (db \<Rightarrow> db) \<Rightarrow> bool" where
  "others_run reg f \<longleftrightarrow> (\<forall>d A. jobs_ok d \<longrightarrow> (\<exists>ls A'. A \<subseteq> A' \<and> sys_run reg (d, A) ls (f d, A')))"

lemma others_runE:
  assumes "others_run reg f" "tasks_safe reg" "jobs_ok d"
  obtains ls A' where "A \<subseteq> A'" "sys_run reg (d, A) ls (f d, A')" "jobs_ok (f d)" "jobs_follow d (f d)"
proof -
  obtain ls A' where run: "A \<subseteq> A'" "sys_run reg (d, A) ls (f d, A')"
    using assms(1,3) unfolding others_run_def by blast
  with sys_run_ok [OF run(2) assms(2)] assms(3) show ?thesis by (intro that) auto
qed

lemma run_burn:
  "jobs_id_seq d \<le> jobs_id_seq dv \<Longrightarrow> sys_run reg (d, A) [Internal] (rollback_tx d dv, A)"
  unfolding rollback_tx_def by (intro sys_run_one sys_step.burn)

text \<open>
  What a worker knows of a job it has claimed: its id has been given out, and its row, if it has not
  been purged by now, is for this task.
\<close>

definition known :: "db \<Rightarrow> int \<Rightarrow> string \<Rightarrow> bool" where
  "known d i t \<longleftrightarrow> i < jobs_id_seq d \<and> (\<forall>j. get_job i d = Some j \<longrightarrow> task j = t)"

lemma job_is_known: "jobs_ok d \<Longrightarrow> job_is d i t \<Longrightarrow> known d i t"
  using get_job_below_seq by (auto simp: job_is_def known_def)

lemma known_cases: "known d i t \<Longrightarrow> job_is d i t \<or> get_job i d = None"
  by (auto simp: job_is_def known_def)

lemma known_follow:
  assumes "jobs_follow d d'" "known d i t"
  shows "known d' i t"
proof -
  have "task j' = t" if j': "get_job i d' = Some j'" for j'
  proof (cases "get_job i d")
    case None
    then have "get_job i d' = None" using assms by (auto simp: known_def intro: jobs_follow_gone)
    with j' show ?thesis by simp
  next
    case (Some j)
    with jobs_follow_succeeded(1) [OF assms(1) Some j'] assms(2) show ?thesis
      by (auto simp: known_def same_work_def)
  qed
  with assms show ?thesis by (auto simp: known_def jobs_follow_def)
qed

lemma run_in_transaction_refines:
  assumes run: "run_in_transaction E f a i w d ws = (x, d', ws')"
    and reg: "reg t = Some r" "wants_connection r" "f = call (fn r)" "tasks_safe reg"
    and ok: "jobs_ok d" "known d i t" "others_run reg (re_during E)"
  shows "\<exists>ls A'. sys_run reg (d, A) ls (d', A')"
proof -
  obtain ls A' where during: "sys_run reg (d, A) ls (re_during E d, A')"
    "jobs_ok (re_during E d)" "jobs_follow d (re_during E d)"
    using others_runE [OF ok(3) reg(4) ok(1), where A = A] by metis
  have safe: "code_safe f" using tasks_safeD [OF reg(4,1)] reg(3) by simp
  have seq: "jobs_id_seq (re_during E d) \<le> jobs_id_seq dv" if "f a (re_during E d) ws = (z, dv, ws1)" for z dv ws1
    using code_safeD(2) [OF safe that during(2)] by (simp add: jobs_evolve_def)
  show ?thesis
    using run
  proof (cases rule: run_in_transaction_cases)
    case (no_begin y)
    then show ?thesis using sys_run.finish by blast
  next
    case (raised y dv)
    show ?thesis unfolding raised(4)
      using sys_run_append [OF during(1) run_burn [OF seq [OF raised(2)]]] by blast
  next
    case (lost dv)
    show ?thesis unfolding lost(5)
      using sys_run_append [OF during(1) run_burn [OF seq [OF lost(2)]]] by blast
  next
    case (aborted y dv dv')
    have "jobs_id_seq (re_during E d) \<le> jobs_id_seq dv'"
      using seq [OF aborted(2)] mark_succeeded_in_transaction_seq [OF aborted(3)] by simp
    then show ?thesis unfolding aborted(6)
      using sys_run_append [OF during(1) run_burn] by blast
  next
    case (committed dv dv')
    note v = code_safeD [OF safe committed(2) during(2)]
    obtain j where "get_job i dv = Some j"
      by (rule mark_succeeded_true [OF committed(3) v(1)])
    moreover have known: "known (re_during E d) i t" by (rule known_follow [OF during(3) ok(2)])
    ultimately have "get_job i (re_during E d) \<noteq> None"
      using jobs_evolve_gone [OF v(2)] by (force simp: known_def)
    with known_cases [OF known] have "job_is (re_during E d) i t" by simp
    from sys_step.commit [where reg = reg and t = t and r = r, OF reg(1,2) this committed(2) [unfolded reg(3)] committed(3)]
    have "sys_step reg (re_during E d, A') (Committed i) (d', A')" unfolding committed(4) .
    then show ?thesis using sys_run_append [OF during(1) sys_run_one] by blast
  qed
qed

lemma run_plain_refines:
  assumes run: "run_plain E f a i w d ws = (x, d', ws')"
    and reg: "reg t = Some r" "\<not> wants_connection r" "f = call (fn r)" "tasks_safe reg"
    and ok: "jobs_ok d" "known d i t" "others_run reg (re_during E)"
  shows "\<exists>ls A'. sys_run reg (d, A) ls (d', A')"
proof -
  obtain ls A' where during: "sys_run reg (d, A) ls (re_during E d, A')"
    "jobs_ok (re_during E d)" "jobs_follow d (re_during E d)"
    using others_runE [OF ok(3) reg(4) ok(1), where A = A] by metis
  have ret: "sys_step reg (re_during E d, A') (Returned i) (d1, insert i A')"
    if "f a (re_during E d) ws = (None, d1, ws1)" for d1 ws1
    using sys_step.returned [where reg = reg and t = t and r = r, OF reg(1,2) that [unfolded reg(3)]] .
  show ?thesis
    using run
  proof (cases rule: run_plain_cases)
    case (raised y)
    from this(1) have "sys_step reg (re_during E d, A') Internal (d', A')"
      unfolding reg(3) by (rule sys_step.raised [where reg = reg and t = t and r = r, OF reg(1,2)])
    then show ?thesis using sys_run_append [OF during(1) sys_run_one] by blast
  next
    case (uncompleted y)
    then show ?thesis using sys_run_append [OF during(1) sys_run_one [OF ret]] by blast
  next
    case (completed d1)
    have "jobs_follow (re_during E d) d1"
      using code_safeD(2) [OF tasks_safeD [OF reg(4,1)] completed(1) [unfolded reg(3)] during(2)]
      by (rule jobs_evolve_follow)
    then have "jobs_follow d d1" using jobs_follow_trans [OF ok(1) during(3)] by blast
    then have "job_is d1 i t \<or> get_job i d1 = None" by (rule known_cases [OF known_follow [OF _ ok(2)]])
    from sys_step.complete [where reg = reg and t = t and r = r, OF _ reg(1,2) this prod.collapse [symmetric]]
    have "sys_step reg (d1, insert i A') Internal (d', insert i A')"
      unfolding completed(2) by simp
    with ret [OF completed(1)] have "sys_run reg (re_during E d, A') [Returned i, Internal] (d', insert i A')"
      by (blast intro: sys_run.intros)
    from sys_run_append [OF during(1) this] show ?thesis by blast
  qed
qed

lemma handle_exn_db:
  assumes "handle_exn str_of E i w r x p = (y, p')"
  shows "pdb p' = pdb p \<or> pdb p' = re_after E (pdb p) \<or> upkeep_step (re_after E (pdb p)) (pdb p')"
proof (cases "x = LeaseLost \<or> \<not> is_exception x \<or> re_record E \<noteq> None")
  case True
  with assms show ?thesis
    by (cases "re_record E") (auto simp: handle_exn_def Let_def split: if_splits)
next
  case False
  obtain z where z: "mark_failed (re_fail E) (re_unif E) i w (str_of x) (is_permanent x)
      (case r of None \<Rightarrow> None | Some r \<Rightarrow> rt_max_attempts r) (re_after E (pdb p)) = z" by simp
  show ?thesis
  proof (cases z)
    case (Inl q)
    with assms False z show ?thesis by (auto simp: handle_exn_def)
  next
    case (Inr q)
    obtain b d2 where q: "q = (b, d2)" by (cases q)
    from upkeep_step.fail [OF z [unfolded Inr q]] assms False z Inr q show ?thesis
      by (auto simp: handle_exn_def)
  qed
qed

lemma attempt_refines:
  assumes "tasks_safe reg" "jobs_ok (pdb p)" "known (pdb p) i t" "others_run reg (re_during E)"
    and at: "attempt reg E mt (i, t, a) w m h p = (x, r, h1, p1)"
  shows "\<exists>ls A1. sys_run reg (pdb p, A) ls (pdb p1, A1)"
proof (cases "reg t")
  case None
  with at have "pdb p1 = pdb p" by (auto simp: attempt_def get_registered_task_def)
  then show ?thesis using sys_run.finish by metis
next
  case (Some r')
  obtain z d1 ws1 where z: "(if wants_connection r' then run_in_transaction else run_plain) E
      (call (fn r')) a i w (pdb p) (world p) = (z, d1, ws1)"
    by (metis prod_cases3)
  have "\<exists>ls A1. sys_run reg (pdb p, A) ls (d1, A1)"
  proof (cases "wants_connection r'")
    case True
    with run_in_transaction_refines [OF _ Some True refl assms(1-4)] z show ?thesis by simp
  next
    case False
    with run_plain_refines [OF _ Some False refl assms(1-4)] z show ?thesis by simp
  qed
  moreover have "pdb p1 = d1"
    using at Some z by (auto simp: attempt_def get_registered_task_def Let_def)
  ultimately show ?thesis by simp
qed

lemma recording_refines:
  assumes "tasks_safe reg" "jobs_ok (pdb p)" "others_run reg (re_after E)"
    and "(case x of None \<Rightarrow> (None, p) | Some z \<Rightarrow> handle_exn str_of E i w r z p) = (y, p')"
  shows "\<exists>ls A'. sys_run reg (pdb p, A) ls (pdb p', A')"
proof -
  obtain ls A1 where others: "sys_run reg (pdb p, A) ls (re_after E (pdb p), A1)"
    using others_runE [OF assms(3,1,2), where A = A] by metis
  consider "pdb p' = pdb p" | "pdb p' = re_after E (pdb p)" | "upkeep_step (re_after E (pdb p)) (pdb p')"
    using assms(4) by (cases x) (auto dest!: handle_exn_db)
  then show ?thesis
  proof cases
    case 1
    then show ?thesis using sys_run.finish by metis
  next
    case 2
    with others show ?thesis by metis
  next
    case 3
    from sys_run_append [OF others sys_run_one [OF sys_step.upkeep [OF 3]]] show ?thesis by blast
  qed
qed

lemma run_job_run:
  assumes "tasks_safe reg" and "jobs_ok (pdb p)" and "known (pdb p) i t"
    and "others_run reg (re_during E)" and "others_run reg (re_after E)"
    and run: "run_job str_of reg E mt (i, t, a) w l m hb p = (y, hb', p')"
  shows "\<exists>ls A'. sys_run reg (pdb p, A) ls (pdb p', A')"
proof -
  obtain x r h1 p1 where at:
    "attempt reg E mt (i, t, a) w m
       (case hb of None \<Rightarrow> new_heartbeat w l (of_int l / 3) False | Some h \<Rightarrow> h) p = (x, r, h1, p1)"
    by (metis prod_cases4)
  obtain ls1 A1 where r1: "sys_run reg (pdb p, A) ls1 (pdb p1, A1)"
    using attempt_refines [OF assms(1-4) at] by blast
  with sys_run_ok [OF r1 assms(1)] assms(2) have ok1: "jobs_ok (pdb p1)" by simp
  have "(case x of None \<Rightarrow> (None, p1) | Some z \<Rightarrow> handle_exn str_of E i w r z p1) = (y, p')"
    using run at by (cases x) (simp_all add: run_job_def split: prod.splits)
  from recording_refines [OF assms(1) ok1 assms(5) this, of A1] sys_run_append [OF r1]
  show ?thesis by blast
qed

text \<open>
  C3: the program is an instance of the system. One call of \<open>run_job\<close> for a job that was
  claimed, whether or not its row is still there, with everything that can go wrong in it and with any interference by other processes that
  are such instances themselves, changes the database by a sequence of its steps. Exactly once and at
  least once therefore hold of every interleaving of such calls.
\<close>

theorem run_job_refines:
  assumes "tasks_safe reg" and "jobs_ok (pdb p)" and "known (pdb p) i t"
    and "others_run reg (re_during E)" and "others_run reg (re_after E)"
    and "run_job str_of reg E mt (i, t, a) w l m hb p = (y, hb', p')"
  shows "\<exists>ls A'. sys_run reg (pdb p, A) ls (pdb p', A')"
  using assms by (rule run_job_run)

lemma run_job_refines_witness:
  "\<exists>ls A'. sys_run reg1 (db1, {}) ls
     (pdb (snd (snd (run_job (\<lambda>_. []) reg1 env1 0 (1, ''t'', []) ''w'' 30 300 None proc1))), A')"
proof -
  have "others_run reg1 id" 
    unfolding others_run_def by (intro allI impI exI [of _ "[]"]) (auto intro: sys_run.finish)
  then have "others_run reg1 (re_during env1)" "others_run reg1 (re_after env1)" "pdb proc1 = db1"
    by (simp_all add: env1_def proc1_def)
  moreover obtain y hb' p' where
    "run_job (\<lambda>_. []) reg1 env1 0 (1, ''t'', []) ''w'' 30 300 None proc1 = (y, hb', p')"
    by (metis prod_cases3)
  moreover note run_job_refines [OF tasks_safe_reg1 _ _ _ _ this, of "{}"]
  ultimately show ?thesis by (simp add: job_is_known [OF jobs_ok_db1 job_is_db1])
qed

text \<open>The operations that complete nothing are runs of the system, too.\<close>

lemma upkeep_run_sys:
  assumes "upkeep_run d d'"
  shows "\<exists>ls. sys_run reg (d, A) ls (d', A)"
  using assms
proof (induction rule: rtranclp_induct)
  case base
  show ?case using sys_run.finish by metis
next
  case (step d1 d2)
  then obtain ls where "sys_run reg (d, A) ls (d1, A)" by blast
  from sys_run_append [OF this sys_run_one [OF sys_step.upkeep [OF step(2)]]] show ?case by blast
qed

lemma beat_upkeep: "beat e mt fails h d = (d', closes) \<Longrightarrow> upkeep_run d d'"
  by (auto simp: beat_def Let_def split: if_splits option.splits intro: upkeep_step.extend_many)

end
