(* ===== verification/Slots.thy ===== *)
theory Slots
  imports System Connection
begin

section \<open>The worker's claim loop and its slots\<close>

text \<open>
  \<^verbatim>\<open>run_worker\<close> of \<^verbatim>\<open>src/durable_queue/worker.py\<close>: the main thread that claims
  batches, the slot threads that run them, the heartbeat's beats, and the counter \<^verbatim>\<open>outstanding\<close>
  between them, as a step relation: one rule per stretch of code that runs without another thread
  being able to tell. A run of a job is \<open>run_job\<close> of \<^theory_text>\<open>Worker\<close>, whole, when it ends; the
  connections are \<^theory_text>\<open>Connection\<close>. \<open>worker_refines_system\<close> says that a worker is an instance of
  \<^theory_text>\<open>System\<close>; \<^theory_text>\<open>Slots_Safety\<close> has what its threads keep.
\<close>

subsection \<open>Configuration\<close>

definition DEFAULT_BATCH_SIZE :: int where
  "DEFAULT_BATCH_SIZE = 10"

definition generate_worker_id :: "string \<Rightarrow> string \<Rightarrow> string \<Rightarrow> string" where
  "generate_worker_id hostname pid hex = hostname @ '':'' @ pid @ '':'' @ take 8 hex"

record config =
  c_worker_id :: string
  c_lease_seconds :: int
  c_max_execution_seconds :: real
  c_batch_size :: int
  c_max_outstanding :: int
  c_concurrency :: nat
  c_idle :: bool
  c_use_notify :: bool
  c_poll_interval :: real
  c_reap_interval :: real
  c_shutdown_timeout :: real

definition make_config :: "string \<Rightarrow> real \<Rightarrow> int \<Rightarrow> real \<Rightarrow> bool \<Rightarrow> real option \<Rightarrow> int \<Rightarrow> nat \<Rightarrow> bool \<Rightarrow> real
    \<Rightarrow> config" where
  "make_config worker_id poll_interval lease_seconds max_execution_seconds use_notify reap_interval
       batch_size concurrency idle shutdown_timeout =
     (let batch = max batch_size (int concurrency)
      in \<lparr> c_worker_id = worker_id, c_lease_seconds = lease_seconds,
           c_max_execution_seconds = max_execution_seconds, c_batch_size = batch,
           c_max_outstanding = max batch (int concurrency * 2), c_concurrency = concurrency,
           c_idle = idle, c_use_notify = (if idle then False else use_notify),
           c_poll_interval = poll_interval,
           c_reap_interval = (case reap_interval of
             None \<Rightarrow> max 1 (of_int lease_seconds / 4) | Some s \<Rightarrow> s),
           c_shutdown_timeout = shutdown_timeout \<rparr>)"

subsection \<open>State\<close>

datatype slot = Waiting | Running claimed | Exited

text \<open>
  Where the main thread is. \<open>Started\<close>: it has read the generation. \<open>Looking\<close>: it waits for
  room. \<open>Room\<close>: it has seen how many more jobs it may hold. \<open>Got\<close>, \<open>Held\<close>, \<open>Putting\<close>: it has a
  batch that is not held by the heartbeat yet, not counted yet, not all in the buffer yet.
  \<open>NoBatch\<close>: it has claimed nothing, and \<open>NoWork\<close>: noted whether anything was outstanding.
  \<open>Sleeping\<close>: it is in \<^verbatim>\<open>wakeup.wait\<close>, \<open>Pausing\<close>: in the pause after a lost connection.
  \<open>Draining\<close>: it is stopping and has taken these ids out of the buffer. \<open>Crashed\<close> and \<open>Aborted\<close>:
  \<^verbatim>\<open>run_worker\<close> has raised, out of the loop or out of the handing back.
\<close>

datatype main_pc =
    Loop
  | Started
  | Looking
  | Room int
  | Got "claimed list"
  | Held "claimed list"
  | Putting "claimed list"
  | NoBatch
  | NoWork bool
  | Sleeping "real option"
  | Pausing
  | Crashed
  | Draining "int list"
  | Aborted
  | Joining
  | Stopped

text \<open>\<open>outside\<close> is the world the tasks act on, \<open>wgen\<close> the process's \<^verbatim>\<open>wakeup\<close>.\<close>

record worker =
  wdb :: db
  outside :: "string list"
  hb :: heartbeat
  ready :: "claimed option list"
  outstanding :: int
  slot_sts :: "slot list"
  main :: main_pc
  seen :: int
  stopping :: bool
  retry_delay :: real
  next_reap_at :: real
  pool_open :: bool
  wgen :: wakeup

definition start_worker :: "config \<Rightarrow> db \<Rightarrow> worker" where
  "start_worker c d =
     \<lparr> wdb = d, outside = [],
       hb = new_heartbeat (c_worker_id c) (c_lease_seconds c) (of_int (c_lease_seconds c) / 3) (c_idle c),
       ready = [], outstanding = 0, slot_sts = replicate (c_concurrency c) Waiting,
       main = Loop, seen = 0, stopping = False, retry_delay = RECONNECT_MIN_DELAY, next_reap_at = 0,
       pool_open = (\<not> c_idle c), wgen = initial_wakeup \<rparr>"

subsection \<open>What is in hand\<close>

fun batch_of :: "main_pc \<Rightarrow> claimed list" where
  "batch_of (Got rows) = rows"
| "batch_of (Held rows) = rows"
| "batch_of (Putting rows) = rows"
| "batch_of _ = []"

fun running_of :: "slot \<Rightarrow> claimed list" where
  "running_of (Running j) = [j]"
| "running_of _ = []"

definition buffered :: "worker \<Rightarrow> claimed list" where
  "buffered s = List.map_filter id (ready s)"

definition running_in :: "slot list \<Rightarrow> claimed list" where
  "running_in ss = concat (map running_of ss)"

definition running :: "worker \<Rightarrow> claimed list" where
  "running s = running_in (slot_sts s)"

text \<open>Every job this process has claimed and neither finished nor handed back.\<close>

definition in_hand :: "worker \<Rightarrow> claimed list" where
  "in_hand s = batch_of (main s) @ buffered s @ running s"

subsection \<open>The pieces of a step\<close>

text \<open>\<^verbatim>\<open>wait_for_job\<close>: what a call that has waited for \<open>waited\<close> seconds returns now, if it does.\<close>

definition wait_for_job :: "bool \<Rightarrow> real \<Rightarrow> real \<Rightarrow> bool option" where
  "wait_for_job notified timeout waited =
     (if notified then Some True else if timeout \<le> waited then Some False else None)"

text \<open>
  The state a slot is in after a run that raised, or returned; and its \<^verbatim>\<open>finally\<close> block, which
  wakes an idle worker at the end of a burst.
\<close>

definition after_job :: "exn option \<Rightarrow> slot" where
  "after_job x = (case x of None \<Rightarrow> Waiting | Some y \<Rightarrow> if is_exception y then Waiting else Exited)"

definition slot_finally :: "config \<Rightarrow> claimed option \<Rightarrow> worker \<Rightarrow> worker" where
  "slot_finally c j s =
     (let n = outstanding s - 1
      in s\<lparr>outstanding := n,
           wgen := (if c_idle c \<and> n = 0 \<and> j \<noteq> None then wake (wgen s) else wgen s)\<rparr>)"

text \<open>Where the loop uses the claim connection, and what may have landed when that fails.\<close>

definition using_db :: "config \<Rightarrow> main_pc \<Rightarrow> bool" where
  "using_db c m \<longleftrightarrow> m = Started \<or> (\<exists>r. m = Room r) \<or> m = NoWork True \<and> (c_idle c \<or> c_use_notify c) \<or>
     m = NoWork False \<and> c_idle c"

inductive landed :: "config \<Rightarrow> worker \<Rightarrow> db \<Rightarrow> bool" for c s where
  nothing: "landed c s (wdb s)"
| half_swept: "main s = Started \<Longrightarrow> scan_ok e \<Longrightarrow>
    reap_dead e DEFAULT_REAP_BATCH (wdb s) = Inr (n, d') \<Longrightarrow> landed c s (conn_commit d')"
| swept: "main s = Started \<Longrightarrow> scan_ok e1 \<Longrightarrow> scan_ok e2 \<Longrightarrow>
    reap_expired_jobs e1 e2 DEFAULT_REAP_BATCH (wdb s) = Inr (n, d') \<Longrightarrow> landed c s d'"
| claimed: "main s = Room r \<Longrightarrow> scan_ok e \<Longrightarrow>
    claim_jobs e (c_worker_id c) (c_lease_seconds c) (min r (c_batch_size c)) (wdb s) = Inr (rows, d') \<Longrightarrow>
    landed c s d'"

subsection \<open>Steps\<close>

text \<open>
  \<open>str_of\<close> and \<open>reg\<close> are the parameters of \<open>run_job\<close>. \<open>fresh\<close> is a switch for reasoning: when
  it is set, a claim never returns a job that is still in hand. The program cannot rule that out: a
  lease that lapses is reaped, and the same worker may be the one to claim the job again.
\<close>

inductive worker_step :: "(exn \<Rightarrow> string) \<Rightarrow> code registry \<Rightarrow> config \<Rightarrow> bool \<Rightarrow> worker \<Rightarrow> worker \<Rightarrow> bool"
  for str_of reg c fresh where
  read_seen: "main s = Loop \<Longrightarrow> \<not> stopping s \<Longrightarrow>
    worker_step str_of reg c fresh s (s\<lparr>main := Started, seen := current (wgen s)\<rparr>)"
| no_sweep: "main s = Started \<Longrightarrow> mt < next_reap_at s \<Longrightarrow>
    worker_step str_of reg c fresh s (s\<lparr>main := Looking\<rparr>)"
| sweep: "main s = Started \<Longrightarrow> next_reap_at s \<le> mt \<Longrightarrow> mt \<le> mt' \<Longrightarrow> scan_ok e1 \<Longrightarrow> scan_ok e2 \<Longrightarrow>
    reap_expired_jobs e1 e2 DEFAULT_REAP_BATCH (wdb s) = Inr (n, d') \<Longrightarrow>
    worker_step str_of reg c fresh s
      (s\<lparr>main := Looking, wdb := d', next_reap_at := mt' + c_reap_interval c\<rparr>)"
| room: "main s = Looking \<Longrightarrow> outstanding s < c_max_outstanding c \<Longrightarrow>
    worker_step str_of reg c fresh s (s\<lparr>main := Room (c_max_outstanding c - outstanding s)\<rparr>)"
| claim: "main s = Room r \<Longrightarrow> scan_ok e \<Longrightarrow>
    claim_jobs e (c_worker_id c) (c_lease_seconds c) (min r (c_batch_size c)) (wdb s) = Inr (rows, d') \<Longrightarrow>
    rows \<noteq> [] \<Longrightarrow> fresh \<longrightarrow> fst ` set rows \<inter> fst ` set (in_hand s) = {} \<Longrightarrow>
    worker_step str_of reg c fresh s
      (s\<lparr>main := Got rows, wdb := d', retry_delay := RECONNECT_MIN_DELAY\<rparr>)"
| claim_none: "main s = Room r \<Longrightarrow> scan_ok e \<Longrightarrow>
    claim_jobs e (c_worker_id c) (c_lease_seconds c) (min r (c_batch_size c)) (wdb s) = Inr ([], d') \<Longrightarrow>
    worker_step str_of reg c fresh s
      (s\<lparr>main := NoBatch, wdb := d', retry_delay := RECONNECT_MIN_DELAY\<rparr>)"
| hold_batch: "main s = Got rows \<Longrightarrow>
    worker_step str_of reg c fresh s
      (s\<lparr>main := Held rows, hb := hold mt (map fst rows) None (hb s), pool_open := True\<rparr>)"
| count_batch: "main s = Held rows \<Longrightarrow>
    worker_step str_of reg c fresh s
      (s\<lparr>main := Putting rows, outstanding := outstanding s + int (length rows)\<rparr>)"
| put: "main s = Putting (j # rows) \<Longrightarrow>
    worker_step str_of reg c fresh s (s\<lparr>main := Putting rows, ready := ready s @ [Some j]\<rparr>)"
| all_put: "main s = Putting [] \<Longrightarrow> worker_step str_of reg c fresh s (s\<lparr>main := Loop\<rparr>)"
| count_none: "main s = NoBatch \<Longrightarrow>
    worker_step str_of reg c fresh s (s\<lparr>main := NoWork (outstanding s = 0)\<rparr>)"
| idle_sleep: "main s = NoWork nothing_outstanding \<Longrightarrow> c_idle c \<Longrightarrow>
    seconds_until_due e (wdb s) = (secs, d') \<Longrightarrow> timeout = idle_timeout secs \<Longrightarrow>
    worker_step str_of reg c fresh s (s\<lparr>main := Sleeping timeout, wdb := d',
      next_reap_at := (case secs of None \<Rightarrow> next_reap_at s | Some x \<Rightarrow> if x \<le> 0 then 0 else next_reap_at s),
      pool_open := (pool_open s \<and> \<not> (nothing_outstanding \<and> long_sleep timeout))\<rparr>)"
| woken: "main s = Sleeping timeout \<Longrightarrow> wait_returns (seen s) timeout slept (wgen s) \<Longrightarrow>
    worker_step str_of reg c fresh s (s\<lparr>main := Loop\<rparr>)"
| listened: "main s = NoWork True \<Longrightarrow> \<not> c_idle c \<Longrightarrow> c_use_notify c \<Longrightarrow>
    wait_for_job notified (c_poll_interval c) waited = Some b \<Longrightarrow>
    worker_step str_of reg c fresh s (s\<lparr>main := Loop\<rparr>)"
| polled: "main s = NoWork True \<Longrightarrow> \<not> c_idle c \<Longrightarrow> \<not> c_use_notify c \<Longrightarrow>
    pause_returns (c_poll_interval c) (Some (stopping s)) slept \<Longrightarrow>
    worker_step str_of reg c fresh s (s\<lparr>main := Loop\<rparr>)"
| slots_busy: "main s = NoWork False \<Longrightarrow> \<not> c_idle c \<Longrightarrow>
    worker_step str_of reg c fresh s (s\<lparr>main := Loop\<rparr>)"
| lost_connection: "using_db c (main s) \<Longrightarrow> landed c s d' \<Longrightarrow>
    worker_step str_of reg c fresh s (s\<lparr>main := Pausing, wdb := d'\<rparr>)"
| retry: "main s = Pausing \<Longrightarrow> pause_returns (retry_delay s) (Some (stopping s)) slept \<Longrightarrow>
    worker_step str_of reg c fresh s
      (s\<lparr>main := Loop, retry_delay := next_retry_delay (retry_delay s)\<rparr>)"
| crash: "using_db c (main s) \<Longrightarrow> landed c s d' \<Longrightarrow>
    worker_step str_of reg c fresh s (s\<lparr>main := Crashed, wdb := d'\<rparr>)"
| take: "k < length (slot_sts s) \<Longrightarrow> slot_sts s ! k = Waiting \<Longrightarrow> ready s = Some j # rest \<Longrightarrow>
    worker_step str_of reg c fresh s (s\<lparr>ready := rest, slot_sts := (slot_sts s)[k := Running j]\<rparr>)"
| started: "k < length (slot_sts s) \<Longrightarrow> slot_sts s ! k = Running j \<Longrightarrow>
    worker_step str_of reg c fresh s (s\<lparr>hb := hold mt [fst j] (Some m) (hb s)\<rparr>)"
| finish: "k < length (slot_sts s) \<Longrightarrow> slot_sts s ! k = Running j \<Longrightarrow>
    others_run reg (re_during E) \<Longrightarrow> others_run reg (re_after E) \<Longrightarrow>
    run_job str_of reg E mt j (c_worker_id c) (c_lease_seconds c) (c_max_execution_seconds c)
      (Some (hb s)) \<lparr> pdb = wdb s, world = outside s, wakes = wgen s \<rparr> = (x, Some h, p) \<Longrightarrow>
    worker_step str_of reg c fresh s
      (slot_finally c (Some j) (s\<lparr>slot_sts := (slot_sts s)[k := after_job x], hb := h,
        wdb := pdb p, outside := world p, wgen := wakes p\<rparr>))"
| dismissed: "k < length (slot_sts s) \<Longrightarrow> slot_sts s ! k = Waiting \<Longrightarrow> ready s = None # rest \<Longrightarrow>
    worker_step str_of reg c fresh s
      (slot_finally c None (s\<lparr>ready := rest, slot_sts := (slot_sts s)[k := Exited]\<rparr>))"
| beats: "main s \<noteq> Stopped \<Longrightarrow> beat e mt fails (hb s) (wdb s) = (d', closes) \<Longrightarrow>
    worker_step str_of reg c fresh s (s\<lparr>wdb := d'\<rparr>)"
| others: "others_run reg f \<Longrightarrow>
    worker_step str_of reg c fresh s (s\<lparr>wdb := f (wdb s), outside := ws, wgen := (wake ^^ n) (wgen s)\<rparr>)"
| stop: "worker_step str_of reg c fresh s (s\<lparr>stopping := True\<rparr>)"
| break_loop: "main s = Loop \<or> main s = Looking \<or> main s = Room r \<Longrightarrow> stopping s \<Longrightarrow>
    worker_step str_of reg c fresh s (s\<lparr>main := Draining []\<rparr>)"
| drain: "main s = Draining us \<Longrightarrow> ready s = Some j # rest \<Longrightarrow>
    worker_step str_of reg c fresh s (s\<lparr>main := Draining (us @ [fst j]), ready := rest\<rparr>)"
| hand_back: "main s = Draining us \<Longrightarrow> ready s = [] \<Longrightarrow>
    release_jobs us (c_worker_id c) (wdb s) = (n, d') \<Longrightarrow>
    worker_step str_of reg c fresh s (s\<lparr>main := Joining, hb := hb_release us (hb s), wdb := d',
      ready := replicate (length (slot_sts s)) None\<rparr>)"
| hand_back_fails: "main s = Draining us \<Longrightarrow> ready s = [] \<Longrightarrow> us \<noteq> [] \<Longrightarrow>
    d' = wdb s \<or> d' = snd (release_jobs us (c_worker_id c) (wdb s)) \<Longrightarrow>
    worker_step str_of reg c fresh s (s\<lparr>main := Joining, hb := hb_release us (hb s), wdb := d',
      ready := replicate (length (slot_sts s)) None\<rparr>)"
| hand_back_raises: "main s = Draining us \<Longrightarrow> ready s = [] \<Longrightarrow> us \<noteq> [] \<Longrightarrow>
    d' = wdb s \<or> d' = snd (release_jobs us (c_worker_id c) (wdb s)) \<Longrightarrow>
    worker_step str_of reg c fresh s (s\<lparr>main := Aborted, hb := hb_release us (hb s), wdb := d'\<rparr>)"
| joined: "main s = Joining \<Longrightarrow> set (slot_sts s) \<subseteq> {Exited} \<or> c_shutdown_timeout c \<le> waited \<Longrightarrow>
    worker_step str_of reg c fresh s (s\<lparr>main := Stopped, pool_open := False\<rparr>)"

abbreviation worker_run :: "(exn \<Rightarrow> string) \<Rightarrow> code registry \<Rightarrow> config \<Rightarrow> bool \<Rightarrow> worker \<Rightarrow> worker \<Rightarrow> bool" where
  "worker_run str_of reg c fresh \<equiv> (worker_step str_of reg c fresh)\<^sup>*\<^sup>*"

subsection \<open>What a step adds to the jobs in hand\<close>

lemma buffered_simps:
  "List.map_filter id [] = []" "List.map_filter id (None # xs) = List.map_filter id xs"
  "List.map_filter id (Some j # xs) = j # List.map_filter id xs"
  "List.map_filter id (xs @ ys) = List.map_filter id xs @ List.map_filter id ys"
  "List.map_filter id (replicate n None) = []"
  by (simp_all add: List.map_filter_def)

lemma running_none [simp]: "running_in (replicate n Waiting) = []"
  by (induction n) (simp_all add: running_in_def)

lemma set_running_update: "set (running_in (ss[k := x])) \<subseteq> set (running_of x) \<union> set (running_in ss)"
  using set_update_subset_insert [of ss k x] by (fastforce simp: running_in_def)

lemma set_running_nth: "k < length ss \<Longrightarrow> ss ! k = Running j \<Longrightarrow> j \<in> set (running_in ss)"
  unfolding running_in_def by (force simp: in_set_conv_nth)

lemma running_of_after_job [simp]: "running_of (after_job x) = []"
  by (simp add: after_job_def split: option.split)

lemma slot_finally_sel [simp]:
  "wdb (slot_finally c j s) = wdb s" "hb (slot_finally c j s) = hb s" "ready (slot_finally c j s) = ready s"
  "slot_sts (slot_finally c j s) = slot_sts s" "main (slot_finally c j s) = main s"
  "stopping (slot_finally c j s) = stopping s" "retry_delay (slot_finally c j s) = retry_delay s"
  "outstanding (slot_finally c j s) = outstanding s - 1" "pool_open (slot_finally c j s) = pool_open s"
  "seen (slot_finally c j s) = seen s"
  by (simp_all add: slot_finally_def Let_def)

lemmas in_hand_defs = in_hand_def buffered_def running_def buffered_simps

lemma in_hand_step:
  "worker_step str_of reg c fresh s s' \<Longrightarrow> j \<in> set (in_hand s') \<Longrightarrow> j \<in> set (in_hand s) \<or>
    (\<exists>e n rows. scan_ok e \<and> j \<in> set rows \<and>
      claim_jobs e (c_worker_id c) (c_lease_seconds c) n (wdb s) = Inr (rows, wdb s'))"
proof (induction rule: worker_step.induct)
  case (take k s j' rest)
  then show ?case using set_running_update [of "slot_sts s" k "Running j'"] by (auto simp: in_hand_defs)
next
  case (finish k s j' E mt x h p)
  then show ?case using set_running_update [of "slot_sts s" k "after_job x"] by (auto simp: in_hand_defs)
next
  case (dismissed k s rest)
  then show ?case using set_running_update [of "slot_sts s" k Exited] by (auto simp: in_hand_defs)
qed (auto simp: in_hand_defs)

subsection \<open>A worker is an instance of the system\<close>

lemma claim_known:
  assumes "claim_jobs e w l n d = Inr (rows, d')" "jobs_ok d" "scan_ok e" "(i, t, a) \<in> set rows"
  shows "known d' i t"
proof -
  obtain js where js: "set js \<subseteq> set (jobs d)" and rows: "mset rows = mset (map (\<lambda>j. (jid j, task j, args j)) js)"
    by (rule claim_jobsE [OF assms(1-3)]) blast
  have "set rows = (\<lambda>j. (jid j, task j, args j)) ` set js"
    using arg_cong [OF rows, of set_mset] by simp
  with assms(4) js obtain j where "j \<in> set (jobs d)" "jid j = i" "task j = t" by auto
  with assms(2) have "job_is d i t" by (auto simp: job_is_def intro: get_job_in_set)
  with assms(2) have "known d i t" by (simp add: job_is_known)
  moreover have "jobs_follow d d'"
    using upkeep_step_ok [OF upkeep_step.claim [OF assms(3,1)] assms(2)] jobs_evolve_follow by blast
  ultimately show ?thesis by (rule known_follow [rotated])
qed

lemma landed_upkeep: "landed c s d' \<Longrightarrow> upkeep_run (wdb s) d'"
proof (induction rule: landed.induct)
  case (half_swept e n d')
  then show ?case by (meson converse_rtranclp_into_rtranclp r_into_rtranclp upkeep_step.reap_dead upkeep_step.commit)
next
  case (swept e1 e2 n d')
  then show ?case by (blast intro: reap_expired_jobs_upkeep)
qed (auto intro: upkeep_step.claim)

definition worker_ok :: "worker \<Rightarrow> bool" where
  "worker_ok s \<longleftrightarrow> jobs_ok (wdb s) \<and> (\<forall>i t a. (i, t, a) \<in> set (in_hand s) \<longrightarrow> known (wdb s) i t)"

text \<open>Every rule but \<open>finish\<close> and \<open>others\<close> is upkeep.\<close>

lemma worker_step_db:
  "worker_step str_of reg c fresh s s' \<Longrightarrow>
    upkeep_run (wdb s) (wdb s') \<or>
    (\<exists>f. others_run reg f \<and> wdb s' = f (wdb s)) \<or>
    (\<exists>E mt i t a ho ws g x h p. (i, t, a) \<in> set (in_hand s) \<and> others_run reg (re_during E) \<and>
      others_run reg (re_after E) \<and> wdb s' = pdb p \<and>
      run_job str_of reg E mt (i, t, a) (c_worker_id c) (c_lease_seconds c) (c_max_execution_seconds c)
        ho \<lparr> pdb = wdb s, world = ws, wakes = g \<rparr> = (x, h, p))"
proof (induction rule: worker_step.induct)
  case (sweep s mt mt' e1 e2 n d')
  then show ?case using reap_expired_jobs_upkeep by simp
next
  case (idle_sleep s b e secs d' timeout)
  then have "upkeep_step (wdb s) d'" by (auto simp: seconds_until_due_def intro: upkeep_step.commit)
  then show ?case by auto
next
  case (lost_connection s d')
  then show ?case by (simp add: landed_upkeep)
next
  case (crash s d')
  then show ?case by (simp add: landed_upkeep)
next
  case (finish k s j E mt x h p)
  have "j \<in> set (in_hand s)" using set_running_nth [OF finish(1,2)] by (simp add: in_hand_defs)
  moreover obtain i t a where "j = (i, t, a)" by (cases j)
  ultimately show ?case using finish(3-5) by auto
next
  case (beats s e mt fails d' closes)
  then show ?case using beat_upkeep by simp
next
  case (hand_back s us n d')
  then show ?case by (auto intro: upkeep_step.release)
next
  case (hand_back_fails s us d')
  then show ?case by (auto intro!: upkeep_step.release [OF prod.collapse [symmetric]] simp del: prod.collapse)
next
  case (hand_back_raises s us d')
  then show ?case by (auto intro!: upkeep_step.release [OF prod.collapse [symmetric]] simp del: prod.collapse)
qed (auto intro: upkeep_step.claim)

lemma worker_step_sys:
  assumes "worker_step str_of reg c fresh s s'" "tasks_safe reg" "worker_ok s"
  shows "worker_ok s' \<and> (\<exists>ls A'. sys_run reg (wdb s, A) ls (wdb s', A'))"
proof -
  have ok: "jobs_ok (wdb s)" and kn: "\<And>i t a. (i, t, a) \<in> set (in_hand s) \<Longrightarrow> known (wdb s) i t"
    using assms(3) by (auto simp: worker_ok_def)
  from worker_step_db [OF assms(1)] obtain ls A' where run: "sys_run reg (wdb s, A) ls (wdb s', A')"
  proof (elim disjE exE conjE)
    assume "upkeep_run (wdb s) (wdb s')"
    with upkeep_run_sys that show ?thesis by blast
  next
    fix f assume "others_run reg f" "wdb s' = f (wdb s)"
    with others_runE [OF _ assms(2) ok] that show ?thesis by metis
  next
    fix E mt i t a ho ws g x h p
    assume "(i, t, a) \<in> set (in_hand s)" "others_run reg (re_during E)" "others_run reg (re_after E)"
      "wdb s' = pdb p" "run_job str_of reg E mt (i, t, a) (c_worker_id c) (c_lease_seconds c)
        (c_max_execution_seconds c) ho \<lparr> pdb = wdb s, world = ws, wakes = g \<rparr> = (x, h, p)"
    with run_job_run [OF assms(2) _ _ this(2,3,5), of A] ok kn that show ?thesis by auto
  qed
  have ok': "jobs_ok (wdb s')" and follow: "jobs_follow (wdb s) (wdb s')"
    using sys_run_ok [OF run assms(2)] ok by simp_all
  have "known (wdb s') i t" if "(i, t, a) \<in> set (in_hand s')" for i t a
    using in_hand_step [OF assms(1) that] kn known_follow [OF follow] claim_known [OF _ ok] by blast
  with ok' run show ?thesis by (auto simp: worker_ok_def)
qed

lemma worker_run_sys:
  assumes "worker_run str_of reg c fresh s s'" "tasks_safe reg" "worker_ok s"
  shows "worker_ok s' \<and> (\<exists>ls A'. sys_run reg (wdb s, A) ls (wdb s', A'))"
  using assms(1)
proof (induction rule: rtranclp_induct)
  case base
  show ?case using assms(3) sys_run.finish by metis
next
  case (step s1 s2)
  then obtain ls A1 where ok: "worker_ok s1" and run: "sys_run reg (wdb s, A) ls (wdb s1, A1)" by blast
  from worker_step_sys [OF step(2) assms(2) ok, of A1] sys_run_append [OF run] show ?case by blast
qed

lemma worker_ok_start: "jobs_ok d \<Longrightarrow> worker_ok (start_worker c d)"
  by (simp add: worker_ok_def start_worker_def in_hand_defs)

subsection \<open>A run\<close>

text \<open>
  One slot, two jobs: they are claimed and buffered, for the witnesses. \<open>state\<close> lists the parts of
  a worker's state that change on the way. The first job's task exits.
\<close>

definition cfg1 :: config where
  "cfg1 = make_config ''w'' 1 30 300 True None 2 1 False 30"

definition state :: "db \<Rightarrow> heartbeat \<Rightarrow> claimed option list \<Rightarrow> int \<Rightarrow> slot list \<Rightarrow> main_pc \<Rightarrow> bool \<Rightarrow> real
    \<Rightarrow> worker" where
  "state d h r n ss m stp t =
     \<lparr> wdb = d, outside = [], hb = h, ready = r, outstanding = n, slot_sts = ss, main = m, seen = 0,
       stopping = stp, retry_delay = 1, next_reap_at = t, pool_open = True, wgen = initial_wakeup \<rparr>"

definition rows1 :: "claimed list" where
  "rows1 = [(1, ''a'', []), (2, ''b'', [])]"

definition db2_both :: db where
  "db2_both = db2\<lparr>jobs := map (claim_row ''w'' 30000004) (jobs db2)\<rparr>"

definition reg_exit :: "code registry" where
  "reg_exit = [''a'' \<mapsto> \<lparr> fn = \<lparr> fname = ''a'', params = [],
      call = (\<lambda>a d ws. (Some SystemExit, d, ws)) \<rparr>,
    wants_connection = False, rt_max_attempts = None, rt_max_execution_seconds = None \<rparr>]"

abbreviation run1 :: "worker \<Rightarrow> worker \<Rightarrow> bool" where
  "run1 \<equiv> worker_run (\<lambda>_. []) reg_exit cfg1 True"

abbreviation hb0 :: heartbeat where
  "hb0 \<equiv> new_heartbeat ''w'' 30 10 False"

abbreviation hb1 :: heartbeat where
  "hb1 \<equiv> hold 0 [1, 2] None hb0"

lemma tasks_safe_reg_exit: "tasks_safe reg_exit"
  by (simp add: tasks_safe_def code_safe_def reg_exit_def jobs_evolve_frame no_success_frame)

lemma cfg1_sel [simp]:
  "c_worker_id cfg1 = ''w''" "c_lease_seconds cfg1 = 30" "c_batch_size cfg1 = 2"
  "c_max_outstanding cfg1 = 2" "c_idle cfg1 = False" "c_concurrency cfg1 = 1"
  "c_reap_interval cfg1 = 15 / 2" "c_max_execution_seconds cfg1 = 300"
  by (simp_all add: cfg1_def make_config_def)

lemma claim_both: "claim_jobs (stmt_at 4) ''w'' 30 2 db2 = Inr (rows1, db2_both)"
  by (simp add: claim_jobs_Inr_iff claim_queue_def db2_both_def db2_def due_def new_job_def rows1_def
      empty_db_def claim_row_def conn_commit_def commit_tx_def seconds_def)

lemma reap_db2: "reap_expired_jobs (stmt_at 4) (stmt_at 4) DEFAULT_REAP_BATCH db2 = Inr (0, db2)"
  by (simp add: reap_expired_jobs_def reap_dead_def reap_recover_def reap_sweep_def reap_select_def
      expired_def db2_def new_job_def empty_db_def conn_commit_def commit_tx_def DEFAULT_REAP_BATCH_def)

lemma run_snoc:
  "worker_run str_of reg c fresh s t \<Longrightarrow> worker_step str_of reg c fresh t u \<Longrightarrow> u = u' \<Longrightarrow>
   worker_run str_of reg c fresh s u'"
  by (simp add: rtranclp.rtrancl_into_rtrancl)

lemma start_cfg1: "start_worker cfg1 db2 = state db2 hb0 [] 0 [Waiting] Loop False 0"
  by (simp add: start_worker_def state_def RECONNECT_MIN_DELAY_def)

lemma state_sel [simp]:
  "wdb (state d h r n ss m stp t) = d" "hb (state d h r n ss m stp t) = h"
  "ready (state d h r n ss m stp t) = r" "outstanding (state d h r n ss m stp t) = n"
  "slot_sts (state d h r n ss m stp t) = ss" "main (state d h r n ss m stp t) = m"
  "stopping (state d h r n ss m stp t) = stp" "next_reap_at (state d h r n ss m stp t) = t"
  "outside (state d h r n ss m stp t) = []" "wgen (state d h r n ss m stp t) = initial_wakeup"
  by (simp_all add: state_def)

definition w_full :: worker where
  "w_full = state db2_both hb1 [Some (1, ''a'', []), Some (2, ''b'', [])] 2 [Waiting] Loop False (15 / 2)"

lemma run_w_full: "run1 (start_worker cfg1 db2) w_full"
proof -
  have "run1 (start_worker cfg1 db2) (state db2 hb0 [] 0 [Waiting] Started False 0)"
    unfolding start_cfg1
    by (rule run_snoc [OF rtranclp.rtrancl_refl worker_step.read_seen])
      (simp_all add: state_def current_def initial_wakeup_def)
  then have "run1 (start_worker cfg1 db2) (state db2 hb0 [] 0 [Waiting] Looking False (15 / 2))"
    by (rule run_snoc [OF _ worker_step.sweep [where ?mt = 0 and ?mt' = 0
          and ?e1.0 = "stmt_at 4" and ?e2.0 = "stmt_at 4" and n = 0 and d' = db2]])
      (simp_all add: reap_db2, simp add: state_def)
  then have "run1 (start_worker cfg1 db2) (state db2 hb0 [] 0 [Waiting] (Room 2) False (15 / 2))"
    by (rule run_snoc [OF _ worker_step.room]) (simp_all add: state_def)
  then have "run1 (start_worker cfg1 db2) (state db2_both hb0 [] 0 [Waiting] (Got rows1) False (15 / 2))"
    by (rule run_snoc [OF _ worker_step.claim [where e = "stmt_at 4" and r = 2 and rows = rows1 and d' = db2_both]])
      (simp_all add: claim_both, simp_all add: rows1_def in_hand_defs running_in_def state_def RECONNECT_MIN_DELAY_def)
  then have "run1 (start_worker cfg1 db2) (state db2_both hb1 [] 0 [Waiting] (Held rows1) False (15 / 2))"
    by (rule run_snoc [OF _ worker_step.hold_batch [where mt = 0 and rows = rows1]]) (simp_all add: rows1_def state_def)
  then have "run1 (start_worker cfg1 db2) (state db2_both hb1 [] 2 [Waiting] (Putting rows1) False (15 / 2))"
    by (rule run_snoc [OF _ worker_step.count_batch [where rows = rows1]]) (simp_all add: rows1_def state_def)
  then have "run1 (start_worker cfg1 db2)
      (state db2_both hb1 [Some (1, ''a'', [])] 2 [Waiting] (Putting [(2, ''b'', [])]) False (15 / 2))"
    by (rule run_snoc [OF _ worker_step.put]) (simp_all add: rows1_def state_def)
  then have "run1 (start_worker cfg1 db2)
      (state db2_both hb1 [Some (1, ''a'', []), Some (2, ''b'', [])] 2 [Waiting] (Putting []) False (15 / 2))"
    by (rule run_snoc [OF _ worker_step.put]) (simp_all add: state_def)
  then show ?thesis unfolding w_full_def
    by (rule run_snoc [OF _ worker_step.all_put]) (simp_all add: state_def)
qed

text \<open>Its only slot takes the first job, and dies.\<close>

definition w_stuck :: worker where
  "w_stuck = state db2_both (hb_release [1] (hold 0 [1] (Some 300) hb1)) [Some (2, ''b'', [])] 1 [Exited]
     Loop False (15 / 2)"

lemma others_run_id: "others_run reg (\<lambda>d. d)"
  unfolding others_run_def by (intro allI impI exI [of _ "[]"]) (auto intro: sys_run.finish)

lemma run_job_exits:
  "run_job str_of reg_exit env1 0 (1, ''a'', []) ''w'' 30 300 (Some hb1)
     \<lparr> pdb = d, world = [], wakes = g \<rparr> =
   (Some SystemExit, Some (hb_release [1] (hold 0 [1] (Some 300) hb1)), \<lparr> pdb = d, world = [], wakes = g \<rparr>)"
  by (simp add: run_job_def attempt_def get_registered_task_def reg_exit_def run_plain_def env1_def
      handle_exn_def is_exception_def)

lemma run_w_stuck: "run1 (start_worker cfg1 db2) w_stuck"
proof -
  have "run1 (start_worker cfg1 db2)
      (state db2_both hb1 [Some (2, ''b'', [])] 2 [slot.Running (1, ''a'', [])] Loop False (15 / 2))"
    by (rule run_snoc [OF run_w_full worker_step.take [of 0]])
      (simp_all add: w_full_def state_def)
  then show ?thesis
    by (rule run_snoc [OF _ worker_step.finish [where k = 0 and j = "(1, ''a'', [])" and E = env1 and mt = 0]])
      (simp_all add: run_job_exits, simp_all add: env1_def others_run_id [unfolded id_def [symmetric]]
        others_run_id w_stuck_def state_def slot_finally_def after_job_def is_exception_def)
qed

subsection \<open>Property\<close>



end
