(* ===== verification/Slots_Safety.thy ===== *)
theory Slots_Safety
  imports Slots
begin

section \<open>What the threads of a worker keep\<close>

text \<open>
  Backpressure, the leases of the jobs in hand, slots that die, and shutting down, over the step
  relation of \<^theory_text>\<open>Slots\<close>: one invariant per group, kept by every rule, whatever jobs do.
\<close>

subsection \<open>Lists of slots\<close>

lemma running_update:
  assumes "k < length ss"
  shows "mset (running_in (ss[k := x])) + mset (running_of (ss ! k)) =
    mset (running_in ss) + mset (running_of x)"
  using assms unfolding running_in_def
proof (induction ss arbitrary: k)
  case (Cons y ss)
  then show ?case by (cases k) (auto simp: ac_simps)
qed simp

lemma running_take:
  "k < length ss \<Longrightarrow> ss ! k = Waiting \<Longrightarrow>
   mset (running_in (ss[k := Running j])) = add_mset j (mset (running_in ss))"
  using running_update [of k ss "Running j"] by simp

lemma running_end:
  "k < length ss \<Longrightarrow> ss ! k = Running j \<Longrightarrow> running_of x = [] \<Longrightarrow>
   mset (running_in ss) = add_mset j (mset (running_in (ss[k := x])))"
  using running_update [of k ss x] by auto

lemma running_idle:
  "k < length ss \<Longrightarrow> ss ! k = Waiting \<Longrightarrow>
   mset (running_in (ss[k := Exited])) = mset (running_in ss)"
  using running_update [of k ss Exited] by simp

lemma running_length:
  "k < length ss \<Longrightarrow> ss ! k = Waiting \<Longrightarrow>
   length (running_in (ss[k := Running j])) = Suc (length (running_in ss))"
  "k < length ss \<Longrightarrow> ss ! k = Running j \<Longrightarrow> running_of x = [] \<Longrightarrow>
   length (running_in ss) = Suc (length (running_in (ss[k := x])))"
  using arg_cong [OF running_take, of k ss size j] arg_cong [OF running_end, of k ss j x size]
  by simp_all

subsection \<open>Backpressure\<close>

fun serving :: "main_pc \<Rightarrow> bool" where
  "serving (Draining us) = False"
| "serving Aborted = False"
| "serving Joining = False"
| "serving Stopped = False"
| "serving _ = True"

fun uncounted :: "main_pc \<Rightarrow> int" where
  "uncounted (Room r) = r"
| "uncounted (Got rows) = int (length rows)"
| "uncounted (Held rows) = int (length rows)"
| "uncounted _ = 0"

fun putting :: "main_pc \<Rightarrow> claimed list" where
  "putting (Putting rows) = rows"
| "putting _ = []"

fun holding_pool :: "main_pc \<Rightarrow> bool" where
  "holding_pool (Held rows) = True"
| "holding_pool (Putting rows) = True"
| "holding_pool _ = False"

definition counted :: "worker \<Rightarrow> nat" where
  "counted s = length (putting (main s)) + length (buffered s) + length (running s)"

definition cap_inv :: "config \<Rightarrow> worker \<Rightarrow> bool" where
  "cap_inv c s \<longleftrightarrow>
     1 \<le> retry_delay s \<and> retry_delay s \<le> 30 \<and>
     (serving (main s) \<longrightarrow>
        None \<notin> set (ready s) \<and> outstanding s = int (counted s) \<and>
        outstanding s + uncounted (main s) \<le> c_max_outstanding c \<and> 0 \<le> uncounted (main s) \<and>
        (main s = NoWork True \<longrightarrow> outstanding s = 0) \<and>
        (outstanding s \<noteq> 0 \<or> holding_pool (main s) \<longrightarrow> pool_open s))"

lemmas worker_defs = cap_inv_def counted_def buffered_def running_def buffered_simps

lemma claim_batch:
  assumes "claim_jobs e w l n d = Inr (rows, d')" "jobs_ok d" "scan_ok e"
  shows "int (length rows) \<le> n" "distinct (map fst rows)"
proof -
  obtain js where n: "0 \<le> n" and js: "js = take (nat n) (claim_queue e (jobs d))"
    and dist: "distinct (map jid js)" and rows: "mset rows = mset (map (\<lambda>j. (jid j, task j, args j)) js)"
    by (rule claim_jobsE [OF assms])
  have "length rows = length js" using arg_cong [OF rows, of size] by simp
  with n js show "int (length rows) \<le> n" by simp
  have "mset (map fst rows) = mset (map jid js)"
    using arg_cong [OF rows, of "image_mset fst"] by (simp add: image_mset.compositionality comp_def)
  with dist show "distinct (map fst rows)" by (metis mset_eq_imp_distinct_iff)
qed

lemma cap_inv_step:
  "worker_step str_of reg c fresh s s' \<Longrightarrow> jobs_ok (wdb s) \<Longrightarrow> cap_inv c s \<Longrightarrow> cap_inv c s'"
proof (induction rule: worker_step.induct)
  case (claim s r e rows d')
  from claim_batch [OF claim(3,6,2)] claim show ?case by (auto simp: worker_defs RECONNECT_MIN_DELAY_def)
next
  case (take k s j rest)
  with running_length(1) [OF take(1,2), of j] show ?case by (auto simp: worker_defs)
next
  case (finish k s j E mt x h p)
  with running_length(2) [OF finish(1,2) running_of_after_job [of x]] show ?case by (auto simp: worker_defs)
next
  case (retry s slept)
  then show ?case by (auto simp: worker_defs next_retry_delay_def RECONNECT_MAX_DELAY_def)
qed (auto simp: worker_defs using_db_def RECONNECT_MIN_DELAY_def)

text \<open>An invariant that holds at the start and is kept where the table is well formed, holds.\<close>

lemma worker_run_induct:
  assumes "worker_run str_of reg c fresh (start_worker c d) s" "tasks_safe reg" "jobs_ok d"
    and "P (start_worker c d)"
    and "\<And>s s'. worker_step str_of reg c fresh s s' \<Longrightarrow> jobs_ok (wdb s) \<Longrightarrow> P s \<Longrightarrow> P s'"
  shows "P s"
  using assms(1)
proof (induction rule: rtranclp_induct)
  case (step s1 s2)
  from worker_run_sys [OF step(1) assms(2) worker_ok_start [OF assms(3)]]
  have "jobs_ok (wdb s1)" by (simp add: worker_ok_def)
  with step(2,3) assms(5) show ?case by blast
qed (rule assms(4))

lemma cap_inv_run:
  assumes "worker_run str_of reg c fresh (start_worker c d) s" "tasks_safe reg" "jobs_ok d"
    and "0 \<le> c_max_outstanding c"
  shows "cap_inv c s"
  using assms(1-3)
proof (rule worker_run_induct)
  show "cap_inv c (start_worker c d)"
    using assms(4) by (simp add: worker_defs start_worker_def RECONNECT_MIN_DELAY_def)
qed (rule cap_inv_step)

lemma length_in_hand:
  "int (length (in_hand s)) = int (counted s) + (case main s of
     Got rows \<Rightarrow> int (length rows) | Held rows \<Rightarrow> int (length rows) | _ \<Rightarrow> 0)"
  by (cases "main s") (simp_all add: in_hand_def counted_def)

lemma cap_inv_in_hand:
  assumes "cap_inv c s" "serving (main s)"
  shows "int (length (in_hand s)) \<le> c_max_outstanding c"
    "batch_of (main s) = [] \<Longrightarrow> outstanding s = int (length (in_hand s))"
    "running s \<noteq> [] \<Longrightarrow> pool_open s" "0 \<le> outstanding s"
proof -
  have inv: "outstanding s = int (counted s)" "outstanding s + uncounted (main s) \<le> c_max_outstanding c"
    "0 \<le> uncounted (main s)" "outstanding s \<noteq> 0 \<longrightarrow> pool_open s"
    using assms by (simp_all add: cap_inv_def)
  then show "int (length (in_hand s)) \<le> c_max_outstanding c"
    unfolding length_in_hand by (cases "main s") simp_all
  show "batch_of (main s) = [] \<Longrightarrow> outstanding s = int (length (in_hand s))"
    unfolding length_in_hand inv(1) by (cases "main s") simp_all
  show "running s \<noteq> [] \<Longrightarrow> pool_open s"
    using inv(1,4) by (cases "running s") (auto simp: counted_def)
  show "0 \<le> outstanding s" using inv(1) by simp
qed

text \<open>
  C22: backpressure. While it serves, a worker never has more jobs in hand, claimed and neither
  finished nor handed back, than the larger of its batch size and twice its slots, however
  slots and the main thread interleave; once a batch is in the buffer \<open>outstanding\<close> is exactly
  their number; no slot runs a job without the slots' pool; and the pause between reconnects
  stays between one and thirty seconds.
\<close>

theorem worker_backpressure:
  assumes "tasks_safe reg" and "jobs_ok d"
    and "c = make_config w poll l maxexec ntf ri bs conc idle timeout"
    and "worker_run str_of reg c fresh (start_worker c d) s" and "serving (main s)"
  shows "int (length (in_hand s)) \<le> max (max bs (int conc)) (2 * int conc) \<and>
    0 \<le> outstanding s \<and> (batch_of (main s) = [] \<longrightarrow> outstanding s = int (length (in_hand s))) \<and>
    (running s \<noteq> [] \<longrightarrow> pool_open s) \<and> 1 \<le> retry_delay s \<and> retry_delay s \<le> 30"
proof -
  have max: "c_max_outstanding c = max (max bs (int conc)) (2 * int conc)"
    using assms(3) by (simp add: make_config_def Let_def mult.commute)
  then have inv: "cap_inv c s" by (intro cap_inv_run [OF assms(4,1,2)]) simp
  then have "1 \<le> retry_delay s" "retry_delay s \<le> 30" by (simp_all add: cap_inv_def)
  with cap_inv_in_hand [OF inv assms(5)] max show ?thesis by simp
qed

lemma worker_backpressure_witness:
  "int (length (in_hand w_full)) \<le> max (max 2 (int 1)) (2 * int 1) \<and> outstanding w_full = 2"
  using worker_backpressure [OF tasks_safe_reg_exit jobs_ok_db2 cfg1_def run_w_full] by (simp add: w_full_def)

subsection \<open>Everything in hand is held\<close>

fun held_batch :: "main_pc \<Rightarrow> claimed list" where
  "held_batch (Held rows) = rows"
| "held_batch (Putting rows) = rows"
| "held_batch _ = []"

lemma held_batch_of: "set (held_batch m) \<subseteq> set (batch_of m)"
  by (cases m) auto

definition held_inv :: "worker \<Rightarrow> bool" where
  "held_inv s \<longleftrightarrow> (serving (main s) \<longrightarrow>
     distinct (map fst (in_hand s)) \<and>
     (\<forall>j \<in> set (held_batch (main s)) \<union> set (buffered s). deadline_of (hb s) (fst j) = Some None) \<and>
     (\<forall>j \<in> set (running s). deadline_of (hb s) (fst j) \<noteq> None))"

lemma held_invD:
  assumes "held_inv s" "serving (main s)"
  shows "distinct (map fst (in_hand s))"
    "j \<in> set (held_batch (main s)) \<Longrightarrow> deadline_of (hb s) (fst j) = Some None"
    "j \<in> set (buffered s) \<Longrightarrow> deadline_of (hb s) (fst j) = Some None"
    "j \<in> set (running s) \<Longrightarrow> deadline_of (hb s) (fst j) \<noteq> None"
  using assms by (simp_all add: held_inv_def)

lemma held_inv_cong:
  assumes "held_inv s" "serving (main s') \<Longrightarrow> serving (main s)"
    and "mset (in_hand s') = mset (in_hand s)" "hb s' = hb s"
    and "set (held_batch (main s')) \<subseteq> set (held_batch (main s)) \<union> set (buffered s)"
    and "set (buffered s') \<subseteq> set (held_batch (main s)) \<union> set (buffered s)"
    and "set (running s') \<subseteq> set (running s) \<union> set (buffered s)"
  shows "held_inv s'"
proof (cases "serving (main s')")
  case True
  note inv = held_invD [OF assms(1) assms(2) [OF True]]
  have "distinct (map fst (in_hand s'))" using distinct_map_perm [OF assms(3), of fst] inv(1) by simp
  moreover have "deadline_of (hb s') (fst j) = Some None"
    if "j \<in> set (held_batch (main s')) \<or> j \<in> set (buffered s')" for j
    using that assms(4-6) inv(2,3) [of j] by auto
  moreover have "deadline_of (hb s') (fst j) \<noteq> None" if "j \<in> set (running s')" for j
    using that assms(4,7) inv(3,4) [of j] by auto
  ultimately show ?thesis by (auto simp: held_inv_def)
qed (simp add: held_inv_def)

lemma distinct_add_mset:
  assumes "mset xs = add_mset j (mset ys)" "distinct (map g xs)"
  shows "distinct (map g ys)" "x \<in> set ys \<Longrightarrow> g x \<noteq> g j"
proof -
  have "mset xs = mset (j # ys)" using assms(1) by simp
  from distinct_map_perm [OF this, of g] assms(2)
  show "distinct (map g ys)" "x \<in> set ys \<Longrightarrow> g x \<noteq> g j"
    by (auto simp: rev_image_eqI)
qed

lemma held_inv_end:
  assumes "held_inv s" "k < length (slot_sts s)" "slot_sts s ! k = Running j" "running_of x = []"
    "slot_sts s' = (slot_sts s)[k := x]" "main s' = main s" "ready s' = ready s"
    "\<And>i. deadline_of (hb s') i = (if i = fst j then None else deadline_of (hb s) i)"
  shows "held_inv s'"
proof (cases "serving (main s)")
  case True
  have r: "mset (running s) = add_mset j (mset (running s'))"
    using running_end [OF assms(2-4)] by (simp add: running_def assms(5))
  then have "mset (in_hand s) = add_mset j (mset (in_hand s'))"
    by (simp add: in_hand_def buffered_def assms(6,7))
  note d = distinct_add_mset [OF this, of fst]
  have old: "distinct (map fst (in_hand s))" using assms(1) True by (simp add: held_inv_def)
  have sub: "set (running s') \<subseteq> set (running s)" using arg_cong [OF r, of set_mset] by auto
  have ne: "fst j' \<noteq> fst j" if "j' \<in> set (held_batch (main s)) \<union> set (buffered s) \<union> set (running s')" for j'
    by (rule d(2) [OF old]) (use that held_batch_of in \<open>auto simp: in_hand_def assms(6,7) buffered_def\<close>)
  show ?thesis
    using assms(1) d(1) [OF old] ne sub True
    by (auto simp: held_inv_def assms(6,8) buffered_def assms(7))
qed (simp add: held_inv_def assms)

lemma held_inv_step:
  "worker_step str_of reg c fresh s s' \<Longrightarrow> jobs_ok (wdb s) \<Longrightarrow> fresh \<Longrightarrow> held_inv s \<Longrightarrow> held_inv s'"
proof (induction rule: worker_step.induct)
  case (claim s r e rows d')
  from claim_batch(2) [OF claim(3,6,2)] claim show ?case
    by (auto simp: held_inv_def in_hand_def buffered_def running_def)
next
  case (hold_batch s rows mt)
  then show ?case
    by (auto simp: held_inv_def in_hand_def buffered_def running_def deadline_of_hold)
next
  case (put s j rows)
  then show ?case by - (rule held_inv_cong [of s], auto simp: in_hand_def worker_defs)
next
  case (take k s j rest)
  have "set (running_in ((slot_sts s)[k := Running j])) = insert j (set (running_in (slot_sts s)))"
    using arg_cong [OF running_take [OF take(1,2), of j], of set_mset] by simp
  with take running_take [OF take(1,2), of j] show ?case
    by - (rule held_inv_cong [of s], auto simp: in_hand_def worker_defs)
next
  case (started k s j mt m)
  show ?case
  proof (cases "serving (main s)")
    case True
    have r: "mset (running s) = add_mset j (mset (running_in ((slot_sts s)[k := Waiting])))"
      using running_end [OF started(1,2), of Waiting] by (simp add: running_def)
    then have "mset (in_hand s) = add_mset j (mset (batch_of (main s) @ buffered s @
        running_in ((slot_sts s)[k := Waiting])))"
      by (simp add: in_hand_def)
    note d = distinct_add_mset(2) [OF this held_invD(1) [OF started(5) True]]
    have ne: "fst j' \<noteq> fst j" if "j' \<in> set (held_batch (main s)) \<union> set (buffered s)" for j'
      by (rule d) (use that held_batch_of in auto)
    show ?thesis
      using started(5) ne True
      by (auto simp: held_inv_def in_hand_def buffered_def running_def deadline_of_hold)
  qed (simp add: held_inv_def)
next
  case (finish k s j E mt x h p)
  from run_job_deadlines [OF finish(5)] show ?case
    by - (rule held_inv_end [OF finish(8,1,2) running_of_after_job [of x]], auto)
next
  case (dismissed k s rest)
  have "set (running_in ((slot_sts s)[k := Exited])) = set (running_in (slot_sts s))"
    using arg_cong [OF running_idle [OF dismissed(1,2)], of set_mset] by simp
  with dismissed running_idle [OF dismissed(1,2)] show ?case
    by - (rule held_inv_cong [of s], auto simp: in_hand_def worker_defs)
qed (auto simp: held_inv_def in_hand_def buffered_def running_def using_db_def)

lemma held_inv_run:
  assumes "worker_run str_of reg c True (start_worker c d) s" "tasks_safe reg" "jobs_ok d"
  shows "held_inv s"
  using assms
proof (rule worker_run_induct)
  show "held_inv (start_worker c d)" by (simp add: held_inv_def in_hand_def worker_defs start_worker_def)
qed (erule held_inv_step, assumption, rule TrueI)

text \<open>
  C23: what a worker claims it keeps, for as long as no job is handed to it a second time while it
  still has it. Every job that waits in the buffer, or is on its way there, is held by the
  heartbeat without a deadline, its execution clock not running; every job a slot runs is
  held; and no job is in hand twice.
\<close>

theorem waiting_jobs_held:
  assumes "tasks_safe reg" and "jobs_ok d"
    and "worker_run str_of reg c True (start_worker c d) s" and "serving (main s)"
  shows "distinct (map fst (in_hand s)) \<and>
    (\<forall>j \<in> set (held_batch (main s)) \<union> set (buffered s). deadline_of (hb s) (fst j) = Some None) \<and>
    (\<forall>j \<in> set (running s). deadline_of (hb s) (fst j) \<noteq> None)"
  using held_inv_run [OF assms(3,1,2)] assms(4) by (simp add: held_inv_def)

lemma waiting_jobs_held_witness: "deadline_of (hb w_full) 2 = Some None"
  using waiting_jobs_held [OF tasks_safe_reg_exit jobs_ok_db2 run_w_full]
  by (auto simp: w_full_def buffered_def List.map_filter_def)

subsection \<open>Slots that die\<close>

lemma stopping_mono: "worker_step str_of reg c fresh s s' \<Longrightarrow> stopping s \<Longrightarrow> stopping s'"
  by (induction rule: worker_step.induct) simp_all

lemma stopping_mono_run: "worker_run str_of reg c fresh s s' \<Longrightarrow> stopping s \<Longrightarrow> stopping s'"
  by (induction rule: rtranclp_induct) (auto dest: stopping_mono)

lemma serving_or_stopping_step:
  "worker_step str_of reg c fresh s s' \<Longrightarrow> serving (main s) \<or> stopping s \<Longrightarrow> serving (main s') \<or> stopping s'"
  by (induction rule: worker_step.induct) auto

lemma serving_or_stopping:
  "worker_run str_of reg c fresh s s' \<Longrightarrow> serving (main s) \<or> stopping s \<Longrightarrow> serving (main s') \<or> stopping s'"
  by (induction rule: rtranclp_induct) (auto dest: serving_or_stopping_step)

lemma all_exited_step:
  "worker_step str_of reg c fresh s s' \<Longrightarrow> set (slot_sts s) \<subseteq> {Exited} \<Longrightarrow> serving (main s) \<Longrightarrow>
   set (slot_sts s') \<subseteq> {Exited} \<and> (\<exists>more. ready s' = ready s @ more) \<or> stopping s'"
proof (induction rule: worker_step.induct)
  case (take k s j rest)
  then have "slot_sts s ! k \<in> {Exited}" using nth_mem by blast
  with take show ?case by simp
next
  case (finish k s j E mt x h p)
  then have "slot_sts s ! k \<in> {Exited}" using nth_mem by blast
  with finish show ?case by simp
next
  case (dismissed k s rest)
  then have "slot_sts s ! k \<in> {Exited}" using nth_mem by blast
  with dismissed show ?case by simp
qed auto

lemma all_exited_run:
  assumes "worker_run str_of reg c fresh s s'" "set (slot_sts s) \<subseteq> {Exited}"
    "serving (main s) \<or> stopping s" "\<not> stopping s'"
  shows "set (slot_sts s') \<subseteq> {Exited} \<and> (\<exists>more. ready s' = ready s @ more)"
  using assms
proof (induction rule: rtranclp_induct)
  case (step s1 s2)
  then have go: "\<not> stopping s1" using stopping_mono by blast
  have "serving (main s1) \<or> stopping s1" by (rule serving_or_stopping [OF step(1,5)])
  with all_exited_step [OF step(2)] step.IH [OF step(4,5) go] go step(6) show ?case
    by (metis append_assoc)
qed simp


end
