(* ===== verification/Shutdown.thy ===== *)
theory Shutdown
  imports Slots_Safety
begin

section \<open>Shutting a worker down\<close>

text \<open>
  The end of \<^verbatim>\<open>run_worker\<close>: what is handed back, that the slots are dismissed, that stopping
  takes a bounded number of steps and does not get stuck, and what an exception leaves behind.
\<close>

fun joining :: "main_pc \<Rightarrow> bool" where
  "joining Joining = True"
| "joining Stopped = True"
| "joining _ = False"

subsection \<open>Slots that have not ended\<close>

definition alive :: "slot list \<Rightarrow> nat" where
  "alive ss = length (filter (\<lambda>x. x \<noteq> Exited) ss)"

lemma alive_update:
  "k < length ss \<Longrightarrow> alive (ss[k := x]) + (if ss ! k = Exited then 0 else 1) =
     alive ss + (if x = Exited then 0 else 1)"
proof (induction ss arbitrary: k)
  case (Cons y ss)
  show ?case
  proof (cases k)
    case 0
    then show ?thesis by (simp add: alive_def)
  next
    case (Suc k')
    with Cons.IH [of k'] Cons.prems show ?thesis by (simp add: alive_def split: if_splits)
  qed
qed simp

text \<open>Every slot still there has its dismissal waiting for it.\<close>

definition join_inv :: "worker \<Rightarrow> bool" where
  "join_inv s \<longleftrightarrow> (joining (main s) \<longrightarrow> set (ready s) \<subseteq> {None} \<and> alive (slot_sts s) \<le> length (ready s))"

lemma join_inv_step: "worker_step str_of reg c fresh s s' \<Longrightarrow> join_inv s \<Longrightarrow> join_inv s'"
proof (induction rule: worker_step.induct)
  case (take k s j rest)
  then show ?case by (auto simp: join_inv_def)
next
  case (finish k s j E mt x h p)
  with alive_update [of k "slot_sts s" "after_job x"] show ?case
    by (auto simp: join_inv_def split: if_splits)
next
  case (dismissed k s rest)
  with alive_update [of k "slot_sts s" Exited] show ?case by (auto simp: join_inv_def)
next
  case (hand_back s us n d')
  then show ?case by (auto simp: join_inv_def alive_def)
next
  case (hand_back_fails s us d')
  then show ?case by (auto simp: join_inv_def alive_def)
qed (auto simp: join_inv_def)

lemma joining_step: "worker_step str_of reg c fresh s s' \<Longrightarrow> joining (main s) \<Longrightarrow> joining (main s')"
  by (induction rule: worker_step.induct) (auto simp: using_db_def)

lemma joining_run:
  "worker_run str_of reg c fresh s s' \<Longrightarrow> join_inv s \<and> joining (main s) \<Longrightarrow> join_inv s' \<and> joining (main s')"
  by (induction rule: rtranclp_induct) (auto dest: joining_step join_inv_step)

subsection \<open>Handing back\<close>

lemma release_row_not_owned [simp]: "\<not> owned w (release_row j)"
  by (simp add: owned_def row_defs)

lemma not_held_release:
  assumes "i \<in> set us" "release_jobs us w d = (n, d')"
  shows "not_held w i d'"
proof (cases "get_job i d")
  case None
  with assms show ?thesis
    by (cases "us = []") (auto simp: release_jobs_def Let_def not_held_def releas.get_job_write)
next
  case (Some j)
  then have "jid j = i" by (auto dest: get_job_SomeD)
  with Some assms show ?thesis
    by (cases "us = []"; cases "owned w j")
      (auto simp: release_jobs_def Let_def not_held_def releas.get_job_write)
qed

text \<open>
  C25: shutting down. Handing back leaves none of the jobs that were taken out of the buffer owned
  by the worker or held by its heartbeat. From then on no slot starts a job, and there is a
  dismissal in the buffer for every slot that has not ended, so each ends once its job does.
\<close>

theorem shutdown_hands_back:
  assumes "main s = Draining us" and "ready s = []"
    and "release_jobs us (c_worker_id c) (wdb s) = (n, d')"
    and "s1 = s\<lparr>main := Joining, hb := hb_release us (hb s), wdb := d',
      ready := replicate (length (slot_sts s)) None\<rparr>" and "worker_run str_of reg c fresh s1 s2"
  shows "worker_step str_of reg c fresh s s1 \<and>
    (\<forall>i \<in> set us. not_held (c_worker_id c) i (wdb s1) \<and> deadline_of (hb s1) i = None) \<and>
    set (ready s2) \<subseteq> {None} \<and> alive (slot_sts s2) \<le> length (ready s2)"
proof -
  have "join_inv s1 \<and> joining (main s1)"
    by (simp add: assms(4) join_inv_def alive_def set_replicate_conv_if)
  from joining_run [OF assms(5) this] have "set (ready s2) \<subseteq> {None}" "alive (slot_sts s2) \<le> length (ready s2)"
    by (simp_all add: join_inv_def)
  moreover have "worker_step str_of reg c fresh s s1"
    unfolding assms(4) by (rule worker_step.hand_back [OF assms(1-3)])
  ultimately show ?thesis
    using not_held_release [OF _ assms(3)] by (simp add: assms(4) deadline_of_release)
qed

text \<open>The example worker, told to stop.\<close>

definition w_stopping :: worker where
  "w_stopping = state db2_both hb1 [Some (1, ''a'', []), Some (2, ''b'', [])] 2 [Waiting] Loop True (15 / 2)"

lemma run_w_stopping: "run1 (start_worker cfg1 db2) w_stopping"
  by (rule run_snoc [OF run_w_full worker_step.stop]) (simp add: w_full_def w_stopping_def state_def)

lemma w_stopping_breaks:
  "worker_step (\<lambda>_. []) reg_exit cfg1 True w_stopping
     (state db2_both hb1 [Some (1, ''a'', []), Some (2, ''b'', [])] 2 [Waiting] (Draining []) True (15 / 2))"
proof -
  have "main w_stopping = Loop" "stopping w_stopping" by (simp_all add: w_stopping_def)
  from worker_step.break_loop [OF disjI1 [OF this(1)] this(2)] show ?thesis
    by (simp add: w_stopping_def state_def)
qed

lemma shutdown_hands_back_witness:
  "not_held ''w'' 1 (snd (release_jobs [1, 2] ''w'' db2_both)) \<and>
   worker_run (\<lambda>_. []) reg_exit cfg1 True w_stopping
     (state db2_both hb1 [] 2 [Waiting] (Draining [1, 2]) True (15 / 2))"
proof -
  let ?s = "state db2_both hb1 [] 2 [Waiting] (Draining [1, 2]) True (15 / 2)"
  have "run1 w_stopping
      (state db2_both hb1 [Some (1, ''a'', []), Some (2, ''b'', [])] 2 [Waiting] (Draining []) True (15 / 2))"
    by (rule r_into_rtranclp, rule w_stopping_breaks)
  then have "run1 w_stopping
      (state db2_both hb1 [Some (2, ''b'', [])] 2 [Waiting] (Draining [1]) True (15 / 2))"
    by (rule run_snoc [OF _ worker_step.drain [where j = "(1, ''a'', [])"]])
      (simp_all add: state_def)
  then have run: "run1 w_stopping ?s"
    by (rule run_snoc [OF _ worker_step.drain [where j = "(2, ''b'', [])"]])
      (simp_all add: state_def)
  have "release_jobs [1, 2] (c_worker_id cfg1) (wdb ?s) =
      (fst (release_jobs [1, 2] ''w'' db2_both), snd (release_jobs [1, 2] ''w'' db2_both))"
    by simp
  from shutdown_hands_back [OF _ _ this refl rtranclp.rtrancl_refl] run
  show ?thesis by (simp add: state_def)
qed

subsection \<open>Stopping ends\<close>

text \<open>Runs that count the steps of the main thread: every one of them changes where it is.\<close>

inductive main_moves :: "(exn \<Rightarrow> string) \<Rightarrow> code registry \<Rightarrow> config \<Rightarrow> bool \<Rightarrow> nat \<Rightarrow> worker \<Rightarrow> worker \<Rightarrow> bool"
  for str_of reg c fresh where
  start: "main_moves str_of reg c fresh 0 s s"
| move: "main_moves str_of reg c fresh n s s1 \<Longrightarrow> worker_step str_of reg c fresh s1 s2 \<Longrightarrow>
    main s2 \<noteq> main s1 \<Longrightarrow> main_moves str_of reg c fresh (Suc n) s s2"
| other: "main_moves str_of reg c fresh n s s1 \<Longrightarrow> worker_step str_of reg c fresh s1 s2 \<Longrightarrow>
    main s2 = main s1 \<Longrightarrow> main_moves str_of reg c fresh n s s2"

lemma main_moves_run: "main_moves str_of reg c fresh n s s' \<Longrightarrow> worker_run str_of reg c fresh s s'"
  by (induction rule: main_moves.induct) (auto intro: rtranclp.rtrancl_into_rtrancl)

text \<open>How many steps the main thread has left once it is to stop.\<close>

fun pc_rank :: "config \<Rightarrow> main_pc \<Rightarrow> nat" where
  "pc_rank c Started = 9 + 2 * nat (c_max_outstanding c)"
| "pc_rank c Looking = 8 + 2 * nat (c_max_outstanding c)"
| "pc_rank c (Room r) = 7 + 2 * nat r"
| "pc_rank c (Got rows) = 6 + 2 * length rows"
| "pc_rank c (Held rows) = 5 + 2 * length rows"
| "pc_rank c (Putting rows) = 4 + 2 * length rows"
| "pc_rank c NoBatch = 6"
| "pc_rank c (NoWork nothing) = 5"
| "pc_rank c (Sleeping timeout) = 4"
| "pc_rank c Pausing = 4"
| "pc_rank c Loop = 3"
| "pc_rank c (Draining us) = 2"
| "pc_rank c Joining = 1"
| "pc_rank c _ = 0"

definition stop_rank :: "config \<Rightarrow> worker \<Rightarrow> nat" where
  "stop_rank c s = pc_rank c (main s) + (if joining (main s) then 0 else length (ready s))"

lemma serving_room:
  "cap_inv c s \<Longrightarrow> serving (main s) \<Longrightarrow>
   0 \<le> outstanding s \<and> outstanding s \<le> c_max_outstanding c \<and> uncounted (main s) \<le> c_max_outstanding c"
  using cap_inv_in_hand(4) by (fastforce simp: cap_inv_def)

lemma stop_rank_step:
  "worker_step str_of reg c fresh s s' \<Longrightarrow> stopping s \<Longrightarrow> cap_inv c s \<Longrightarrow> jobs_ok (wdb s) \<Longrightarrow>
   stop_rank c s' \<le> stop_rank c s \<and> (main s' \<noteq> main s \<longrightarrow> stop_rank c s' < stop_rank c s)"
proof (induction rule: worker_step.induct)
  case (room s)
  then show ?case using serving_room [of c s] by (auto simp: stop_rank_def)
next
  case (claim s r e rows d')
  from claim_batch(1) [OF claim(3,8,2)] claim show ?case by (auto simp: stop_rank_def)
next
  case (lost_connection s d')
  then show ?case by (auto simp: stop_rank_def using_db_def)
next
  case (crash s d')
  then show ?case by (auto simp: stop_rank_def using_db_def)
next
  case (break_loop s r)
  then show ?case by (auto simp: stop_rank_def)
qed (auto simp: stop_rank_def)

lemma main_moves_bound:
  assumes "main_moves str_of reg c fresh n s s'" "tasks_safe reg" "stopping s" "cap_inv c s" "worker_ok s"
  shows "n + stop_rank c s' \<le> stop_rank c s \<and> stopping s' \<and> cap_inv c s'"
proof -
  have step: "stopping s2 \<and> cap_inv c s2 \<and> stop_rank c s2 \<le> stop_rank c s1 \<and>
      (main s2 \<noteq> main s1 \<longrightarrow> stop_rank c s2 < stop_rank c s1)"
    if "main_moves str_of reg c fresh n s s1" "worker_step str_of reg c fresh s1 s2" "stopping s1" "cap_inv c s1"
      "worker_ok s" for n s s1 s2
  proof -
    have "jobs_ok (wdb s1)"
      using worker_run_sys [OF main_moves_run [OF that(1)] assms(2) that(5)] by (simp add: worker_ok_def)
    with that show ?thesis
      using stopping_mono cap_inv_step stop_rank_step [OF that(2)] by blast
  qed
  show ?thesis
    using assms(1,3-5)
  proof (induction rule: main_moves.induct)
    case (move n s s1 s2)
    with step [OF move(1,2)] show ?case by auto
  next
    case (other n s s1 s2)
    with step [OF other(1,2)] show ?case by auto
  qed simp
qed

lemma no_dismissal_step:
  "worker_step str_of reg c fresh s s' \<Longrightarrow> (\<not> joining (main s) \<longrightarrow> None \<notin> set (ready s)) \<Longrightarrow>
   \<not> joining (main s') \<longrightarrow> None \<notin> set (ready s')"
  by (induction rule: worker_step.induct) (auto simp: using_db_def)

lemma no_dismissal:
  assumes "worker_run str_of reg c fresh (start_worker c d) s"
  shows "\<not> joining (main s) \<longrightarrow> None \<notin> set (ready s)"
  using assms
  by (induction rule: rtranclp_induct) (simp_all add: start_worker_def no_dismissal_step)

text \<open>Where the main thread can always go on, once it is to stop.\<close>

lemma stopping_moves:
  assumes "stopping s" "\<not> joining (main s) \<longrightarrow> None \<notin> set (ready s)"
    and stuck: "\<And>s'. worker_step str_of reg c fresh s s' \<Longrightarrow> main s' = main s"
  shows "main s \<in> {Stopped, Aborted, Crashed} \<or> main s = Sleeping None \<and> generation (wgen s) = seen s"
proof (cases "main s")
  case Loop
  with stuck [OF worker_step.break_loop] assms(1) show ?thesis by simp
next
  case Started
  with stuck [OF worker_step.no_sweep [of s "next_reap_at s - 1"]] show ?thesis by simp
next
  case Looking
  with stuck [OF worker_step.break_loop] assms(1) show ?thesis by simp
next
  case (Room r)
  with stuck [OF worker_step.break_loop] assms(1) show ?thesis by simp
next
  case (Got rows)
  with stuck [OF worker_step.hold_batch] show ?thesis by fastforce
next
  case (Held rows)
  with stuck [OF worker_step.count_batch] show ?thesis by fastforce
next
  case (Putting rows)
  with stuck [OF worker_step.all_put] stuck [OF worker_step.put] show ?thesis
    by (cases rows) fastforce+
next
  case NoBatch
  with stuck [OF worker_step.count_none] show ?thesis by simp
next
  case (NoWork nothing)
  show ?thesis
  proof (cases "c_idle c")
    case True
    with NoWork stuck [OF worker_step.idle_sleep [OF NoWork True prod.collapse [symmetric] refl]]
    show ?thesis by simp
  next
    case idle: False
    show ?thesis
    proof (cases nothing)
      case True
      with NoWork have nw: "main s = NoWork True" by simp
      have "wait_for_job True (c_poll_interval c) 0 = Some True" by (simp add: wait_for_job_def)
      moreover have "pause_returns (c_poll_interval c) (Some (stopping s)) 0"
        using assms(1) by (simp add: pause_returns_def)
      ultimately show ?thesis
        using stuck [OF worker_step.listened [OF nw idle]]
          stuck [OF worker_step.polled [OF nw idle]] NoWork
        by (cases "c_use_notify c") auto
    next
      case False
      with stuck [OF worker_step.slots_busy] NoWork idle show ?thesis by simp
    qed
  qed
next
  case (Sleeping timeout)
  show ?thesis
  proof (cases "wait_returns (seen s) timeout (case timeout of None \<Rightarrow> 0 | Some t \<Rightarrow> t) (wgen s)")
    case True
    with stuck [OF worker_step.woken [OF Sleeping True]] Sleeping show ?thesis by simp
  next
    case False
    with Sleeping show ?thesis by (simp add: wait_returns_def split: option.splits)
  qed
next
  case Pausing
  with stuck [OF worker_step.retry [of s 0]] assms(1) show ?thesis by (simp add: pause_returns_def)
next
  case (Draining us)
  show ?thesis
  proof (cases "ready s")
    case Nil
    with stuck [OF worker_step.hand_back [OF Draining Nil prod.collapse [symmetric]]] Draining
    show ?thesis by simp
  next
    case (Cons x rest)
    with assms(2) Draining obtain j where "ready s = Some j # rest" by (cases x) auto
    with stuck [OF worker_step.drain [OF Draining this]] Draining show ?thesis by simp
  qed
next
  case Joining
  with stuck [OF worker_step.joined [of s c "c_shutdown_timeout c"]] show ?thesis by simp
qed simp_all

lemma stop_rank_serving:
  assumes "cap_inv c s" "serving (main s)"
  shows "int (stop_rank c s) \<le> 9 + 3 * c_max_outstanding c"
proof -
  have out: "outstanding s = int (counted s)" "outstanding s + uncounted (main s) \<le> c_max_outstanding c"
    "0 \<le> uncounted (main s)" "None \<notin> set (ready s)"
    using assms by (simp_all add: cap_inv_def)
  have "length (List.map_filter id xs) = length xs" if "None \<notin> set xs" for xs :: "claimed option list"
    using that
  proof (induction xs)
    case (Cons x xs)
    then show ?case by (cases x) (simp_all add: buffered_simps)
  qed (simp add: buffered_simps)
  from this [OF out(4)] have "length (buffered s) = length (ready s)" by (simp add: buffered_def)
  with out show ?thesis by (cases "main s") (simp_all add: stop_rank_def counted_def)
qed

text \<open>
  C26: stopping ends. From the moment a worker is told to stop, its main thread takes at most nine
  steps and three for every job it may hold, whatever its slots and other processes do meanwhile; and it
  is never stuck before it has stopped or raised, except asleep without a limit when nobody has called
  \<open>wake\<close> since it looked.
\<close>

theorem shutdown_ends:
  assumes "tasks_safe reg" and "jobs_ok d"
    and "c = make_config w poll l maxexec ntf ri bs conc idle timeout"
    and "worker_run str_of reg c fresh (start_worker c d) s" and "serving (main s)" and "stopping s"
    and "main_moves str_of reg c fresh n s s'"
  shows "int n \<le> 9 + 3 * c_max_outstanding c \<and>
    (main s' \<in> {Stopped, Aborted, Crashed} \<or> main s' = Sleeping None \<and> generation (wgen s') = seen s' \<or>
     (\<exists>s''. worker_step str_of reg c fresh s' s'' \<and> main s'' \<noteq> main s'))"
proof -
  have "0 \<le> c_max_outstanding c" using assms(3) by (simp add: make_config_def Let_def)
  then have inv: "cap_inv c s" by (rule cap_inv_run [OF assms(4,1,2)])
  have "worker_ok s" using worker_run_sys [OF assms(4,1) worker_ok_start [OF assms(2)]] by simp
  from main_moves_bound [OF assms(7,1,6) inv this]
  have n: "n \<le> stop_rank c s" and go: "stopping s'" by auto
  have "int (stop_rank c s) \<le> 9 + 3 * c_max_outstanding c"
    using inv assms(5) by (rule stop_rank_serving)
  moreover have "worker_run str_of reg c fresh (start_worker c d) s'"
    using assms(4) main_moves_run [OF assms(7)] by (rule rtranclp_trans)
  from stopping_moves [OF go no_dismissal [OF this]] have "main s' \<in> {Stopped, Aborted, Crashed} \<or>
     main s' = Sleeping None \<and> generation (wgen s') = seen s' \<or>
     (\<exists>s''. worker_step str_of reg c fresh s' s'' \<and> main s'' \<noteq> main s')"
    by blast
  ultimately show ?thesis using n by simp
qed

lemma shutdown_ends_witness:
  "(1 :: int) \<le> 9 + 3 * c_max_outstanding cfg1"
proof -
  have "main_moves (\<lambda>_. []) reg_exit cfg1 True (Suc 0) w_stopping
     (state db2_both hb1 [Some (1, ''a'', []), Some (2, ''b'', [])] 2 [Waiting] (Draining []) True (15 / 2))"
    by (rule main_moves.move [OF main_moves.start w_stopping_breaks]) (simp add: w_stopping_def)
  from shutdown_ends [OF tasks_safe_reg_exit jobs_ok_db2 cfg1_def run_w_stopping _ _ this]
  show ?thesis by (simp add: w_stopping_def)
qed

subsection \<open>Crashing\<close>

text \<open>
  An exception that is not an \<^verbatim>\<open>OperationalError\<close> leaves the loop without shutting anything
  down. The slots go on with what is in the buffer, but nothing dismisses them afterwards, and
  their pool stays open: an application whose runner restarts the worker keeps them for ever.
\<close>

lemma crash_leaks:
  assumes "worker_run str_of reg c fresh s s'" "main s = Crashed"
  shows "main s' = Crashed \<and> pool_open s' = pool_open s \<and> set (ready s') \<subseteq> set (ready s)"
  using assms
proof (induction rule: rtranclp_induct)
  case (step s1 s2)
  from step(2) have "main s1 = Crashed \<Longrightarrow>
      main s2 = Crashed \<and> pool_open s2 = pool_open s1 \<and> set (ready s2) \<subseteq> set (ready s1)"
    by (induction rule: worker_step.induct) (auto simp: using_db_def)
  with step.IH [OF step(4)] show ?case by auto
qed simp
end
