(* ===== verification/Clock.thy ===== *)
theory Clock
  imports Schema
begin

section \<open>Times on the clock\<close>

text \<open>
  The clock half of \<^verbatim>\<open>src/durable_queue/scheduler.py\<close>: \<^verbatim>\<open>Clock\<close>,
  \<^verbatim>\<open>daily\<close>, \<^verbatim>\<open>hourly\<close>, \<^verbatim>\<open>_on\<close>, \<^verbatim>\<open>_clock_at_or_before\<close> and
  \<^verbatim>\<open>_clock_after\<close>. An instant is an integer of microseconds since 1970 in UTC, a date the
  number of days since then. What a time zone is follows Python's \<^verbatim>\<open>zoneinfo\<close>: an offset,
  and the instants at which another takes over. The tz database and the parser of
  \<^verbatim>\<open>time.fromisoformat\<close> are parameters. Python's range of years is not modelled.
\<close>

definition MINUTE :: micros where "MINUTE = 60 * 1000000"
definition HOUR :: micros where "HOUR = 60 * MINUTE"
definition DAY :: micros where "DAY = 24 * HOUR"

lemma DAY_pos [simp]: "0 < DAY" and HOUR_pos [simp]: "0 < HOUR" and MINUTE_pos [simp]: "0 < MINUTE"
  by (simp_all add: DAY_def HOUR_def MINUTE_def)

lemma DAY_nonzero [simp]: "DAY \<noteq> 0"
  by (rule less_imp_neq [OF DAY_pos, symmetric])

subsection \<open>Time zones\<close>

record zone =
  base_offset :: micros
  transitions :: "(micros \<times> micros) list"

type_synonym tzdb = "string \<Rightarrow> zone option"

definition zone_info :: "tzdb \<Rightarrow> string \<Rightarrow> zone result" where
  "zone_info tz name =
     (case tz name of None \<Rightarrow> Inl (ZoneInfoNotFoundError name) | Some z \<Rightarrow> Inr z)"

text \<open>The offset at an instant, and the one \<^verbatim>\<open>zoneinfo\<close> gives a wall time with
  \<^verbatim>\<open>fold=0\<close>: a transition counts once the wall clock has passed both its readings.\<close>

fun offset_from :: "micros \<Rightarrow> (micros \<times> micros) list \<Rightarrow> micros \<Rightarrow> micros" where
  "offset_from off [] t = off"
| "offset_from off ((u, off') # ts) t = (if u \<le> t then offset_from off' ts t else off)"

fun wall_offset_from :: "micros \<Rightarrow> (micros \<times> micros) list \<Rightarrow> micros \<Rightarrow> micros" where
  "wall_offset_from off [] w = off"
| "wall_offset_from off ((u, off') # ts) w =
     (if u + max off off' \<le> w then wall_offset_from off' ts w else off)"

definition utcoffset :: "zone \<Rightarrow> micros \<Rightarrow> micros" where
  "utcoffset z t = offset_from (base_offset z) (transitions z) t"

definition wall_utcoffset :: "zone \<Rightarrow> micros \<Rightarrow> micros" where
  "wall_utcoffset z w = wall_offset_from (base_offset z) (transitions z) w"

definition offsets :: "zone \<Rightarrow> micros set" where
  "offsets z = insert (base_offset z) (snd ` set (transitions z))"

lemma finite_offsets [simp]: "finite (offsets z)" "offsets z \<noteq> {}"
  by (simp_all add: offsets_def)

lemma wall_utcoffset_in: "wall_utcoffset z w \<in> offsets z"
proof -
  have "wall_offset_from off ts w \<in> insert off (snd ` set ts)" for off ts
    by (induction off ts w rule: wall_offset_from.induct) auto
  then show ?thesis by (simp add: wall_utcoffset_def offsets_def)
qed

lemma wall_utcoffset_bounds:
  "wall_utcoffset z w \<le> Max (offsets z)" "Min (offsets z) \<le> wall_utcoffset z w"
  using wall_utcoffset_in by simp_all

subsection \<open>Clocks\<close>

record clock =
  ck_every :: every
  ck_at :: micros
  ck_zone :: string

definition daily :: "(string \<Rightarrow> micros result) \<Rightarrow> tzdb \<Rightarrow> string \<Rightarrow> string \<Rightarrow> clock result" where
  "daily fromisoformat tz at_str tz_name =
     bind_result (zone_info tz tz_name) (\<lambda>_.
       bind_result (fromisoformat at_str) (\<lambda>hm.
         Inr \<lparr> ck_every = Day, ck_at = hm, ck_zone = tz_name \<rparr>))"

definition hourly :: "int \<Rightarrow> clock result" where
  "hourly minute =
     (if \<not> (0 \<le> minute \<and> minute < 60)
      then Inl (ValueError (''minute must be 0-59, not '' @ int_str minute))
      else Inr \<lparr> ck_every = Hour, ck_at = minute * MINUTE, ck_zone = ''UTC'' \<rparr>)"

text \<open>\<^verbatim>\<open>_on\<close>, given the zone; the date of an instant on the zone's clock; and
  \<^verbatim>\<open>replace(minute=.., second=0, microsecond=0)\<close>.\<close>

definition on :: "zone \<Rightarrow> micros \<Rightarrow> int \<Rightarrow> micros" where
  "on z hm d = (let w = d * DAY + hm in w - wall_utcoffset z w)"

definition local_date :: "zone \<Rightarrow> micros \<Rightarrow> int" where
  "local_date z t = (t + utcoffset z t) div DAY"

definition at_minute :: "micros \<Rightarrow> micros \<Rightarrow> micros" where
  "at_minute hm t = t div HOUR * HOUR + (hm div MINUTE) mod 60 * MINUTE"

lemma on_lower: "t < on z hm d \<Longrightarrow> (t + Min (offsets z) - hm) div DAY < d \<or> (t + Min (offsets z) - hm) div DAY = d"
proof -
  assume "t < on z hm d"
  then have "t + Min (offsets z) - hm < d * DAY"
    using wall_utcoffset_bounds(2) [of z "d * DAY + hm"] by (simp add: on_def Let_def)
  then have "(t + Min (offsets z) - hm) div DAY \<le> (d * DAY) div DAY"
    by (intro zdiv_mono1) simp_all
  then show ?thesis by auto
qed

lemma on_upper: "on z hm d \<le> t \<Longrightarrow> d \<le> (t + Max (offsets z) - hm) div DAY"
proof -
  assume "on z hm d \<le> t"
  then have "d * DAY \<le> t + Max (offsets z) - hm"
    using wall_utcoffset_bounds(1) [of z "d * DAY + hm"] by (simp add: on_def Let_def)
  then have "(d * DAY) div DAY \<le> (t + Max (offsets z) - hm) div DAY"
    by (intro zdiv_mono1) simp_all
  then show ?thesis by simp
qed

text \<open>The two loops over days.\<close>

function day_at_or_before :: "zone \<Rightarrow> micros \<Rightarrow> micros \<Rightarrow> int \<Rightarrow> int" where
  "day_at_or_before z hm t d = (if t < on z hm d then day_at_or_before z hm t (d - 1) else d)"
  by pat_completeness auto

termination
proof (relation "measure (\<lambda>(z, hm, t, d). nat (d + 1 - (t + Min (offsets z) - hm) div DAY))")
  fix z hm t d
  assume "t < on z hm d"
  then have "(t + Min (offsets z) - hm) div DAY \<le> d" using on_lower by force
  then show "((z, hm, t, d - 1), (z, hm, t, d)) \<in>
      measure (\<lambda>(z, hm, t, d). nat (d + 1 - (t + Min (offsets z) - hm) div DAY))" by simp
qed simp

function day_after :: "zone \<Rightarrow> micros \<Rightarrow> micros \<Rightarrow> int \<Rightarrow> int" where
  "day_after z hm t d = (if on z hm d \<le> t then day_after z hm t (d + 1) else d)"
  by pat_completeness auto

termination
proof (relation "measure (\<lambda>(z, hm, t, d). nat ((t + Max (offsets z) - hm) div DAY + 1 - d))")
  fix z hm t d
  assume "on z hm d \<le> t"
  then have "d \<le> (t + Max (offsets z) - hm) div DAY" by (rule on_upper)
  then show "((z, hm, t, d + 1), (z, hm, t, d)) \<in>
      measure (\<lambda>(z, hm, t, d). nat ((t + Max (offsets z) - hm) div DAY + 1 - d))" by simp
qed simp

declare day_at_or_before.simps [simp del] day_after.simps [simp del]

definition clock_at_or_before :: "tzdb \<Rightarrow> clock \<Rightarrow> micros \<Rightarrow> micros result" where
  "clock_at_or_before tz c t =
     (if ck_every c = Hour
      then let slot = at_minute (ck_at c) t in Inr (if slot \<le> t then slot else slot - HOUR)
      else bind_result (zone_info tz (ck_zone c)) (\<lambda>z.
        Inr (on z (ck_at c) (day_at_or_before z (ck_at c) t (local_date z t)))))"

definition clock_after :: "tzdb \<Rightarrow> clock \<Rightarrow> micros \<Rightarrow> micros result" where
  "clock_after tz c t =
     (if ck_every c = Hour
      then bind_result (clock_at_or_before tz c t) (\<lambda>s. Inr (s + HOUR))
      else bind_result (zone_info tz (ck_zone c)) (\<lambda>z.
        Inr (on z (ck_at c) (day_after z (ck_at c) t (local_date z t)))))"

subsection \<open>The loops find the nearest day\<close>

lemma day_after_spec:
  "t < on z hm (day_after z hm t d) \<and> d \<le> day_after z hm t d \<and>
   (\<forall>d'. d \<le> d' \<longrightarrow> d' < day_after z hm t d \<longrightarrow> on z hm d' \<le> t)"
proof (induction z hm t d rule: day_after.induct)
  case (1 z hm t d)
  show ?case
  proof (cases "on z hm d \<le> t")
    case True
    then have eq: "day_after z hm t d = day_after z hm t (d + 1)" by (simp add: day_after.simps [of z hm t d])
    note IH = 1 [OF True]
    have "on z hm d' \<le> t" if "d \<le> d'" "d' < day_after z hm t (d + 1)" for d'
      using that IH True by (cases "d' = d") auto
    with IH show ?thesis unfolding eq by auto
  next
    case False
    then show ?thesis by (simp add: day_after.simps [of z hm t d])
  qed
qed

lemma day_at_or_before_spec:
  "on z hm (day_at_or_before z hm t d) \<le> t \<and> day_at_or_before z hm t d \<le> d \<and>
   (\<forall>d'. d' \<le> d \<longrightarrow> day_at_or_before z hm t d < d' \<longrightarrow> t < on z hm d')"
proof (induction z hm t d rule: day_at_or_before.induct)
  case (1 z hm t d)
  show ?case
  proof (cases "t < on z hm d")
    case True
    then have eq: "day_at_or_before z hm t d = day_at_or_before z hm t (d - 1)"
      by (simp add: day_at_or_before.simps [of z hm t d])
    note IH = 1 [OF True]
    have "t < on z hm d'" if "d' \<le> d" "day_at_or_before z hm t (d - 1) < d'" for d'
      using that IH True by (cases "d' = d") auto
    with IH show ?thesis unfolding eq by auto
  next
    case False
    then show ?thesis by (simp add: day_at_or_before.simps [of z hm t d])
  qed
qed

text \<open>Offsets less than a day apart, as in every zone of the tz database on one side of the date
  line: then the days' instants are in order.\<close>

definition spread_ok :: "zone \<Rightarrow> bool" where
  "spread_ok z \<longleftrightarrow> Max (offsets z) - Min (offsets z) < DAY"

lemma on_mono_step:
  assumes "spread_ok z"
  shows "on z hm d < on z hm (d + 1)"
proof -
  have "(d + 1) * DAY = d * DAY + DAY" by (simp add: distrib_right)
  moreover note wall_utcoffset_bounds(1) [of z "(d + 1) * DAY + hm"]
    wall_utcoffset_bounds(2) [of z "d * DAY + hm"] assms [unfolded spread_ok_def]
  ultimately show ?thesis unfolding on_def Let_def by linarith
qed

lemma on_mono: "spread_ok z \<Longrightarrow> d < d' \<Longrightarrow> on z hm d < on z hm d'"
proof (induction "nat (d' - d)" arbitrary: d')
  case (Suc n)
  then show ?case
  proof (cases "d' = d + 1")
    case False
    then have "on z hm d < on z hm (d' - 1)"
      using Suc.prems Suc.hyps(2) by (intro Suc.hyps(1)) auto
    also have "\<dots> < on z hm d'" using on_mono_step [OF Suc.prems(1), of hm "d' - 1"] by simp
    finally show ?thesis .
  qed (simp add: on_mono_step)
qed simp

lemma on_mono_le: "spread_ok z \<Longrightarrow> d \<le> d' \<Longrightarrow> on z hm d \<le> on z hm d'"
  using on_mono [of z d d' hm] by (cases "d = d'") auto

lemma at_minute_bounds: "t div HOUR * HOUR \<le> at_minute hm t" "at_minute hm t < t div HOUR * HOUR + HOUR"
  "at_minute hm t mod HOUR = (hm div MINUTE) mod 60 * MINUTE"
proof -
  have b: "0 \<le> (hm div MINUTE) mod 60 * MINUTE" "(hm div MINUTE) mod 60 * MINUTE < HOUR"
    using pos_mod_bound [of 60 "hm div MINUTE"] by (simp_all add: HOUR_def MINUTE_def)
  then show "t div HOUR * HOUR \<le> at_minute hm t" "at_minute hm t < t div HOUR * HOUR + HOUR"
    by (simp_all add: at_minute_def)
  show "at_minute hm t mod HOUR = (hm div MINUTE) mod 60 * MINUTE"
    unfolding at_minute_def using b by (simp add: mod_pos_pos_trivial)
qed

lemma hour_slot:
  assumes "ck_every c = Hour" "clock_at_or_before tz c t = Inr s"
  shows "s \<le> t" "t < s + HOUR" "s mod HOUR = (ck_at c div MINUTE) mod 60 * MINUTE"
proof -
  have s: "s = (if at_minute (ck_at c) t \<le> t then at_minute (ck_at c) t else at_minute (ck_at c) t - HOUR)"
    using assms by (simp add: clock_at_or_before_def Let_def)
  have t: "t div HOUR * HOUR \<le> t" "t < t div HOUR * HOUR + HOUR"
    using div_mult_mod_eq [of t HOUR] pos_mod_sign [of HOUR t] pos_mod_bound [of HOUR t] HOUR_pos
    by linarith+
  note m = at_minute_bounds [where t = t and hm = "ck_at c"]
  show "s \<le> t" "t < s + HOUR" using s t m(1,2) by (auto split: if_splits)
  show "s mod HOUR = (ck_at c div MINUTE) mod 60 * MINUTE"
    using m(3) by (auto simp: s)
qed

lemma hour_slot_unique:
  assumes "ck_every c = Hour" "clock_at_or_before tz c t = Inr s"
  shows "clock_at_or_before tz c s = Inr s"
proof -
  obtain s' where s': "clock_at_or_before tz c s = Inr s'"
    using assms(1) by (simp add: clock_at_or_before_def Let_def)
  note h = hour_slot [OF assms(1) s'] hour_slot(3) [OF assms]
  have "(s - s') mod HOUR = 0" using h(3,4) by (simp add: mod_diff_eq [symmetric, of s s'])
  moreover have "(s - s') mod HOUR = s - s'" using h(1,2) by (intro mod_pos_pos_trivial) simp_all
  ultimately show ?thesis using s' by simp
qed

text \<open>No day's time lies between the slot found and the instant.\<close>

lemma nearest_before:
  assumes "spread_ok z" "t < on z hm (local_date z t + 1)" "on z hm d \<le> t"
  shows "on z hm d \<le> on z hm (day_at_or_before z hm t (local_date z t))"
proof -
  note b = day_at_or_before_spec [of z hm t "local_date z t"]
  have "\<not> local_date z t + 1 \<le> d"
    using on_mono_le [OF assms(1), of "local_date z t + 1" d hm] assms(2,3) by force
  then have "d \<le> local_date z t" by simp
  then have "d \<le> day_at_or_before z hm t (local_date z t)"
    using b assms(3) not_le by metis
  then show ?thesis by (rule on_mono_le [OF assms(1)])
qed

text \<open>So the run after the slot found comes after the instant.\<close>

definition steady :: "tzdb \<Rightarrow> clock \<Rightarrow> micros \<Rightarrow> bool" where
  "steady tz c t \<longleftrightarrow> ck_every c = Day \<longrightarrow>
     (case tz (ck_zone c) of None \<Rightarrow> False
      | Some z \<Rightarrow> spread_ok z \<and> t < on z (ck_at c) (local_date z t + 1))"

lemma run_after_slot:
  assumes "steady tz c t"
  obtains s n where "clock_at_or_before tz c t = Inr s" "clock_after tz c s = Inr n" "s \<le> t" "t < n"
proof (cases "ck_every c")
  case Hour
  then obtain s where s: "clock_at_or_before tz c t = Inr s"
    by (simp add: clock_at_or_before_def Let_def)
  note h = hour_slot [OF Hour s] hour_slot_unique [OF Hour s]
  have "clock_after tz c s = Inr (s + HOUR)" using Hour h(4) by (simp add: clock_after_def)
  with s h show ?thesis by (intro that)
next
  case Day
  with assms obtain z where z: "tz (ck_zone c) = Some z" "spread_ok z"
    "t < on z (ck_at c) (local_date z t + 1)"
    by (auto simp: steady_def split: option.splits)
  define s where "s = on z (ck_at c) (day_at_or_before z (ck_at c) t (local_date z t))"
  define n where "n = on z (ck_at c) (day_after z (ck_at c) s (local_date z s))"
  have "clock_at_or_before tz c t = Inr s" "clock_after tz c s = Inr n"
    using Day z(1) by (simp_all add: clock_at_or_before_def clock_after_def zone_info_def s_def n_def)
  moreover have "s \<le> t" unfolding s_def using day_at_or_before_spec by blast
  moreover have "s < n" unfolding n_def using day_after_spec by blast
  then have "\<not> n \<le> t" using nearest_before [OF z(2,3)] unfolding n_def s_def by force
  then have "t < n" by simp
  ultimately show ?thesis by (intro that) simp_all
qed

text \<open>Two instants that are both past each other's slot have the same one.\<close>

lemma multiple_eq:
  fixes s s' p :: int
  assumes "s < s' + p" "s' < s + p" "s mod p = s' mod p"
  shows "s = s'"
proof -
  have "p dvd s - s'" using assms(3) by (simp add: mod_eq_dvd_iff)
  moreover have "\<bar>s - s'\<bar> < p" using assms(1,2) by linarith
  ultimately show ?thesis using dvd_imp_le_int [of "s - s'" p] by (cases "s = s'") auto
qed

lemma same_slot_clock:
  assumes "steady tz c t" "steady tz c t'"
    and "clock_at_or_before tz c t = Inr s" "clock_at_or_before tz c t' = Inr s'"
    and "s \<le> t'" "s' \<le> t"
  shows "s = s'"
proof (cases "ck_every c")
  case Hour
  note h = hour_slot [OF Hour assms(3)] hour_slot [OF Hour assms(4)]
  show ?thesis by (rule multiple_eq [of s s' HOUR]) (use h assms(5,6) in simp_all)
next
  case Day
  then obtain z where z: "tz (ck_zone c) = Some z" "spread_ok z"
    "t < on z (ck_at c) (local_date z t + 1)" "t' < on z (ck_at c) (local_date z t' + 1)"
    using assms(1,2) by (auto simp: steady_def split: option.splits)
  let ?day = "\<lambda>t. day_at_or_before z (ck_at c) t (local_date z t)"
  have "s = on z (ck_at c) (?day t)" "s' = on z (ck_at c) (?day t')"
    using assms(3,4) Day z(1) by (simp_all add: clock_at_or_before_def zone_info_def)
  with nearest_before [OF z(2,3), of "?day t'"] nearest_before [OF z(2,4), of "?day t"] assms(5,6)
  show ?thesis by simp
qed

subsection \<open>Properties: clocks\<close>


text \<open>New York, from the start of 2024.\<close>

definition new_york :: zone where
  "new_york = \<lparr> base_offset = - 5 * HOUR,
     transitions = [(19792 * DAY + 7 * HOUR, - 4 * HOUR), (20030 * DAY + 6 * HOUR, - 5 * HOUR)] \<rparr>"

definition tz_ny :: tzdb where
  "tz_ny = [''America/New_York'' \<mapsto> new_york]"


subsection \<open>Daylight saving\<close>

text \<open>A transition with none within two days of it, in a zone less than a day from UTC.\<close>

definition last_offset :: "micros \<Rightarrow> (micros \<times> micros) list \<Rightarrow> micros" where
  "last_offset off pre = (if pre = [] then off else snd (last pre))"

definition isolated :: "zone \<Rightarrow> (micros \<times> micros) list \<Rightarrow> micros \<Rightarrow> micros \<Rightarrow> (micros \<times> micros) list \<Rightarrow> bool" where
  "isolated z pre u off' post \<longleftrightarrow> transitions z = pre @ (u, off') # post \<and>
     (\<forall>off \<in> offsets z. - DAY < off \<and> off < DAY) \<and>
     (\<forall>p \<in> set pre. fst p + 2 * DAY \<le> u) \<and> (\<forall>p \<in> set post. u + 2 * DAY \<le> fst p)"

lemma offset_from_append:
  "\<forall>p \<in> set pre. fst p \<le> t \<Longrightarrow> offset_from off (pre @ ts) t = offset_from (last_offset off pre) ts t"
  by (induction pre arbitrary: off) (auto simp: last_offset_def)

lemma offset_from_before: "\<forall>p \<in> set ts. t < fst p \<Longrightarrow> offset_from off ts t = off"
  by (cases ts) auto

lemma wall_offset_from_append:
  "\<forall>p \<in> set pre. fst p + DAY \<le> w \<Longrightarrow> off < DAY \<Longrightarrow> \<forall>p \<in> set pre. snd p < DAY \<Longrightarrow>
   wall_offset_from off (pre @ ts) w = wall_offset_from (last_offset off pre) ts w"
proof (induction pre arbitrary: off)
  case (Cons p pre)
  then have "fst p + max off (snd p) \<le> w" by (cases p) auto
  with Cons show ?case by (cases p) (auto simp: last_offset_def)
qed (simp add: last_offset_def)

lemma near_isolated:
  assumes "isolated z pre u off' post" "off = last_offset (base_offset z) pre"
  shows "\<bar>off\<bar> < DAY" "\<bar>off'\<bar> < DAY"
    "u - 2 * DAY \<le> t \<Longrightarrow> t < u + 2 * DAY \<Longrightarrow> utcoffset z t = (if u \<le> t then off' else off)"
    "u - DAY \<le> w \<Longrightarrow> w < u + max off off' \<Longrightarrow> wall_utcoffset z w = off"
proof -
  note iso = assms(1) [unfolded isolated_def offsets_def]
  have "off \<in> offsets z"
    using iso last_in_set [of pre] by (auto simp: assms(2) last_offset_def offsets_def)
  with assms(1) have "- DAY < off" "off < DAY" by (simp_all add: isolated_def)
  then show "\<bar>off\<bar> < DAY" by simp
  show "\<bar>off'\<bar> < DAY" using iso by (auto simp: abs_less_iff)
  show "utcoffset z t = (if u \<le> t then off' else off)" if "u - 2 * DAY \<le> t" "t < u + 2 * DAY"
  proof -
    have "\<forall>p \<in> set pre. fst p \<le> t" "\<forall>p \<in> set post. t < fst p" using iso that by force+
    then show ?thesis using iso
      by (simp add: utcoffset_def offset_from_append offset_from_before flip: assms(2))
  qed
  show "wall_utcoffset z w = off" if "u - DAY \<le> w" "w < u + max off off'"
  proof -
    have "\<forall>p \<in> set pre. fst p + DAY \<le> w" using iso that by force
    then show ?thesis using iso that(2)
      by (simp add: wall_utcoffset_def wall_offset_from_append flip: assms(2))
  qed
qed

text \<open>
  C35: daylight saving. Around a transition from one offset to another, a daily time the clocks
  skip runs when the clock shows it later by what they skipped; one they show twice runs the
  first time they do: there is a later instant, too, when they show it.
\<close>

theorem dst_gap_and_overlap:
  assumes "isolated z pre u off' post" and "off = last_offset (base_offset z) pre"
    and w: "w = d * DAY + hm" and sl: "slot = on z hm d"
  shows "(u + off \<le> w \<and> w < u + off' \<longrightarrow> u \<le> slot \<and> slot + utcoffset z slot = w + (off' - off)) \<and>
    (u + off' \<le> w \<and> w < u + off \<longrightarrow>
      slot < u \<and> slot + utcoffset z slot = w \<and>
      (\<exists>second. slot < second \<and> second + utcoffset z second = w))"
proof -
  note near = near_isolated [OF assms(1,2)]
  have slot: "slot = w - off" if "u - DAY \<le> w" "w < u + max off off'"
    using near(4) [OF that] by (simp add: sl w on_def)
  have "u \<le> slot \<and> slot + utcoffset z slot = w + (off' - off)" if "u + off \<le> w" "w < u + off'"
  proof -
    have s: "slot = w - off" using that near(1,2) by (intro slot) auto
    then have "utcoffset z slot = off'" using that near(1,2) by (subst near(3)) auto
    with s that show ?thesis by simp
  qed
  moreover have "slot < u \<and> slot + utcoffset z slot = w \<and>
      (\<exists>second. slot < second \<and> second + utcoffset z second = w)" if "u + off' \<le> w" "w < u + off"
  proof -
    have s: "slot = w - off" using that near(1,2) by (intro slot) auto
    then have "utcoffset z slot = off" using that near(1,2) by (subst near(3)) auto
    moreover have "utcoffset z (w - off') = off'" using that near(1,2) by (subst near(3)) auto
    ultimately show ?thesis using s that by (intro conjI exI [of _ "w - off'"]) auto
  qed
  ultimately show ?thesis by blast
qed

lemma dst_gap_and_overlap_witness:
  "on new_york (2 * HOUR + 30 * MINUTE) 19792 + utcoffset new_york (on new_york (2 * HOUR + 30 * MINUTE) 19792) =
     19792 * DAY + 3 * HOUR + 30 * MINUTE"
proof -
  have "isolated new_york [] (19792 * DAY + 7 * HOUR) (- 4 * HOUR) [(20030 * DAY + 6 * HOUR, - 5 * HOUR)]"
    by (simp add: isolated_def new_york_def offsets_def DAY_def HOUR_def MINUTE_def)
  from dst_gap_and_overlap [OF this refl refl refl, of 19792 "2 * HOUR + 30 * MINUTE"] show ?thesis
    by (simp add: last_offset_def new_york_def HOUR_def MINUTE_def DAY_def)
qed

text \<open>The examples of the documentation, in New York.\<close>

lemma dst_as_documented:
  "on new_york (2 * HOUR + 30 * MINUTE) 19792 = 19792 * DAY + 7 * HOUR + 30 * MINUTE \<and>
   on new_york (1 * HOUR + 30 * MINUTE) 20030 = 20030 * DAY + 5 * HOUR + 30 * MINUTE \<and>
   clock_after tz_ny \<lparr> ck_every = Day, ck_at = 1 * HOUR + 30 * MINUTE, ck_zone = ''America/New_York'' \<rparr>
     (20030 * DAY + 5 * HOUR + 30 * MINUTE) = Inr (20031 * DAY + 6 * HOUR + 30 * MINUTE) \<and>
   on new_york (3 * HOUR) 19791 = 19791 * DAY + 8 * HOUR \<and>
   on new_york (3 * HOUR) 19793 = 19793 * DAY + 7 * HOUR"
proof -
  have next_run: "day_after new_york (1 * HOUR + 30 * MINUTE) (20030 * DAY + 5 * HOUR + 30 * MINUTE) 20030 = 20031"
    by (subst day_after.simps, subst day_after.simps)
      (simp add: on_def wall_utcoffset_def new_york_def DAY_def HOUR_def MINUTE_def)
  have "local_date new_york (20030 * DAY + 5 * HOUR + 30 * MINUTE) = 20030"
    by (simp add: local_date_def utcoffset_def new_york_def DAY_def HOUR_def MINUTE_def)
  with next_run show ?thesis
    by (simp add: clock_after_def zone_info_def tz_ny_def)
      (simp add: on_def wall_utcoffset_def new_york_def DAY_def HOUR_def MINUTE_def)
qed

text \<open>
  The exception in the first property is real. Until 2011 St. John's put its clocks back at one
  minute past midnight, into the day before: in the repeated hour the search starts a day too
  early, and the slot it finds for a midnight schedule is yesterday's although today's has passed.
\<close>

definition st_johns :: zone where
  "st_johns = \<lparr> base_offset = - (2 * HOUR + 30 * MINUTE),
     transitions = [(14920 * DAY + 2 * HOUR + 31 * MINUTE, - (3 * HOUR + 30 * MINUTE))] \<rparr>"

lemma slot_missed_across_midnight:
  "on st_johns 0 14920 \<le> 14920 * DAY + 2 * HOUR + 40 * MINUTE \<and>
   clock_at_or_before [''America/St_Johns'' \<mapsto> st_johns]
     \<lparr> ck_every = Day, ck_at = 0, ck_zone = ''America/St_Johns'' \<rparr> (14920 * DAY + 2 * HOUR + 40 * MINUTE) =
     Inr (on st_johns 0 14919)"
proof -
  have "local_date st_johns (14920 * DAY + 2 * HOUR + 40 * MINUTE) = 14919"
    by (simp add: local_date_def utcoffset_def st_johns_def DAY_def HOUR_def MINUTE_def)
  moreover have "day_at_or_before st_johns 0 (14920 * DAY + 2 * HOUR + 40 * MINUTE) 14919 = 14919"
    by (subst day_at_or_before.simps)
      (simp add: on_def wall_utcoffset_def st_johns_def DAY_def HOUR_def MINUTE_def)
  ultimately show ?thesis
    by (simp add: clock_at_or_before_def zone_info_def)
      (simp add: on_def wall_utcoffset_def st_johns_def DAY_def HOUR_def MINUTE_def)
qed

end
