(* ===== verification/Scheduler.thy ===== *)
theory Scheduler
  imports Clock Enqueueing Wakeup Connection
begin

section \<open>The scheduler\<close>

text \<open>
  The schedules of \<^verbatim>\<open>src/durable_queue/scheduler.py\<close>: \<^verbatim>\<open>register_schedule\<close>, one pass
  of \<^verbatim>\<open>run_due_schedules\<close>, \<^verbatim>\<open>seconds_until_next_schedule\<close> and the loop of
  \<^verbatim>\<open>run_scheduler\<close>. The clock is \<^theory_text>\<open>Clock\<close>. A pass is a transaction on the database
  that ends in a commit or, when it raises, in a rollback.
\<close>

subsection \<open>Registering\<close>

datatype recurrence = Interval int | On_clock clock

text \<open>A value the column type \<open>int\<close> holds.\<close>

definition int4 :: "int option \<Rightarrow> bool" where
  "int4 v \<longleftrightarrow> (case v of None \<Rightarrow> True | Some i \<Rightarrow> - (2 ^ 31) \<le> i \<and> i < 2 ^ 31)"

definition same_clock :: "schedule \<Rightarrow> schedule \<Rightarrow> bool" where
  "same_clock s x \<longleftrightarrow> every s = every x \<and> at_time s = at_time x \<and> time_zone s = time_zone x"

text \<open>The \<open>DO UPDATE SET\<close>; \<open>x\<close> is \<open>EXCLUDED\<close>, \<open>s\<close> the row there is.\<close>

definition reregister_row :: "schedule \<Rightarrow> schedule \<Rightarrow> schedule" where
  "reregister_row x s =
     s\<lparr>stask := stask x, sargs := sargs x, interval_seconds := interval_seconds x,
       every := every x, at_time := at_time x, time_zone := time_zone x,
       max_lateness_seconds := max_lateness_seconds x,
       next_run_at := (if \<not> same_clock s x then next_run_at x else next_run_at s)\<rparr>"

definition upsert_schedule :: "schedule \<Rightarrow> db \<Rightarrow> db" where
  "upsert_schedule x d =
     (case row_at sname (schedules d) (sname x) of
        None \<Rightarrow> d\<lparr>schedules := schedules d @ [x]\<rparr>
      | Some _ \<Rightarrow> d\<lparr>schedules := update_where (\<lambda>s. sname s = sname x) (reregister_row x) (schedules d)\<rparr>)"

text \<open>
  \<open>now1\<close> is the \<open>now()\<close> of the \<open>SELECT\<close> and \<open>now2\<close> that of the \<open>INSERT\<close>: the same unless the
  connection is in autocommit mode. The result is the row written, or the exception.
\<close>

definition schedule_row :: "tzdb \<Rightarrow> micros \<Rightarrow> micros \<Rightarrow> string \<Rightarrow> string \<Rightarrow> args \<Rightarrow> recurrence
    \<Rightarrow> micros option \<Rightarrow> int option \<Rightarrow> schedule result" where
  "schedule_row tz now1 now2 name tsk a rec first_run_at max_lateness =
     (case rec of
        On_clock c \<Rightarrow>
          if first_run_at \<noteq> None then Inl (ValueError ''first_run_at only applies to an interval schedule'')
          else bind_result (clock_after tz c now1) (\<lambda>first.
            Inr \<lparr> sname = name, stask = tsk, sargs = a, interval_seconds = None,
                  every = Some (ck_every c), at_time = Some (ck_at c), time_zone = Some (ck_zone c),
                  max_lateness_seconds = max_lateness, next_run_at = first, screated_at = now2 \<rparr>)
      | Interval n \<Rightarrow>
          Inr \<lparr> sname = name, stask = tsk, sargs = a, interval_seconds = Some n,
                every = None, at_time = None, time_zone = None,
                max_lateness_seconds = max_lateness,
                next_run_at = (case first_run_at of None \<Rightarrow> now2 | Some t \<Rightarrow> t), screated_at = now2 \<rparr>)"

definition register_schedule :: "tzdb \<Rightarrow> micros \<Rightarrow> micros \<Rightarrow> string \<Rightarrow> string \<Rightarrow> args \<Rightarrow> recurrence
    \<Rightarrow> micros option \<Rightarrow> int option \<Rightarrow> db \<times> wakeup \<Rightarrow> (db \<times> wakeup) result" where
  "register_schedule tz now1 now2 name tsk a rec first_run_at max_lateness st =
     bind_result (schedule_row tz now1 now2 name tsk a rec first_run_at max_lateness) (\<lambda>x.
       if \<not> (int4 (interval_seconds x) \<and> int4 (max_lateness_seconds x))
       then Inl (DataError ''integer out of range'')
       else Inr (conn_commit (upsert_schedule x (fst st)), wake (snd st)))"

subsection \<open>One pass\<close>

text \<open>
  What a pass sees: its \<open>now()\<close>, the names of the schedules that other transactions hold, the
  order the server finds the rows in, the tz database, and \<^verbatim>\<open>isoformat()\<close>.
\<close>

record pass_env =
  p_now :: micros
  p_locked :: "string list"
  p_scan :: "schedule list \<Rightarrow> schedule list"
  p_tz :: tzdb
  p_iso :: "micros \<Rightarrow> string"

definition pass_ok :: "pass_env \<Rightarrow> bool" where
  "pass_ok e \<longleftrightarrow> (\<forall>rs. mset (p_scan e rs) = mset rs)"

text \<open>
  The row's clock. The table's constraints make the last case impossible; Python would raise
  some \<^verbatim>\<open>TypeError\<close> or \<^verbatim>\<open>AttributeError\<close> there.
\<close>

definition row_clock :: "schedule \<Rightarrow> clock result" where
  "row_clock r =
     (case (every r, at_time r, time_zone r) of
        (Some ev, Some hm, Some zn) \<Rightarrow> Inr \<lparr> ck_every = ev, ck_at = hm, ck_zone = zn \<rparr>
      | _ \<Rightarrow> Inl (TypeError ''Clock''))"

definition row_period :: "schedule \<Rightarrow> micros result" where
  "row_period r =
     (case interval_seconds r of None \<Rightarrow> Inl (TypeError ''timedelta'') | Some n \<Rightarrow> Inr (seconds n))"

text \<open>Both languages round the quotient down, also when the divisor is negative.\<close>

definition slot_to_run :: "tzdb \<Rightarrow> micros \<Rightarrow> schedule \<Rightarrow> micros result" where
  "slot_to_run tz t r =
     (if every r = None then
        bind_result (row_period r) (\<lambda>period.
          if period = 0 then Inl ZeroDivisionError
          else Inr (next_run_at r + (t - next_run_at r) div period * period))
      else bind_result (row_clock r) (\<lambda>c. clock_at_or_before tz c t))"

definition slot_after :: "tzdb \<Rightarrow> schedule \<Rightarrow> micros \<Rightarrow> micros result" where
  "slot_after tz r slot =
     (if every r = None then bind_result (row_period r) (\<lambda>period. Inr (slot + period))
      else bind_result (row_clock r) (\<lambda>c. clock_after tz c slot))"

definition too_late :: "micros \<Rightarrow> schedule \<Rightarrow> micros \<Rightarrow> bool" where
  "too_late t r slot \<longleftrightarrow>
     (case max_lateness_seconds r of None \<Rightarrow> False | Some m \<Rightarrow> seconds m < t - slot)"

definition sched_key :: "(micros \<Rightarrow> string) \<Rightarrow> string \<Rightarrow> micros \<Rightarrow> string" where
  "sched_key isoformat name slot = ''sched:'' @ name @ '':'' @ isoformat slot"

text \<open>The statement \<open>enqueue\<close> runs, in the pass's transaction: only its \<open>now()\<close> matters.\<close>

definition pass_stmt :: "pass_env \<Rightarrow> stmt" where
  "pass_stmt e = \<lparr> now = p_now e, locked = [], scan = id \<rparr>"

definition set_next_run :: "string \<Rightarrow> micros \<Rightarrow> db \<Rightarrow> db" where
  "set_next_run name t d =
     d\<lparr>schedules := update_where (\<lambda>s. sname s = name) (\<lambda>s. s\<lparr>next_run_at := t\<rparr>) (schedules d)\<rparr>"

text \<open>One turn of the loop over the due rows: whether it enqueued, or the exception, and the
  transaction's view after it.\<close>

definition fire :: "pass_env \<Rightarrow> schedule \<Rightarrow> db \<Rightarrow> bool result \<times> db" where
  "fire e r d =
     (case slot_to_run (p_tz e) (p_now e) r of
        Inl x \<Rightarrow> (Inl x, d)
      | Inr slot \<Rightarrow>
          let fires = \<not> too_late (p_now e) r slot;
              d1 = (if fires
                    then snd (enqueue (pass_stmt e) (stask r) (sargs r) (Some (sched_key (p_iso e) (sname r) slot)) d)
                    else d)
          in case slot_after (p_tz e) r slot of
               Inl x \<Rightarrow> (Inl x, d1)
             | Inr nxt \<Rightarrow> (Inr fires, set_next_run (sname r) nxt d1))"

fun fire_all :: "pass_env \<Rightarrow> schedule list \<Rightarrow> int \<Rightarrow> db \<Rightarrow> int result \<times> db" where
  "fire_all e [] fired d = (Inr fired, d)"
| "fire_all e (r # rs) fired d =
     (case fire e r d of
        (Inl x, d') \<Rightarrow> (Inl x, d')
      | (Inr fires, d') \<Rightarrow> fire_all e rs (if fires then fired + 1 else fired) d')"

definition sched_due :: "micros \<Rightarrow> schedule \<Rightarrow> bool" where
  "sched_due t s \<longleftrightarrow> next_run_at s \<le> t"

definition due_rows :: "pass_env \<Rightarrow> db \<Rightarrow> schedule list" where
  "due_rows e d = skip_locked sname (p_locked e) (p_scan e (filter (sched_due (p_now e)) (schedules d)))"

definition run_due_schedules :: "pass_env \<Rightarrow> db \<times> wakeup \<Rightarrow> int result \<times> db \<times> wakeup" where
  "run_due_schedules e st =
     (case st of (d, g) \<Rightarrow>
        case fire_all e (due_rows e d) 0 d of
          (Inl x, d') \<Rightarrow> (Inl x, rollback_tx d d', g)
        | (Inr fired, d') \<Rightarrow> (Inr fired, conn_commit d', if fired \<noteq> 0 then wake g else g))"

definition seconds_until_next_schedule :: "micros \<Rightarrow> db \<Rightarrow> real option \<times> db" where
  "seconds_until_next_schedule t d =
     (map_option (\<lambda>u. of_int (u - t) / 1000000) (min_opt (map next_run_at (schedules d))), conn_commit d)"


subsection \<open>A pass is made of queue operations\<close>

lemma enqueue_schedules: "schedules (snd (enqueue e tsk a k d)) = schedules d"
  by (simp add: enqueue_def insert_job_def Let_def split: prod.splits option.splits)

lemma set_next_run_sel [simp]:
  "jobs (set_next_run n t d) = jobs d" "jobs_id_seq (set_next_run n t d) = jobs_id_seq d"
  "notifies (set_next_run n t d) = notifies d" "effects (set_next_run n t d) = effects d"
  by (simp_all add: set_next_run_def)

lemma elsewhere_run:
  "jobs d' = jobs d \<Longrightarrow> jobs_id_seq d \<le> jobs_id_seq d' \<Longrightarrow> upkeep_run d d'"
  by (auto intro: upkeep_step.elsewhere)

lemma enqueue_run: "upkeep_run d (snd (enqueue e tsk a k d))"
  by (rule r_into_rtranclp, rule upkeep_step.enqueue [OF prod.collapse [symmetric]])

lemma fire_run: "upkeep_run d (snd (fire e r d))"
proof (cases "slot_to_run (p_tz e) (p_now e) r")
  case (Inr slot)
  let ?d1 = "if \<not> too_late (p_now e) r slot
    then snd (enqueue (pass_stmt e) (stask r) (sargs r) (Some (sched_key (p_iso e) (sname r) slot)) d) else d"
  have "upkeep_run d ?d1" by (simp add: enqueue_run)
  moreover have "upkeep_run ?d1 (set_next_run (sname r) nxt ?d1)" for nxt
    by (rule elsewhere_run) simp_all
  ultimately show ?thesis
    by (auto simp: fire_def Inr Let_def split: sum.splits intro: rtranclp_trans)
qed (simp add: fire_def)

lemma fire_all_run: "upkeep_run d (snd (fire_all e rs k d))"
proof (induction rs arbitrary: k d)
  case (Cons r rs)
  obtain x d1 where f: "fire e r d = (x, d1)" by fastforce
  then have "upkeep_run d d1" using fire_run [of d e r] by simp
  with Cons.IH [of d1] show ?case
    by (cases x) (auto simp: f intro: rtranclp_trans)
qed simp

text \<open>So a pass is a run of the queue's operations, whatever comes of it.\<close>

lemma run_due_schedules_upkeep:
  assumes "jobs_ok d" "run_due_schedules e (d, g) = (x, d', g')"
  shows "upkeep_run d d'"
proof -
  obtain y d1 where f: "fire_all e (due_rows e d) 0 d = (y, d1)" by fastforce
  have run: "upkeep_run d d1" using fire_all_run [of d e "due_rows e d" 0] f by simp
  have "upkeep_run d1 (conn_commit d1)" by (rule elsewhere_run) simp_all
  moreover have "upkeep_run d (rollback_tx d d1)"
    using jobs_run_seq [OF upkeep_run_jobs [OF run] assms(1)] by (intro elsewhere_run) simp_all
  ultimately show ?thesis
    using assms(2) run by (auto simp: run_due_schedules_def f split: sum.splits intro: rtranclp_trans)
qed

lemma run_due_schedules_run:
  "jobs_ok d \<Longrightarrow> run_due_schedules e (d, g) = (x, d', g') \<Longrightarrow> jobs_run d d'"
  by (intro upkeep_run_jobs run_due_schedules_upkeep)

subsection \<open>Slots\<close>

text \<open>A schedule whose next run after its slot comes after the present: an interval one of a positive
  period, or a clock one whose wall clock is not being carried across midnight.\<close>

definition healthy :: "tzdb \<Rightarrow> micros \<Rightarrow> schedule \<Rightarrow> bool" where
  "healthy tz t r \<longleftrightarrow>
     (if every r = None then (\<exists>n > 0. interval_seconds r = Some n)
      else (\<exists>c. row_clock r = Inr c \<and> steady tz c t))"

lemma interval_slot:
  fixes t nr p :: int
  assumes "0 < p"
  shows "nr + (t - nr) div p * p \<le> t" "t < nr + (t - nr) div p * p + p"
  using div_mult_mod_eq [of "t - nr" p] pos_mod_sign [OF assms, of "t - nr"]
    pos_mod_bound [OF assms, of "t - nr"] by linarith+

lemma seconds_pos [simp]: "0 < seconds n \<longleftrightarrow> 0 < n"
  by (simp add: seconds_def)

lemma seconds_zero [simp]: "seconds n = 0 \<longleftrightarrow> n = 0"
  by (simp add: seconds_def)

lemma healthy_slots:
  assumes "healthy tz t r"
  obtains s n where "slot_to_run tz t r = Inr s" "slot_after tz r s = Inr n" "s \<le> t" "t < n"
proof (cases "every r")
  case None
  with assms obtain n where n: "0 < n" "interval_seconds r = Some n" by (auto simp: healthy_def)
  let ?s = "next_run_at r + (t - next_run_at r) div seconds n * seconds n"
  have "slot_to_run tz t r = Inr ?s" "slot_after tz r ?s = Inr (?s + seconds n)"
    using None n by (simp_all add: slot_to_run_def slot_after_def row_period_def)
  moreover have "0 < seconds n" using n by simp
  then have "?s \<le> t" "t < ?s + seconds n" by (rule interval_slot)+
  ultimately show ?thesis by (rule that)
next
  case (Some ev)
  with assms obtain c where c: "row_clock r = Inr c" "steady tz c t" by (auto simp: healthy_def)
  obtain s n where "clock_at_or_before tz c t = Inr s" "clock_after tz c s = Inr n" "s \<le> t" "t < n"
    using c(2) by (rule run_after_slot)
  then show ?thesis using Some c by (intro that) (simp_all add: slot_to_run_def slot_after_def)
qed

lemma fire_Inr:
  assumes "slot_to_run (p_tz e) (p_now e) r = Inr s" "slot_after (p_tz e) r s = Inr n"
  shows "fire e r d =
    (Inr (\<not> too_late (p_now e) r s),
     set_next_run (sname r) n
       (if too_late (p_now e) r s then d
        else snd (enqueue (pass_stmt e) (stask r) (sargs r) (Some (sched_key (p_iso e) (sname r) s)) d)))"
  using assms by (simp add: fire_def Let_def)

subsection \<open>A whole pass\<close>

text \<open>What the slots of a pass's rows are, and what it writes to the \<^verbatim>\<open>schedules\<close> table.\<close>

definition slots_are :: "pass_env \<Rightarrow> (schedule \<Rightarrow> micros) \<Rightarrow> (schedule \<Rightarrow> micros) \<Rightarrow> schedule list \<Rightarrow> bool" where
  "slots_are e sl nx rs \<longleftrightarrow>
     (\<forall>r \<in> set rs. slot_to_run (p_tz e) (p_now e) r = Inr (sl r) \<and> slot_after (p_tz e) r (sl r) = Inr (nx r))"

definition advance_with :: "(schedule \<Rightarrow> micros) \<Rightarrow> schedule list \<Rightarrow> schedule \<Rightarrow> schedule" where
  "advance_with nx rs s =
     (case row_at sname rs (sname s) of None \<Rightarrow> s | Some r \<Rightarrow> s\<lparr>next_run_at := nx r\<rparr>)"

lemma slots_are_simps [simp]:
  "slots_are e sl nx []"
  "slots_are e sl nx (r # rs) \<longleftrightarrow>
     slot_to_run (p_tz e) (p_now e) r = Inr (sl r) \<and> slot_after (p_tz e) r (sl r) = Inr (nx r) \<and>
     slots_are e sl nx rs"
  by (auto simp: slots_are_def)

lemma slots_exist:
  assumes "\<forall>r \<in> set rs. healthy (p_tz e) (p_now e) r"
  obtains sl nx where "slots_are e sl nx rs" "\<And>r. r \<in> set rs \<Longrightarrow> sl r \<le> p_now e \<and> p_now e < nx r"
proof -
  define sl nx where "sl r = projr (slot_to_run (p_tz e) (p_now e) r)"
    and "nx r = projr (slot_after (p_tz e) r (sl r))" for r
  have "slot_to_run (p_tz e) (p_now e) r = Inr (sl r) \<and> slot_after (p_tz e) r (sl r) = Inr (nx r) \<and>
      sl r \<le> p_now e \<and> p_now e < nx r" if "r \<in> set rs" for r
  proof -
    from assms that have "healthy (p_tz e) (p_now e) r" by blast
    then show ?thesis by (rule healthy_slots) (simp add: sl_def nx_def)
  qed
  then show ?thesis by (intro that [of sl nx]) (auto simp: slots_are_def)
qed

lemma fire_all_schedules:
  assumes "slots_are e sl nx rs" "distinct (map sname rs)"
  shows "\<exists>d'. fire_all e rs k d =
      (Inr (k + int (length (filter (\<lambda>r. \<not> too_late (p_now e) r (sl r)) rs))), d') \<and>
    schedules d' = map (advance_with nx rs) (schedules d)"
  using assms
proof (induction rs arbitrary: k d)
  case Nil
  then show ?case by (simp add: advance_with_def)
next
  case (Cons r rs)
  have sl: "slot_to_run (p_tz e) (p_now e) r = Inr (sl r)" "slot_after (p_tz e) r (sl r) = Inr (nx r)"
    and rest: "slots_are e sl nx rs" "distinct (map sname rs)" and new: "sname r \<notin> sname ` set rs"
    using Cons.prems by simp_all
  let ?late = "too_late (p_now e) r (sl r)"
  let ?k = "if \<not> ?late then k + 1 else k" and ?d1 = "snd (fire e r d)"
  have step: "fire_all e (r # rs) k d = fire_all e rs ?k ?d1"
    by (simp add: fire_Inr [OF sl])
  obtain d' where d': "fire_all e rs ?k ?d1 =
      (Inr (?k + int (length (filter (\<lambda>r. \<not> too_late (p_now e) r (sl r)) rs))), d')"
    "schedules d' = map (advance_with nx rs) (schedules ?d1)"
    using Cons.IH [OF rest, of ?k ?d1] by blast
  have "schedules ?d1 = map (\<lambda>s. if sname s = sname r then s\<lparr>next_run_at := nx r\<rparr> else s) (schedules d)"
    by (simp add: fire_Inr [OF sl] set_next_run_def enqueue_schedules update_where_def)
  moreover have "row_at sname rs (sname r) = None" using new by (simp add: row_at_None_iff)
  ultimately have "schedules d' = map (advance_with nx (r # rs)) (schedules d)"
    by (simp add: d'(2) advance_with_def)
  then show ?case unfolding step d'(1) by auto
qed

text \<open>The job a row that is not too late gives.\<close>

definition job_for :: "pass_env \<Rightarrow> micros \<Rightarrow> schedule \<Rightarrow> job \<Rightarrow> bool" where
  "job_for e slot r j \<longleftrightarrow>
     idempotency_key j = Some (sched_key (p_iso e) (sname r) slot) \<and>
     task j = stask r \<and> args j = sargs r \<and> status j = Pending \<and> run_at j = p_now e"

lemma enqueue_one:
  assumes "jobs_ok d"
  shows "\<exists>new. jobs (snd (enqueue e tsk a (Some k) d)) = jobs d @ new \<and>
    (\<exists>j \<in> set (jobs d @ new). idempotency_key j = Some k) \<and> length new \<le> 1 \<and>
    (\<forall>j \<in> set new. idempotency_key j = Some k \<and> task j = tsk \<and> args j = a \<and> status j = Pending \<and> run_at j = now e)"
proof (cases "conflicting (Some k) (jobs d)")
  case None
  then show ?thesis
    by (simp add: enqueue_def insert_job_def Let_def new_job_def)
next
  case (Some j)
  then have "j \<in> set (jobs d)" "idempotency_key j = Some k" by (auto dest: conflicting_SomeD)
  moreover have "jobs (snd (enqueue e tsk a (Some k) d)) = jobs d"
    using insert_job_conflict [OF assms Some] by (simp add: enqueue_def split: prod.splits)
  ultimately show ?thesis by auto
qed

text \<open>All the jobs of a pass: new ones only for its rows, and one for every row in time.\<close>

lemma fire_all_jobs:
  assumes "slots_are e sl nx rs" "jobs_ok d"
  shows "\<exists>new. jobs (snd (fire_all e rs k d)) = jobs d @ new \<and>
    length new \<le> length (filter (\<lambda>r. \<not> too_late (p_now e) r (sl r)) rs) \<and>
    (\<forall>j \<in> set new. \<exists>r \<in> set rs. \<not> too_late (p_now e) r (sl r) \<and> job_for e (sl r) r j) \<and>
    (\<forall>r \<in> set rs. \<not> too_late (p_now e) r (sl r) \<longrightarrow>
      (\<exists>j \<in> set (jobs d @ new). idempotency_key j = Some (sched_key (p_iso e) (sname r) (sl r))))"
  using assms
proof (induction rs arbitrary: k d)
  case (Cons r rs)
  have sl: "slot_to_run (p_tz e) (p_now e) r = Inr (sl r)" "slot_after (p_tz e) r (sl r) = Inr (nx r)"
    and rest: "slots_are e sl nx rs"
    using Cons.prems by simp_all
  let ?late = "too_late (p_now e) r (sl r)" and ?key = "sched_key (p_iso e) (sname r) (sl r)"
  let ?d1 = "snd (fire e r d)"
  have ok: "jobs_ok ?d1" using upkeep_run_jobs [OF fire_run] Cons.prems(2) by (rule jobs_run_ok)
  have step: "snd (fire_all e (r # rs) k d) = snd (fire_all e rs (if \<not> ?late then k + 1 else k) ?d1)"
    by (simp add: fire_Inr [OF sl])
  obtain new1 :: "job list" where new1: "jobs ?d1 = jobs d @ new1" "length new1 \<le> (if ?late then 0 else 1)"
    "\<forall>j \<in> set new1. \<not> ?late \<and> job_for e (sl r) r j"
    "\<not> ?late \<longrightarrow> (\<exists>j \<in> set (jobs d @ new1). idempotency_key j = Some ?key)"
  proof (cases ?late)
    case True
    then show ?thesis by (intro that [of "[]"]) (simp_all add: fire_Inr [OF sl])
  next
    case False
    then show ?thesis
      using enqueue_one [OF Cons.prems(2), of "pass_stmt e" "stask r" "sargs r" ?key] that
      by (auto simp: fire_Inr [OF sl] job_for_def pass_stmt_def)
  qed
  obtain new2 :: "job list" where new2: "jobs (snd (fire_all e rs (if \<not> ?late then k + 1 else k) ?d1)) = jobs ?d1 @ new2"
    "length new2 \<le> length (filter (\<lambda>r. \<not> too_late (p_now e) r (sl r)) rs)"
    "\<forall>j \<in> set new2. \<exists>r \<in> set rs. \<not> too_late (p_now e) r (sl r) \<and> job_for e (sl r) r j"
    "\<forall>r \<in> set rs. \<not> too_late (p_now e) r (sl r) \<longrightarrow>
      (\<exists>j \<in> set (jobs ?d1 @ new2). idempotency_key j = Some (sched_key (p_iso e) (sname r) (sl r)))"
    using Cons.IH [OF rest ok] by blast
  show ?case
  proof (intro exI [of _ "new1 @ new2"] conjI)
    show "jobs (snd (fire_all e (r # rs) k d)) = jobs d @ new1 @ new2"
      unfolding step new2(1) new1(1) by simp
    show "length (new1 @ new2) \<le> length (filter (\<lambda>r. \<not> too_late (p_now e) r (sl r)) (r # rs))"
      using new1(2) new2(2) by (auto split: if_splits)
    show "\<forall>j \<in> set (new1 @ new2). \<exists>r' \<in> set (r # rs). \<not> too_late (p_now e) r' (sl r') \<and> job_for e (sl r') r' j"
      using new1(3) new2(3) by auto
    show "\<forall>r' \<in> set (r # rs). \<not> too_late (p_now e) r' (sl r') \<longrightarrow>
      (\<exists>j \<in> set (jobs d @ new1 @ new2). idempotency_key j = Some (sched_key (p_iso e) (sname r') (sl r')))"
      using new1(4) new2(4) unfolding new1(1) by auto
  qed
qed simp

definition names_distinct :: "db \<Rightarrow> bool" where
  "names_distinct d \<longleftrightarrow> distinct (map sname (schedules d))"

lemma set_due_rows:
  assumes "pass_ok e"
  shows "set (due_rows e d) = {r \<in> set (schedules d). sched_due (p_now e) r \<and> sname r \<notin> set (p_locked e)}"
proof -
  have "set (p_scan e rs) = set rs" for rs using assms by (metis pass_ok_def set_mset_mset)
  then show ?thesis by (auto simp: due_rows_def set_skip_locked)
qed

lemma distinct_due_rows:
  assumes "pass_ok e" "names_distinct d"
  shows "distinct (map sname (due_rows e d))"
proof -
  have "distinct (map sname (p_scan e (filter (sched_due (p_now e)) (schedules d)))) =
      distinct (map sname (filter (sched_due (p_now e)) (schedules d)))"
    using assms(1) by (intro distinct_map_perm) (simp add: pass_ok_def)
  with assms(2) show ?thesis
    by (simp add: due_rows_def skip_locked_def names_distinct_def distinct_map_filter)
qed

lemma advance_due_row:
  assumes "pass_ok e" "names_distinct d" "s \<in> set (schedules d)"
  shows "advance_with nx (due_rows e d) s = (if s \<in> set (due_rows e d) then s\<lparr>next_run_at := nx s\<rparr> else s)"
proof (cases "s \<in> set (due_rows e d)")
  case True
  then show ?thesis by (simp add: advance_with_def row_at_in_set [OF distinct_due_rows [OF assms(1,2)]])
next
  case False
  have "sname s \<notin> sname ` set (due_rows e d)"
  proof
    assume "sname s \<in> sname ` set (due_rows e d)"
    then obtain r where r: "r \<in> set (due_rows e d)" "sname r = sname s" by auto
    with assms(1) have "r \<in> set (schedules d)" by (simp add: set_due_rows)
    with r assms(2,3) have "r = s" by (auto simp: names_distinct_def distinct_map inj_on_def)
    with r False show False by simp
  qed
  then have "row_at sname (due_rows e d) (sname s) = None" by (simp only: row_at_None_iff not_False_eq_True)
  with False show ?thesis by (simp add: advance_with_def)
qed

subsection \<open>Properties: a pass\<close>

definition fired_row :: "pass_env \<Rightarrow> schedule \<Rightarrow> bool" where
  "fired_row e s \<longleftrightarrow> sched_due (p_now e) s \<and> sname s \<notin> set (p_locked e)"

text \<open>What a pass makes of a row.\<close>

definition advanced :: "pass_env \<Rightarrow> schedule \<Rightarrow> schedule \<Rightarrow> bool" where
  "advanced e s s' \<longleftrightarrow>
     (if fired_row e s
      then \<exists>slot nxt. slot_to_run (p_tz e) (p_now e) s = Inr slot \<and> slot \<le> p_now e \<and> p_now e < nxt \<and>
        slot_after (p_tz e) s slot = Inr nxt \<and> s' = s\<lparr>next_run_at := nxt\<rparr>
      else s' = s)"

lemma pass_result:
  assumes "pass_ok e" "names_distinct d" "slots_are e sl nx (due_rows e d)"
  shows "\<exists>d1. fire_all e (due_rows e d) 0 d =
      (Inr (int (length (filter (\<lambda>r. \<not> too_late (p_now e) r (sl r)) (due_rows e d)))), d1) \<and>
    schedules d1 = map (advance_with nx (due_rows e d)) (schedules d)"
  using fire_all_schedules [OF assms(3) distinct_due_rows [OF assms(1,2)], of 0 d] by simp


definition sched1 :: schedule where
  "sched1 = \<lparr> sname = ''s'', stask = ''t'', sargs = [], interval_seconds = Some 60, every = None,
     at_time = None, time_zone = None, max_lateness_seconds = None, next_run_at = 0, screated_at = 0 \<rparr>"

definition db_sched :: db where
  "db_sched = empty_db\<lparr>schedules := [sched1]\<rparr>"

definition pass_at :: "micros \<Rightarrow> pass_env" where
  "pass_at t = \<lparr> p_now = t, p_locked = [], p_scan = id, p_tz = Map.empty, p_iso = (\<lambda>t. int_str t) \<rparr>"

lemma pass_at_sel [simp]:
  "p_now (pass_at t) = t" "p_locked (pass_at t) = []" "p_scan (pass_at t) = id"
  "p_tz (pass_at t) = Map.empty" "p_iso (pass_at t) = int_str" "pass_ok (pass_at t)"
  by (simp_all add: pass_at_def pass_ok_def fun_eq_iff)

lemma db_sched_ok [simp]: "names_distinct db_sched" "jobs_ok db_sched"
  "schedules db_sched = [sched1]" "jobs db_sched = []"
  by (simp_all add: names_distinct_def db_sched_def sched1_def jobs_ok_def empty_db_def)

lemma due_sched1 [simp]: "0 \<le> t \<Longrightarrow> due_rows (pass_at t) db_sched = [sched1]"
  by (simp add: due_rows_def sched_due_def sched1_def skip_locked_def)

lemma healthy_sched1 [simp]: "healthy tz t sched1"
  by (simp add: healthy_def sched1_def)




subsection \<open>One job per slot\<close>

text \<open>
  What the scheduler relies on when it enqueues: a key that is enqueued again, whatever else
  happened, adds nothing as long as the row it gave is still there.
\<close>

locale keyed_enqueue =
  fixes enq :: "'p \<Rightarrow> string \<Rightarrow> 'd \<Rightarrow> int \<times> 'd"
    and row :: "int \<Rightarrow> 'd \<Rightarrow> 'r option"
    and key :: "'r \<Rightarrow> string option"
    and table :: "'d \<Rightarrow> 't"
    and run :: "'d \<Rightarrow> 'd \<Rightarrow> bool"
    and good :: "'d \<Rightarrow> bool"
  assumes enq_row: "good d \<Longrightarrow> enq p k d = (i, d') \<Longrightarrow> \<exists>r. row i d' = Some r \<and> key r = Some k"
    and enq_again: "good d \<Longrightarrow> enq p k d = (i, d1) \<Longrightarrow> run d1 d2 \<Longrightarrow> row i d2 \<noteq> None \<Longrightarrow>
      enq q k d2 = (i', d3) \<Longrightarrow> i' = i \<and> table d3 = table d2"
begin

lemma once:
  assumes "good d" "run (snd (enq p k d)) d2"
  shows "\<exists>i r. row i (snd (enq p k d)) = Some r \<and> key r = Some k \<and>
    (row i d2 \<noteq> None \<longrightarrow> table (snd (enq q k d2)) = table d2)"
proof -
  obtain i d1 where e: "enq p k d = (i, d1)" by fastforce
  obtain i' d3 where e': "enq q k d2 = (i', d3)" by fastforce
  from enq_row [OF assms(1) e] enq_again [OF assms(1) e _ _ e'] assms(2) show ?thesis
    by (auto simp: e e')
qed

end

interpretation jobs_keyed: keyed_enqueue "\<lambda>(e, tsk, a) k. enqueue e tsk a (Some k)" get_job
    idempotency_key jobs jobs_run jobs_ok
proof unfold_locales
  fix d p k i d'
  assume a: "jobs_ok d" "(case p of (e, tsk, a) \<Rightarrow> \<lambda>k. enqueue e tsk a (Some k)) k d = (i, d')"
  obtain e tsk as where p: "p = (e, tsk, as)" by (cases p)
  with a(2) obtain d0 where ins: "insert_job (now e) tsk as (Some k) d = (i, d0)"
    and "d' = pg_notify JOB_NOTIFY_CHANNEL d0"
    by (auto simp: enqueue_unfold)
  then show "\<exists>r. get_job i d' = Some r \<and> idempotency_key r = Some k"
    using insert_job_key [OF a(1) ins] by (metis get_job_pg_notify)
next
  fix d p k i d1 d2 q i' d3
  assume a: "jobs_ok d" "(case p of (e, tsk, a) \<Rightarrow> \<lambda>k. enqueue e tsk a (Some k)) k d = (i, d1)"
    "jobs_run d1 d2" "get_job i d2 \<noteq> None"
    "(case q of (e, tsk, a) \<Rightarrow> \<lambda>k. enqueue e tsk a (Some k)) k d2 = (i', d3)"
  then obtain e tsk x e' tsk' x' where "enqueue e tsk x (Some k) d = (i, d1)"
    "enqueue e' tsk' x' (Some k) d2 = (i', d3)"
    by (auto split: prod.splits)
  with enqueue_again [OF a(1) this(1) a(3) this(2)] a(4) show "i' = i \<and> jobs d3 = jobs d2" by blast
qed

text \<open>The same schedule, its \<open>next_run_at\<close> perhaps moved by whole periods.\<close>

definition rewound :: "schedule \<Rightarrow> schedule \<Rightarrow> bool" where
  "rewound r r' \<longleftrightarrow> sname r' = sname r \<and> interval_seconds r' = interval_seconds r \<and>
     every r' = every r \<and> at_time r' = at_time r \<and> time_zone r' = time_zone r \<and>
     (every r = None \<longrightarrow> (\<exists>n k. interval_seconds r = Some n \<and> next_run_at r' = next_run_at r + k * seconds n))"

lemma same_slot:
  assumes "rewound r r'" "healthy tz t r" "healthy tz t' r'"
    and "slot_to_run tz t r = Inr s" "slot_to_run tz t' r' = Inr s'"
    and "s \<le> t'" "s' \<le> t"
  shows "s = s'"
proof (cases "every r")
  case None
  with assms(1,2) obtain n k where n: "0 < n" "interval_seconds r = Some n" "interval_seconds r' = Some n"
      "every r' = None" "next_run_at r' = next_run_at r + k * seconds n"
    by (auto simp: rewound_def healthy_def)
  let ?p = "seconds n"
  have p: "0 < ?p" using n(1) by simp
  have s: "s = next_run_at r + (t - next_run_at r) div ?p * ?p"
    "s' = next_run_at r' + (t' - next_run_at r') div ?p * ?p"
    using assms(4,5) None n by (simp_all add: slot_to_run_def row_period_def)
  have "t < s + ?p" "t' < s' + ?p" unfolding s by (rule interval_slot(2) [OF p])+
  moreover have "s mod ?p = s' mod ?p" unfolding s n(5) by simp
  ultimately show ?thesis using assms(6,7) by (intro multiple_eq [of s s' ?p]) simp_all
next
  case (Some ev)
  with assms(1) have "every r' = Some ev" "row_clock r' = row_clock r"
    by (simp_all add: rewound_def row_clock_def)
  with Some assms(2-5) obtain c where "steady tz c t" "steady tz c t'"
    "clock_at_or_before tz c t = Inr s" "clock_at_or_before tz c t' = Inr s'"
    by (auto simp: healthy_def slot_to_run_def)
  then show ?thesis using assms(6,7) by (rule same_slot_clock)
qed

lemma fire_TrueD:
  assumes "fire e r d = (Inr True, d')" "slot_to_run (p_tz e) (p_now e) r = Inr s"
  shows "\<exists>nxt. d' = set_next_run (sname r) nxt
    (snd (enqueue (pass_stmt e) (stask r) (sargs r) (Some (sched_key (p_iso e) (sname r) s)) d))"
  using assms by (auto simp: fire_def Let_def split: sum.splits if_splits)



subsection \<open>Properties: schedules that cannot be run\<close>

lemma fire_all_raises:
  "r \<in> set rs \<Longrightarrow> slot_to_run (p_tz e) (p_now e) r = Inl x \<Longrightarrow> \<exists>y d'. fire_all e rs k d = (Inl y, d')"
proof (induction rs arbitrary: k d)
  case (Cons q rs)
  show ?case
  proof (cases "q = r")
    case True
    with Cons.prems(2) show ?thesis by (simp add: fire_def)
  next
    case False
    with Cons.prems Cons.IH show ?thesis by (simp split: prod.split sum.split)
  qed
qed simp

text \<open>
  C32: one bad schedule stops every schedule. A due schedule of interval zero, which registering
  accepts, or in a zone the tz database no longer has, makes every pass that gets to lock it
  raise, and everything the pass did is rolled back: no job is added, no schedule moves, nothing
  is announced, whichever other schedules were due.
\<close>

theorem bad_schedule_blocks_all:
  assumes "pass_ok e" and "r \<in> set (schedules d)" and "fired_row e r"
    and "every r = None \<and> interval_seconds r = Some 0 \<or>
      (\<exists>c. every r = Some Day \<and> row_clock r = Inr c \<and> p_tz e (ck_zone c) = None)"
  shows "\<exists>x d'. run_due_schedules e (d, g) = (Inl x, d', g) \<and>
    jobs d' = jobs d \<and> schedules d' = schedules d \<and> notifies d' = notifies d"
proof -
  obtain x where "slot_to_run (p_tz e) (p_now e) r = Inl x"
    using assms(4)
    by (auto simp: slot_to_run_def row_period_def row_clock_def clock_at_or_before_def zone_info_def
        split: option.splits)
  moreover have "r \<in> set (due_rows e d)"
    using assms(1-3) by (simp add: set_due_rows fired_row_def)
  ultimately obtain y d' where "fire_all e (due_rows e d) 0 d = (Inl y, d')"
    using fire_all_raises by blast
  then show ?thesis by (simp add: run_due_schedules_def)
qed

lemma bad_schedule_blocks_all_witness:
  "\<exists>d g x d'. register_schedule Map.empty 0 0 ''z'' ''t'' [] (Interval 0) None None (db_sched, initial_wakeup) = Inr (d, g) \<and>
     run_due_schedules (pass_at 5) (d, g) = (Inl x, d', g) \<and> jobs d' = [] \<and> schedules d' = schedules d"
proof -
  obtain x where x: "schedule_row Map.empty 0 0 ''z'' ''t'' [] (Interval 0) None None = Inr x"
    "every x = None" "interval_seconds x = Some 0" "next_run_at x = 0" "sname x = ''z''" "max_lateness_seconds x = None"
    by (simp add: schedule_row_def)
  let ?d = "conn_commit (upsert_schedule x db_sched)"
  have reg: "register_schedule Map.empty 0 0 ''z'' ''t'' [] (Interval 0) None None (db_sched, initial_wakeup) =
      Inr (?d, wake initial_wakeup)"
    using x by (simp add: register_schedule_def int4_def)
  have "schedules ?d = [sched1, x]" "jobs ?d = []"
    using x by (simp_all add: upsert_schedule_def sched1_def)
  moreover have "fired_row (pass_at 5) x" using x by (simp add: fired_row_def sched_due_def)
  ultimately show ?thesis
    using bad_schedule_blocks_all [of "pass_at 5" x ?d "wake initial_wakeup"] x reg by auto
qed

subsection \<open>Properties: registering\<close>

lemma schedule_row_sel:
  assumes "schedule_row tz now1 now2 name tsk a rec first m = Inr x"
  shows "sname x = name" "stask x = tsk" "sargs x = a" "max_lateness_seconds x = m"
    "schedules_interval_or_clock x" "schedules_clock_complete x"
  using assms
  by (auto simp: schedule_row_def schedules_interval_or_clock_def schedules_clock_complete_def
      split: recurrence.splits if_splits)

lemma clock_after_later:
  assumes "clock_after tz c t = Inr n"
  shows "t < n"
proof (cases "ck_every c")
  case Hour
  obtain s where s: "clock_at_or_before tz c t = Inr s"
    using Hour by (simp add: clock_at_or_before_def Let_def)
  with assms Hour hour_slot [OF Hour s] show ?thesis by (simp add: clock_after_def)
next
  case Day
  with assms obtain z where "n = on z (ck_at c) (day_after z (ck_at c) t (local_date z t))"
    by (auto simp: clock_after_def)
  then show ?thesis using day_after_spec by blast
qed

lemma schedule_row_first:
  assumes "schedule_row tz now1 now2 name tsk a rec first m = Inr x"
  shows "case rec of On_clock c \<Rightarrow> first = None \<and> row_clock x = Inr c \<and> now1 < next_run_at x
    | Interval n \<Rightarrow> row_period x = Inr (seconds n) \<and> next_run_at x = (case first of None \<Rightarrow> now2 | Some t \<Rightarrow> t)"
  using assms clock_after_later
  by (auto simp: schedule_row_def row_clock_def row_period_def split: recurrence.splits if_splits)

lemma row_at_upsert:
  "row_at sname (schedules (upsert_schedule x d)) name =
     (if name = sname x
      then Some (case row_at sname (schedules d) name of None \<Rightarrow> x | Some s \<Rightarrow> reregister_row x s)
      else row_at sname (schedules d) name)"
proof -
  have keep: "sname (reregister_row x s) = sname s" for s by (simp add: reregister_row_def)
  show ?thesis
  proof (cases "row_at sname (schedules d) (sname x)")
    case None
    then show ?thesis by (auto simp: upsert_schedule_def row_at_append split: option.split)
  next
    case (Some s)
    then show ?thesis
      by (auto simp: upsert_schedule_def row_at_update_where keep map_option_case split: option.split
          dest: row_at_SomeD)
  qed
qed

lemma names_distinct_upsert:
  assumes "names_distinct d"
  shows "names_distinct (upsert_schedule x d)"
proof (cases "row_at sname (schedules d) (sname x)")
  case None
  then have "sname x \<notin> sname ` set (schedules d)" by (simp only: row_at_None_iff not_False_eq_True)
  with None assms show ?thesis by (simp add: upsert_schedule_def names_distinct_def)
next
  case (Some s)
  with assms show ?thesis
    by (simp add: upsert_schedule_def names_distinct_def map_update_where reregister_row_def)
qed



subsection \<open>The loop\<close>

text \<open>
  Where \<^verbatim>\<open>run_scheduler\<close> is: at its top, having read the wake-up generation, having made a
  pass in idle mode, asleep for a time, waiting for a wake-up, gone with an exception, or ended.
\<close>

datatype sched_pc =
    Sched_top
  | Sched_looking int
  | Sched_passed int
  | Sched_pausing real
  | Sched_waiting int "real option"
  | Sched_crashed exn
  | Sched_ended

record sched_state =
  sdb :: db
  sgen :: wakeup
  spc :: sched_pc
  sretry :: real
  sopen :: bool
  sstop :: bool

definition start_scheduler :: "db \<Rightarrow> wakeup \<Rightarrow> sched_state" where
  "start_scheduler d g =
     \<lparr> sdb = d, sgen = g, spc = Sched_top, sretry = RECONNECT_MIN_DELAY, sopen = True, sstop = False \<rparr>"

text \<open>
  \<open>lost_commit\<close> is a connection that drops after the server has committed and before the reply: the
  pass counts, the wake-up is not sent. \<open>others\<close> is what every other thread and process does.
\<close>

inductive sched_step :: "bool \<Rightarrow> real \<Rightarrow> sched_state \<Rightarrow> sched_state \<Rightarrow> bool" for idle poll_interval where
  look: "spc s = Sched_top \<Longrightarrow> \<not> sstop s \<Longrightarrow>
    sched_step idle poll_interval s (s\<lparr>spc := Sched_looking (current (sgen s))\<rparr>)"
| leave: "spc s = Sched_top \<Longrightarrow> sstop s \<Longrightarrow>
    sched_step idle poll_interval s (s\<lparr>spc := Sched_ended, sopen := False\<rparr>)"
| pass_poll: "spc s = Sched_looking seen \<Longrightarrow> \<not> idle \<Longrightarrow>
    run_due_schedules e (sdb s, sgen s) = (Inr n, d', g') \<Longrightarrow>
    sched_step idle poll_interval s (s\<lparr>sdb := d', sgen := g', spc := Sched_pausing poll_interval,
      sretry := RECONNECT_MIN_DELAY, sopen := True\<rparr>)"
| pass_idle: "spc s = Sched_looking seen \<Longrightarrow> idle \<Longrightarrow>
    run_due_schedules e (sdb s, sgen s) = (Inr n, d', g') \<Longrightarrow>
    sched_step idle poll_interval s (s\<lparr>sdb := d', sgen := g', spc := Sched_passed seen, sopen := True\<rparr>)"
| go_idle: "spc s = Sched_passed seen \<Longrightarrow> seconds_until_next_schedule t (sdb s) = (secs, d') \<Longrightarrow>
    timeout = idle_timeout secs \<Longrightarrow>
    sched_step idle poll_interval s (s\<lparr>sdb := d', spc := Sched_waiting seen timeout,
      sretry := RECONNECT_MIN_DELAY, sopen := \<not> long_sleep timeout\<rparr>)"
| woken: "spc s = Sched_waiting seen timeout \<Longrightarrow> wait_returns seen timeout slept (sgen s) \<Longrightarrow>
    sched_step idle poll_interval s (s\<lparr>spc := Sched_top\<rparr>)"
| paused: "spc s = Sched_pausing delay \<Longrightarrow> pause_returns delay st slept \<Longrightarrow> st \<in> {None, Some (sstop s)} \<Longrightarrow>
    sched_step idle poll_interval s (s\<lparr>spc := Sched_top\<rparr>)"
| lost: "spc s = Sched_looking seen \<or> spc s = Sched_passed seen \<Longrightarrow>
    sched_step idle poll_interval s (s\<lparr>spc := Sched_pausing (sretry s),
      sretry := next_retry_delay (sretry s), sopen := False\<rparr>)"
| lost_commit: "spc s = Sched_looking seen \<Longrightarrow> run_due_schedules e (sdb s, sgen s) = (Inr n, d', g') \<Longrightarrow>
    sched_step idle poll_interval s (s\<lparr>sdb := d', spc := Sched_pausing (sretry s),
      sretry := next_retry_delay (sretry s), sopen := False\<rparr>)"
| crash: "spc s = Sched_looking seen \<Longrightarrow> run_due_schedules e (sdb s, sgen s) = (Inl x, d', g') \<Longrightarrow>
    sched_step idle poll_interval s (s\<lparr>sdb := d', spc := Sched_crashed x, sopen := True\<rparr>)"
| others: "jobs_run (sdb s) d' \<Longrightarrow>
    sched_step idle poll_interval s (s\<lparr>sdb := d', sgen := (wake ^^ n) (sgen s)\<rparr>)"
| stop: "sched_step idle poll_interval s (s\<lparr>sstop := True\<rparr>)"

abbreviation sched_run :: "bool \<Rightarrow> real \<Rightarrow> sched_state \<Rightarrow> sched_state \<Rightarrow> bool" where
  "sched_run idle poll_interval \<equiv> (sched_step idle poll_interval)\<^sup>*\<^sup>*"

definition delay_ok :: "real \<Rightarrow> bool" where
  "delay_ok r \<longleftrightarrow> RECONNECT_MIN_DELAY \<le> r \<and> r \<le> RECONNECT_MAX_DELAY"

fun pc_ok :: "bool \<Rightarrow> real \<Rightarrow> sched_pc \<Rightarrow> int \<Rightarrow> bool \<Rightarrow> bool" where
  "pc_ok idle poll Sched_top g opn = True"
| "pc_ok idle poll (Sched_looking seen) g opn = (seen \<le> g)"
| "pc_ok idle poll (Sched_passed seen) g opn = (idle \<and> seen \<le> g)"
| "pc_ok idle poll (Sched_pausing d) g opn = (\<not> idle \<and> d = poll \<or> delay_ok d \<and> \<not> opn)"
| "pc_ok idle poll (Sched_waiting seen timeout) g opn =
     (idle \<and> seen \<le> g \<and> (\<forall>t. timeout = Some t \<longrightarrow> MIN_SLEEP \<le> t) \<and> opn = (\<not> long_sleep timeout))"
| "pc_ok idle poll (Sched_crashed x) g opn = True"
| "pc_ok idle poll Sched_ended g opn = (\<not> opn)"

definition sched_inv :: "bool \<Rightarrow> real \<Rightarrow> sched_state \<Rightarrow> bool" where
  "sched_inv idle poll s \<longleftrightarrow> jobs_ok (sdb s) \<and> delay_ok (sretry s) \<and>
     pc_ok idle poll (spc s) (current (sgen s)) (sopen s)"

lemma delay_ok_min [simp]: "delay_ok RECONNECT_MIN_DELAY"
  by (simp add: delay_ok_def RECONNECT_MIN_DELAY_def RECONNECT_MAX_DELAY_def)

lemma delay_ok_next [simp]: "delay_ok r \<Longrightarrow> delay_ok (next_retry_delay r)"
  by (auto simp: delay_ok_def next_retry_delay_def RECONNECT_MIN_DELAY_def RECONNECT_MAX_DELAY_def)

lemma idle_timeout_min: "idle_timeout secs = Some t \<Longrightarrow> MIN_SLEEP \<le> t"
  by (auto simp: idle_timeout_def)

lemma current_wakes: "current g \<le> current ((wake ^^ n) g)"
  using wakes.wakes_later [of n g] by (cases n) auto

lemma pc_ok_later: "pc_ok idle poll p g opn \<Longrightarrow> g \<le> g' \<Longrightarrow> pc_ok idle poll p g' opn"
  by (cases p) auto

lemma run_due_current:
  "run_due_schedules e (d, g) = (x, d', g') \<Longrightarrow> current g \<le> current g'"
  by (auto simp: run_due_schedules_def split: prod.splits sum.splits if_splits)

lemma run_due_ok:
  "run_due_schedules e (d, g) = (x, d', g') \<Longrightarrow> jobs_ok d \<Longrightarrow> jobs_ok d'"
  using run_due_schedules_run jobs_run_ok by blast

lemma sched_inv_step: "sched_step idle poll s s' \<Longrightarrow> sched_inv idle poll s \<Longrightarrow> sched_inv idle poll s'"
proof (induction rule: sched_step.induct)
  case (others s d' n)
  then show ?case
    using current_wakes [of "sgen s" n] by (auto simp: sched_inv_def intro: pc_ok_later jobs_run_ok)
next
  case (pass_poll s seen e n d' g')
  then show ?case using run_due_ok by (auto simp: sched_inv_def)
next
  case (pass_idle s seen e n d' g')
  then show ?case using run_due_ok run_due_current [OF pass_idle(3)] by (auto simp: sched_inv_def)
next
  case (lost_commit s seen e n d' g')
  then show ?case using run_due_ok by (auto simp: sched_inv_def)
next
  case (crash s seen e x d' g')
  then show ?case using run_due_ok by (auto simp: sched_inv_def)
next
  case (go_idle s seen t secs d' timeout)
  then have "jobs_ok d'" by (auto simp: sched_inv_def seconds_until_next_schedule_def)
  with go_idle show ?case by (auto simp: sched_inv_def dest: idle_timeout_min [OF sym] intro: idle_timeout_min)
qed (auto simp: sched_inv_def)

text \<open>
  The scheduler's loop. In every state any run of it can reach, among whatever else uses the
  database: the jobs table is well formed; the reconnection delay is between its bounds, and a
  scheduler that waits one out has closed its connection; an idle one never waits less than the
  minimum sleep, it holds its connection exactly if the wait is short, and a wake-up since it
  began to look makes the wait return at once; one that has ended holds no connection.
\<close>

lemma scheduler_loop_inv:
  assumes "jobs_ok d" and "sched_run idle poll (start_scheduler d g) s"
  shows "jobs_ok (sdb s) \<and> delay_ok (sretry s) \<and>
    (case spc s of
       Sched_pausing delay \<Rightarrow> \<not> idle \<and> delay = poll \<or> delay_ok delay \<and> \<not> sopen s
     | Sched_waiting seen timeout \<Rightarrow>
         idle \<and> (\<forall>t. timeout = Some t \<longrightarrow> MIN_SLEEP \<le> t) \<and> (sopen s \<longleftrightarrow> \<not> long_sleep timeout) \<and>
         (\<forall>n slept. wait_returns seen timeout slept ((wake ^^ Suc n) (sgen s)))
     | Sched_ended \<Rightarrow> \<not> sopen s
     | _ \<Rightarrow> True)"
proof -
  have "sched_inv idle poll s"
    using assms(2)
  proof (induction rule: rtranclp_induct)
    case base
    with assms(1) show ?case by (simp add: sched_inv_def start_scheduler_def)
  qed (rule sched_inv_step)
  moreover have "wait_returns seen timeout slept ((wake ^^ Suc n) w)"
    if "seen \<le> current w" for seen timeout slept n w
    using that wakes.wakes_later [of "Suc n" w] by (auto simp: wait_returns_def current_def)
  ultimately show ?thesis
    unfolding sched_inv_def by (cases "spc s") simp_all
qed

lemma scheduler_loop_inv_witness:
  "\<exists>s. sched_run True 1 (start_scheduler db_sched initial_wakeup) s \<and> spc s = Sched_pausing RECONNECT_MIN_DELAY \<and>
     delay_ok (sretry s)"
proof -
  let ?s = "start_scheduler db_sched initial_wakeup"
  let ?t = "?s\<lparr>spc := Sched_looking (current (sgen ?s))\<rparr>"
  have "sched_step True 1 ?s ?t"
    by (rule sched_step.look) (simp_all add: start_scheduler_def)
  moreover have "sched_step True 1 ?t (?t\<lparr>spc := Sched_pausing (sretry ?t),
      sretry := next_retry_delay (sretry ?t), sopen := False\<rparr>)"
    by (rule sched_step.lost [where seen = "current (sgen ?s)"]) simp
  ultimately have run: "sched_run True 1 ?s (?t\<lparr>spc := Sched_pausing (sretry ?t),
      sretry := next_retry_delay (sretry ?t), sopen := False\<rparr>)" (is "sched_run True 1 ?s ?u") by simp
  have "spc ?u = Sched_pausing RECONNECT_MIN_DELAY" by (simp add: start_scheduler_def)
  with run scheduler_loop_inv [OF db_sched_ok(2) run] show ?thesis by blast
qed

lemma sleep_until:
  fixes m t n :: int and b x :: real
  assumes "x = max (of_int (m - t) / 1000000) b" "b < x" "m \<le> n"
  shows "of_int t + x * 1000000 \<le> of_int n"
proof -
  have "x = of_int (m - t) / 1000000" using assms(1,2) by (simp add: max_def split: if_splits)
  then have "of_int t + x * 1000000 = of_int m" by (simp add: field_simps)
  with assms(3) show ?thesis by simp
qed

text \<open>
  An idle scheduler wakes in time. It sleeps without limit only if there is no schedule;
  otherwise no longer than until the first one is due, or the minimum sleep if that is sooner,
  and no schedule is due before then.
\<close>

lemma idle_scheduler_in_time:
  assumes "seconds_until_next_schedule t d = (secs, d')"
  shows "case idle_timeout secs of
      None \<Rightarrow> schedules d = []
    | Some x \<Rightarrow> MIN_SLEEP \<le> x \<and>
        (\<exists>s \<in> set (schedules d). x = max (of_int (next_run_at s - t) / 1000000) MIN_SLEEP) \<and>
        (\<forall>s \<in> set (schedules d). MIN_SLEEP < x \<longrightarrow> of_int t + x * 1000000 \<le> of_int (next_run_at s))"
proof (cases "schedules d")
  case Nil
  with assms show ?thesis by (auto simp: seconds_until_next_schedule_def min_opt_def idle_timeout_def)
next
  case (Cons s0 ss)
  let ?m = "Min (next_run_at ` set (schedules d))"
  have secs: "secs = Some (of_int (?m - t) / 1000000)"
    using assms Cons by (auto simp: seconds_until_next_schedule_def min_opt_def)
  have "?m \<in> next_run_at ` set (schedules d)" by (rule Min_in) (simp_all add: Cons)
  then obtain s where s: "s \<in> set (schedules d)" "next_run_at s = ?m" by auto
  have le: "?m \<le> next_run_at r" if "r \<in> set (schedules d)" for r using that by simp
  let ?x = "max (of_int (?m - t) / 1000000) MIN_SLEEP"
  have "of_int t + ?x * 1000000 \<le> (of_int (next_run_at r) :: real)"
    if "r \<in> set (schedules d)" "MIN_SLEEP < ?x" for r
    using refl that(2) le [OF that(1)] by (rule sleep_until)
  moreover have "\<exists>s \<in> set (schedules d). ?x = max (of_int (next_run_at s - t) / 1000000) MIN_SLEEP"
    using s by metis
  moreover have "idle_timeout secs = Some ?x" by (simp add: secs idle_timeout_def)
  ultimately show ?thesis by simp
qed

lemma idle_scheduler_in_time_witness:
  "\<exists>d'. seconds_until_next_schedule 0 db_sched = (Some 0, d') \<and> idle_timeout (Some 0) = Some MIN_SLEEP \<and>
     MIN_SLEEP \<le> MIN_SLEEP"
proof -
  obtain d' where d': "seconds_until_next_schedule 0 db_sched = (Some 0, d')"
    by (simp add: seconds_until_next_schedule_def min_opt_def sched1_def)
  have "idle_timeout (Some 0) = Some MIN_SLEEP" by (simp add: idle_timeout_def MIN_SLEEP_def)
  with idle_scheduler_in_time [OF d'] d' show ?thesis by simp
qed

end
