(* ===== verification/Session.thy ===== *)
theory Session
  imports Enqueueing Wakeup
begin

section \<open>Enqueueing through a SQLAlchemy session\<close>

text \<open>
  \<^verbatim>\<open>src/durable_queue/sqlalchemy.py\<close>. Of SQLAlchemy, what the module uses of it: statements run
  in the session's transaction, \<^verbatim>\<open>commit()\<close> and \<^verbatim>\<open>rollback()\<close> end it and then call the
  listeners registered for \<^verbatim>\<open>after_commit\<close> and \<^verbatim>\<open>after_rollback\<close>, and \<^verbatim>\<open>info\<close> is a
  dictionary that lives as long as the session. Savepoints are not modelled. \<open>'a\<close> is the state of
  the application's own tables.
\<close>

record 'a session =
  ss_base :: "db \<times> 'a"
  ss_view :: "db \<times> 'a"
  ss_enqueued :: bool
  ss_listening :: bool

definition new_session :: "db \<times> 'a \<Rightarrow> 'a session" where
  "new_session st = \<lparr> ss_base = st, ss_view = st, ss_enqueued = False, ss_listening = False \<rparr>"

subsection \<open>Hooks\<close>

definition wake_after_commit :: "'a session \<Rightarrow> 'a session" where
  "wake_after_commit s =
     (let s' = s\<lparr>ss_enqueued := True\<rparr>
      in if \<not> ss_listening s' then s'\<lparr>ss_listening := True\<rparr> else s')"

definition after_commit :: "'a session \<times> wakeup \<Rightarrow> 'a session \<times> wakeup" where
  "after_commit sg =
     (case sg of (s, g) \<Rightarrow> (s\<lparr>ss_enqueued := False\<rparr>, if ss_enqueued s then wake g else g))"

definition after_rollback :: "'a session \<Rightarrow> 'a session" where
  "after_rollback s = s\<lparr>ss_enqueued := False\<rparr>"

text \<open>What SQLAlchemy does at the end of a transaction.\<close>

definition session_commit :: "'a session \<times> wakeup \<Rightarrow> 'a session \<times> wakeup" where
  "session_commit sg =
     (case sg of (s, g) \<Rightarrow>
        let st = (conn_commit (fst (ss_view s)), snd (ss_view s));
            s' = s\<lparr>ss_base := st, ss_view := st\<rparr>
        in if ss_listening s then after_commit (s', g) else (s', g))"

definition session_rollback :: "'a session \<Rightarrow> 'a session" where
  "session_rollback s =
     (let st = (rollback_tx (fst (ss_base s)) (fst (ss_view s)), snd (ss_base s));
          s' = s\<lparr>ss_base := st, ss_view := st\<rparr>
      in if ss_listening s then after_rollback s' else s')"

subsection \<open>Enqueueing\<close>

definition session_enqueue :: "stmt \<Rightarrow> string \<Rightarrow> args \<Rightarrow> string option \<Rightarrow> 'a session \<Rightarrow> int \<times> 'a session" where
  "session_enqueue e tsk a k s =
     (case enqueue e tsk a k (fst (ss_view s)) of
        (i, d) \<Rightarrow> (i, wake_after_commit (s\<lparr>ss_view := (d, snd (ss_view s))\<rparr>)))"

definition session_enqueue_many :: "stmt \<Rightarrow> string \<Rightarrow> args list \<Rightarrow> string option list option \<Rightarrow> 'a session
    \<Rightarrow> (int list \<times> 'a session) result" where
  "session_enqueue_many e tsk args_list idempotency_keys s =
     (if args_list = [] then Inr ([], s)
      else bind_result (enqueue_many e tsk args_list idempotency_keys (fst (ss_view s)))
        (\<lambda>(is, d). Inr (is, wake_after_commit (s\<lparr>ss_view := (d, snd (ss_view s))\<rparr>))))"

subsection \<open>A transaction\<close>

text \<open>What an application does between two ends of a transaction; a raise makes it roll back.\<close>

datatype 'a session_op =
    Enqueue stmt string args "string option"
  | Enqueue_many stmt string "args list" "string option list option"
  | App_write "'a \<Rightarrow> 'a"

fun apply_op :: "'a session_op \<Rightarrow> 'a session \<Rightarrow> 'a session result" where
  "apply_op (Enqueue e tsk a k) s = Inr (snd (session_enqueue e tsk a k s))"
| "apply_op (Enqueue_many e tsk as ks) s =
     bind_result (session_enqueue_many e tsk as ks s) (\<lambda>(is, s'). Inr s')"
| "apply_op (App_write f) s = Inr (s\<lparr>ss_view := (fst (ss_view s), f (snd (ss_view s)))\<rparr>)"

fun session_ops :: "'a session_op list \<Rightarrow> 'a session \<Rightarrow> 'a session result" where
  "session_ops [] s = Inr s"
| "session_ops (x # xs) s = bind_result (apply_op x s) (session_ops xs)"

fun enqueues :: "'a session_op \<Rightarrow> bool" where
  "enqueues (Enqueue e tsk a k) = True"
| "enqueues (Enqueue_many e tsk as ks) = (as \<noteq> [])"
| "enqueues (App_write f) = False"

fun app_write :: "'a session_op \<Rightarrow> 'a \<Rightarrow> 'a" where
  "app_write (App_write f) = f"
| "app_write _ = id"

definition in_transaction :: "'a session \<Rightarrow> bool \<Rightarrow> 'a session \<Rightarrow> bool" where
  "in_transaction s enq s' \<longleftrightarrow> ss_base s' = ss_base s \<and> ss_enqueued s' = (ss_enqueued s \<or> enq) \<and>
     (ss_enqueued s' \<longrightarrow> ss_listening s') \<and> (ss_listening s \<longrightarrow> ss_listening s') \<and>
     upkeep_run (fst (ss_view s)) (fst (ss_view s'))"

lemma wake_after_commit_sel [simp]:
  "ss_base (wake_after_commit s) = ss_base s" "ss_view (wake_after_commit s) = ss_view s"
  "ss_enqueued (wake_after_commit s)" "ss_listening (wake_after_commit s)"
  by (simp_all add: wake_after_commit_def Let_def)

lemma session_op_step:
  assumes "apply_op x s = Inr s'" "ss_enqueued s \<longrightarrow> ss_listening s"
  shows "in_transaction s (enqueues x) s' \<and> snd (ss_view s') = app_write x (snd (ss_view s))"
proof (cases x)
  case (Enqueue e tsk a k)
  obtain i d where e: "enqueue e tsk a k (fst (ss_view s)) = (i, d)" by fastforce
  then have "upkeep_run (fst (ss_view s)) d" by (blast intro: upkeep_step.enqueue)
  with assms Enqueue e show ?thesis by (auto simp: in_transaction_def session_enqueue_def)
next
  case (Enqueue_many e tsk as ks)
  show ?thesis
  proof (cases "as = []")
    case True
    with assms Enqueue_many show ?thesis by (auto simp: in_transaction_def session_enqueue_many_def)
  next
    case False
    with assms(1) Enqueue_many obtain "is" d where
      e: "enqueue_many e tsk as ks (fst (ss_view s)) = Inr (is, d)"
      "s' = wake_after_commit (s\<lparr>ss_view := (d, snd (ss_view s))\<rparr>)"
      by (auto simp: session_enqueue_many_def)
    then have "upkeep_run (fst (ss_view s)) d" by (blast intro: upkeep_step.enqueue_many)
    with assms Enqueue_many False e show ?thesis by (auto simp: in_transaction_def)
  qed
next
  case (App_write f)
  with assms show ?thesis by (auto simp: in_transaction_def)
qed

lemma session_ops_run:
  "session_ops xs s = Inr s' \<Longrightarrow> ss_enqueued s \<longrightarrow> ss_listening s \<Longrightarrow>
   in_transaction s (\<exists>x \<in> set xs. enqueues x) s' \<and>
   snd (ss_view s') = fold app_write xs (snd (ss_view s))"
proof (induction xs arbitrary: s)
  case Nil
  then show ?case by (auto simp: in_transaction_def)
next
  case (Cons x xs)
  then obtain s1 where s1: "apply_op x s = Inr s1" "session_ops xs s1 = Inr s'" by auto
  note step = session_op_step [OF s1(1) Cons.prems(2)]
  then have "ss_enqueued s1 \<longrightarrow> ss_listening s1" by (simp add: in_transaction_def)
  from Cons.IH [OF s1(2) this] step show ?case
    by (auto simp: in_transaction_def intro: rtranclp_trans)
qed

text \<open>
  C36: a job commits with the writes it belongs to, and only the commit wakes the worker. During a
  session's transaction nothing is committed; a rollback discards jobs and writes alike, wakes
  nobody then or later; a commit makes both visible at once and wakes this process's idle
  worker exactly if the transaction enqueued something, once however many it enqueued. Either
  end leaves the session ready for its next transaction.
\<close>

theorem session_commits_with_writes:
  assumes "ss_view s = ss_base s" and "\<not> ss_enqueued s" and "notifies (fst (ss_base s)) = []"
    and "jobs_ok (fst (ss_base s))" and "session_ops xs s = Inr s'"
  shows "ss_base s' = ss_base s \<and>
    (case session_commit (s', g) of (s1, g1) \<Rightarrow>
       ss_base s1 = ss_view s1 \<and> \<not> ss_enqueued s1 \<and>
       jobs_run (fst (ss_base s)) (fst (ss_base s1)) \<and> jobs_ok (fst (ss_base s1)) \<and>
       jobs (fst (ss_base s1)) = jobs (fst (ss_view s')) \<and>
       snd (ss_base s1) = fold app_write xs (snd (ss_base s)) \<and>
       g1 = (if \<exists>x \<in> set xs. enqueues x then wake g else g)) \<and>
    (let s1 = session_rollback s' in
       ss_base s1 = ss_view s1 \<and> \<not> ss_enqueued s1 \<and>
       jobs (fst (ss_base s1)) = jobs (fst (ss_base s)) \<and> snd (ss_base s1) = snd (ss_base s) \<and>
       notifies (fst (ss_base s1)) = [] \<and> (\<forall>g. snd (session_commit (s1, g)) = g))"
proof -
  have "in_transaction s (\<exists>x \<in> set xs. enqueues x) s'" "snd (ss_view s') = fold app_write xs (snd (ss_base s))"
    using session_ops_run [OF assms(5)] assms(1,2) by simp_all
  then have base: "ss_base s' = ss_base s" and enq: "ss_enqueued s' = (\<exists>x \<in> set xs. enqueues x)"
    "ss_enqueued s' \<longrightarrow> ss_listening s'" and run: "upkeep_run (fst (ss_base s)) (fst (ss_view s'))"
    and app: "snd (ss_view s') = fold app_write xs (snd (ss_base s))"
    using assms(1,2) by (simp_all add: in_transaction_def)
  have "jobs_run (fst (ss_base s)) (conn_commit (fst (ss_view s')))"
    using upkeep_run_jobs [OF run] by (rule rtranclp.rtrancl_into_rtrancl) (intro jobs_step.upkeep upkeep_step.commit)
  moreover from this assms(4) have "jobs_ok (conn_commit (fst (ss_view s')))" by (rule jobs_run_ok)
  ultimately show ?thesis
    using base enq app assms(3)
    by (auto simp: session_commit_def after_commit_def session_rollback_def after_rollback_def Let_def)
qed

lemma session_commits_with_writes_witness:
  "\<exists>s'. session_ops [App_write (\<lambda>n. n + 1), Enqueue \<lparr>now = 7, locked = [], scan = id\<rparr> ''t'' [] None]
      (new_session (empty_db, 0 :: nat)) = Inr s' \<and>
     snd (session_commit (s', initial_wakeup)) = wake initial_wakeup \<and>
     snd (ss_base (fst (session_commit (s', initial_wakeup)))) = 1"
proof -
  let ?xs = "[App_write (\<lambda>n. n + 1), Enqueue \<lparr>now = 7, locked = [], scan = id\<rparr> ''t'' [] None] :: nat session_op list"
  let ?s = "new_session (empty_db, 0 :: nat)"
  obtain s' where s': "session_ops ?xs ?s = Inr s'" by simp
  have ss: "ss_view ?s = ss_base ?s" "\<not> ss_enqueued ?s" "notifies (fst (ss_base ?s)) = []"
    "jobs_ok (fst (ss_base ?s))" "snd (ss_base ?s) = 0"
    by (simp_all add: new_session_def) (simp add: empty_db_def)
  from session_commits_with_writes [OF ss(1-4) s', of initial_wakeup] s' ss(5) show ?thesis
    by (auto simp: split_beta)
qed

end
