(* ===== verification/Runner.thy ===== *)
theory Runner
  imports Worker Connection Wakeup
begin

section \<open>A worker and a scheduler inside an application\<close>

text \<open>
  \<^verbatim>\<open>src/durable_queue/runner.py\<close>: \<^verbatim>\<open>Runner.start\<close>, \<^verbatim>\<open>Runner.stop\<close> and the threads
  of \<^verbatim>\<open>_keep_running\<close> as a step relation. What the loops themselves do is \<^theory_text>\<open>Slots\<close> and
  \<^theory_text>\<open>Scheduler\<close>; here a loop returns or raises whatever it likes. Keyword arguments are a map; the
  stop event is the one value that is not plain data.
\<close>

definition RESTART_DELAY :: real where
  "RESTART_DELAY = 5"

datatype option_value = Data json | Stop_event

type_synonym options = "string \<rightharpoonup> option_value"

datatype loop = Run_worker | Run_scheduler

datatype thread_state = Checking | In_loop | Restarting | Ended | Died exn

record thread =
  th_loop :: loop
  th_options :: options
  th_state :: thread_state

record runner =
  rn_dsn :: "string option"
  rn_worker_options :: options
  rn_stop :: bool
  rn_threads :: "thread list"

definition dsn_value :: "string option \<Rightarrow> option_value" where
  "dsn_value dsn = Data (case dsn of None \<Rightarrow> JNull | Some s \<Rightarrow> JStr s)"

definition new_runner :: "int \<Rightarrow> string option \<Rightarrow> options \<Rightarrow> runner" where
  "new_runner concurrency dsn worker_options =
     \<lparr> rn_dsn = dsn,
       rn_worker_options = [''concurrency'' \<mapsto> Data (JInt concurrency), ''dsn'' \<mapsto> dsn_value dsn] ++ worker_options,
       rn_stop = False, rn_threads = [] \<rparr>"

definition start_thread :: "loop \<Rightarrow> options \<Rightarrow> thread" where
  "start_thread l options =
     \<lparr> th_loop = l, th_options = options(''idle'' \<mapsto> Data (JBool True), ''stop'' \<mapsto> Stop_event),
       th_state = Checking \<rparr>"

definition start :: "environ \<Rightarrow> dsn_parser \<Rightarrow> exn option \<Rightarrow> runner \<times> net \<Rightarrow> runner result \<times> net" where
  "start env parse fails st =
     (case st of (r, n) \<Rightarrow>
        case get_connection env parse fails (rn_dsn r) n of
          (Inl x, n') \<Rightarrow> (Inl x, n')
        | (Inr c, n') \<Rightarrow>
            (Inr (r\<lparr>rn_threads := rn_threads r @
                [start_thread Run_worker (rn_worker_options r),
                 start_thread Run_scheduler [''dsn'' \<mapsto> dsn_value (rn_dsn r)]]\<rparr>),
             close_conn c n'))"

definition stop :: "runner \<times> wakeup \<Rightarrow> runner \<times> wakeup" where
  "stop st = (case st of (r, g) \<Rightarrow> (r\<lparr>rn_stop := True\<rparr>, wake g))"

definition set_state :: "nat \<Rightarrow> thread_state \<Rightarrow> runner \<Rightarrow> runner" where
  "set_state k t r = r\<lparr>rn_threads := (rn_threads r)[k := (rn_threads r ! k)\<lparr>th_state := t\<rparr>]\<rparr>"

definition state_of :: "runner \<Rightarrow> nat \<Rightarrow> thread_state" where
  "state_of r k = th_state (rn_threads r ! k)"

text \<open>\<^verbatim>\<open>_keep_running\<close>, thread by thread, and \<^verbatim>\<open>stop()\<close>.\<close>

inductive runner_step :: "runner \<times> wakeup \<Rightarrow> runner \<times> wakeup \<Rightarrow> bool" where
  enter: "k < length (rn_threads r) \<Longrightarrow> state_of r k = Checking \<Longrightarrow> \<not> rn_stop r \<Longrightarrow>
    runner_step (r, g) (set_state k In_loop r, g)"
| leave: "k < length (rn_threads r) \<Longrightarrow> state_of r k = Checking \<Longrightarrow> rn_stop r \<Longrightarrow>
    runner_step (r, g) (set_state k Ended r, g)"
| returns: "k < length (rn_threads r) \<Longrightarrow> state_of r k = In_loop \<Longrightarrow>
    runner_step (r, g) (set_state k Checking r, g)"
| raises: "k < length (rn_threads r) \<Longrightarrow> state_of r k = In_loop \<Longrightarrow> is_exception x \<Longrightarrow>
    runner_step (r, g) (set_state k Restarting r, g)"
| dies: "k < length (rn_threads r) \<Longrightarrow> state_of r k = In_loop \<Longrightarrow> \<not> is_exception x \<Longrightarrow>
    runner_step (r, g) (set_state k (Died x) r, g)"
| restart: "k < length (rn_threads r) \<Longrightarrow> state_of r k = Restarting \<Longrightarrow>
    pause_returns RESTART_DELAY (Some (rn_stop r)) slept \<Longrightarrow>
    runner_step (r, g) (set_state k Checking r, g)"
| stopped: "runner_step (r, g) (stop (r, g))"
| others: "runner_step (r, g) (r, (wake ^^ n) g)"

abbreviation runner_run :: "runner \<times> wakeup \<Rightarrow> runner \<times> wakeup \<Rightarrow> bool" where
  "runner_run \<equiv> runner_step\<^sup>*\<^sup>*"

lemma set_state_sel [simp]:
  "rn_stop (set_state k t r) = rn_stop r" "length (rn_threads (set_state k t r)) = length (rn_threads r)"
  "rn_dsn (set_state k t r) = rn_dsn r" "rn_worker_options (set_state k t r) = rn_worker_options r"
  by (simp_all add: set_state_def)

lemma state_of_set_state:
  "k < length (rn_threads r) \<Longrightarrow> state_of (set_state k t r) i = (if i = k then t else state_of r i)"
  by (auto simp: state_of_def set_state_def nth_list_update)

lemma thread_of_set_state [simp]:
  "k < length (rn_threads r) \<Longrightarrow> th_loop (rn_threads (set_state k t r) ! i) = th_loop (rn_threads r ! i)"
  "k < length (rn_threads r) \<Longrightarrow> th_options (rn_threads (set_state k t r) ! i) = th_options (rn_threads r ! i)"
  by (auto simp: set_state_def nth_list_update)

definition stays :: "runner \<Rightarrow> runner \<Rightarrow> bool" where
  "stays r r' \<longleftrightarrow> length (rn_threads r') = length (rn_threads r) \<and> (rn_stop r \<longrightarrow> rn_stop r') \<and>
     (\<forall>i. th_loop (rn_threads r' ! i) = th_loop (rn_threads r ! i) \<and>
          th_options (rn_threads r' ! i) = th_options (rn_threads r ! i)) \<and>
     (\<forall>i. rn_stop r \<longrightarrow> state_of r i \<noteq> In_loop \<longrightarrow> state_of r' i \<noteq> In_loop)"

definition alive :: "runner \<Rightarrow> bool" where
  "alive r \<longleftrightarrow> (\<forall>i < length (rn_threads r).
     (state_of r i = Ended \<longrightarrow> rn_stop r) \<and> (\<forall>x. state_of r i = Died x \<longrightarrow> \<not> is_exception x))"

lemma runner_step_ok: "runner_step st st' \<Longrightarrow> stays (fst st) (fst st') \<and> (alive (fst st) \<longrightarrow> alive (fst st'))"
  by (induction rule: runner_step.induct)
    (auto simp: stays_def alive_def state_of_set_state stop_def, simp_all add: state_of_def)

lemma runner_run_ok:
  assumes "runner_run st st'"
  shows "stays (fst st) (fst st') \<and> (alive (fst st) \<longrightarrow> alive (fst st'))"
  using assms
proof (induction rule: rtranclp_induct)
  case base
  show ?case by (simp add: stays_def)
next
  case (step y z)
  with runner_step_ok [OF step(2)] show ?case by (auto simp: stays_def)
qed

lemma start_cases:
  assumes "start env parse fails (new_runner concurrency dsn opts, n) = (res, n')"
    and "next_conn n \<notin> set (open_conns n)"
  shows "open_conns n' = open_conns n"
    and "res = Inr r0 \<Longrightarrow> rn_threads r0 = [start_thread Run_worker (rn_worker_options (new_runner concurrency dsn opts)),
      start_thread Run_scheduler [''dsn'' \<mapsto> dsn_value dsn]]"
  using assms
  by (auto simp: start_def new_runner_def get_connection_def psycopg_connect_def close_conn_def Let_def
      filter_id_conv split: prod.splits sum.splits option.splits)

lemma started_runs:
  assumes "rn_threads r0 = [start_thread l1 o1, start_thread l2 o2]" "runner_run (r0, g) (r, g')"
  shows "length (rn_threads r) = 2" "alive r"
    "k < 2 \<Longrightarrow> th_options (rn_threads r ! k) ''idle'' = Some (Data (JBool True))"
    "k < 2 \<Longrightarrow> th_options (rn_threads r ! k) ''stop'' = Some Stop_event"
proof -
  have "alive r0"
    by (auto simp: alive_def state_of_def assms(1) start_thread_def less_Suc_eq)
  with runner_run_ok [OF assms(2)] show "alive r" "length (rn_threads r) = 2"
    by (simp_all add: stays_def assms(1))
  have "th_options (rn_threads r ! k) = th_options (rn_threads r0 ! k)"
    using runner_run_ok [OF assms(2)] by (simp add: stays_def)
  moreover assume "k < 2"
  then have "k = 0 \<or> k = 1" by auto
  ultimately show "th_options (rn_threads r ! k) ''idle'' = Some (Data (JBool True))"
    "th_options (rn_threads r ! k) ''stop'' = Some Stop_event"
    by (auto simp: assms(1) start_thread_def)
qed

text \<open>
  The runner keeps both loops running. Starting fails, with nothing started, if the database
  cannot be reached, and otherwise leaves no connection open and runs the worker and the scheduler in
  idle mode with its stop event, whatever the caller's options say. Until \<open>stop\<close> neither ends
  except by an exception that is not an \<open>Exception\<close>: one that crashes is restarted. Once it is
  stopped, a loop that is not running is never entered again.
\<close>

lemma runner_keeps_running:
  assumes "start env parse fails (new_runner concurrency dsn opts, n) = (res, n')"
    and "next_conn n \<notin> set (open_conns n)"
  shows "case res of
      Inl x \<Rightarrow> open_conns n' = open_conns n
    | Inr r0 \<Rightarrow> open_conns n' = open_conns n \<and> map th_loop (rn_threads r0) = [Run_worker, Run_scheduler] \<and>
        (\<forall>g r g'. runner_run (r0, g) (r, g') \<longrightarrow>
          length (rn_threads r) = 2 \<and>
          (\<forall>k < 2. th_options (rn_threads r ! k) ''idle'' = Some (Data (JBool True)) \<and>
            th_options (rn_threads r ! k) ''stop'' = Some Stop_event \<and>
            (state_of r k = Ended \<longrightarrow> rn_stop r) \<and> (\<forall>x. state_of r k = Died x \<longrightarrow> \<not> is_exception x) \<and>
            (rn_stop r \<longrightarrow> state_of r k \<noteq> In_loop \<longrightarrow>
              (\<forall>r'' g''. runner_run (r, g') (r'', g'') \<longrightarrow> state_of r'' k \<noteq> In_loop))))"
proof (cases res)
  case (Inl x)
  with start_cases(1) [OF assms] show ?thesis by simp
next
  case (Inr r0)
  note threads = start_cases(2) [OF assms Inr]
  have "th_options (rn_threads r ! k) ''idle'' = Some (Data (JBool True)) \<and>
      th_options (rn_threads r ! k) ''stop'' = Some Stop_event \<and>
      (state_of r k = Ended \<longrightarrow> rn_stop r) \<and> (\<forall>x. state_of r k = Died x \<longrightarrow> \<not> is_exception x)"
    if "runner_run (r0, g) (r, g')" "k < 2" for g r g' k
    using started_runs [OF threads that(1)] that(2) by (simp add: alive_def)
  moreover have "state_of r'' k \<noteq> In_loop"
    if "runner_run (r, g') (r'', g'')" "rn_stop r" "state_of r k \<noteq> In_loop" for r g' r'' g'' k
    using runner_run_ok [OF that(1)] that(2,3) by (simp add: stays_def)
  moreover have "map th_loop (rn_threads r0) = [Run_worker, Run_scheduler]"
    by (simp add: threads start_thread_def)
  moreover have "length (rn_threads r) = 2" if "runner_run (r0, g) (r, g')" for g r g'
    using threads that by (rule started_runs)
  ultimately show ?thesis using start_cases(1) [OF assms] Inr by simp
qed

lemma runner_keeps_running_witness:
  "\<exists>r0 n'. start (\<lambda>_. None) (\<lambda>_. Inr []) None (new_runner 2 None Map.empty, net0) = (Inr r0, n') \<and>
     map th_loop (rn_threads r0) = [Run_worker, Run_scheduler]"
proof -
  have fresh: "next_conn net0 \<notin> set (open_conns net0)" by (simp add: net0_def)
  obtain res n' where s: "start (\<lambda>_. None) (\<lambda>_. Inr []) None (new_runner 2 None Map.empty, net0) = (res, n')"
    by fastforce
  then obtain r0 where "res = Inr r0"
    by (auto simp: start_def get_connection_def psycopg_connect_def connection_kwargs_def Let_def new_runner_def)
  with runner_keeps_running [OF s fresh] s show ?thesis by auto
qed

end
