(* ===== verification/Cli.thy ===== *)
theory Cli
  imports Inspection
begin

section \<open>The command line\<close>

text \<open>
  \<^verbatim>\<open>src/durable_queue/cli.py\<close>: the commands, from the connection to the lines they print and
  the exit code. How \<^verbatim>\<open>str\<close> and \<^verbatim>\<open>format\<close> show instants, \<open>args\<close> and floats is a
  parameter. A command that raises prints a traceback and is \<open>Inl\<close> here; every command closes its
  connection whatever happens.
\<close>

record formats =
  f_instant :: "micros \<Rightarrow> string"
  f_args :: "args \<Rightarrow> string"
  f_float :: "real \<Rightarrow> string"
  f_float1 :: "real \<Rightarrow> string"

record outcome =
  o_lines :: "string list"
  o_exit :: int

definition prints :: "string list \<Rightarrow> outcome" where
  "prints ls = \<lparr> o_lines = ls, o_exit = 0 \<rparr>"

definition exits :: "string list \<Rightarrow> int \<Rightarrow> outcome" where
  "exits ls code = \<lparr> o_lines = ls, o_exit = code \<rparr>"

text \<open>The format specifications \<^verbatim>\<open>:>w\<close> and \<^verbatim>\<open>:<w\<close>, and \<^verbatim>\<open>str\<close> of an optional value.\<close>

definition align_right :: "nat \<Rightarrow> string \<Rightarrow> string" where
  "align_right w s = replicate (w - length s) CHR '' '' @ s"

definition align_left :: "nat \<Rightarrow> string \<Rightarrow> string" where
  "align_left w s = s @ replicate (w - length s) CHR '' ''"

definition opt_str :: "('a \<Rightarrow> string) \<Rightarrow> 'a option \<Rightarrow> string" where
  "opt_str f v = (case v of None \<Rightarrow> ''None'' | Some x \<Rightarrow> f x)"

definition ls_line :: "formats \<Rightarrow> job_summary \<Rightarrow> string" where
  "ls_line f j =
     align_right 6 (int_str (l_id j)) @ ''  '' @ align_left 10 (status_text (l_status j)) @ '' '' @
     align_left 30 (l_task j) @ '' attempts='' @ int_str (l_attempts j) @
     '' created_at='' @ f_instant f (l_created_at j)"

definition cli_ls :: "formats \<Rightarrow> stmt \<Rightarrow> string option \<Rightarrow> int \<Rightarrow> db \<Rightarrow> outcome result" where
  "cli_ls f e st limit d =
     bind_result (list_jobs e st limit d) (\<lambda>js.
       Inr (if js = [] then prints [''No jobs found.''] else prints (map (ls_line f) js)))"

definition show_lines :: "formats \<Rightarrow> job \<Rightarrow> string list" where
  "show_lines f j =
     [''id: '' @ int_str (jid j),
      ''task: '' @ task j,
      ''args: '' @ f_args f (args j),
      ''idempotency_key: '' @ opt_str id (idempotency_key j),
      ''status: '' @ status_text (status j),
      ''run_at: '' @ f_instant f (run_at j),
      ''attempts: '' @ int_str (attempts j),
      ''max_attempts: '' @ int_str (max_attempts j),
      ''recoveries: '' @ int_str (recoveries j),
      ''max_recoveries: '' @ int_str (max_recoveries j),
      ''locked_by: '' @ opt_str id (locked_by j),
      ''locked_until: '' @ opt_str (f_instant f) (locked_until j),
      ''last_error: '' @ opt_str id (last_error j),
      ''created_at: '' @ f_instant f (created_at j),
      ''finished_at: '' @ opt_str (f_instant f) (finished_at j)]"

definition cli_show :: "formats \<Rightarrow> int \<Rightarrow> db \<Rightarrow> outcome" where
  "cli_show f job_id d =
     (case get_job job_id d of
        None \<Rightarrow> exits [''No job with id '' @ int_str job_id @ ''.''] 1
      | Some j \<Rightarrow> prints (show_lines f j))"

definition cli_retry :: "stmt \<Rightarrow> int \<Rightarrow> db \<Rightarrow> outcome \<times> db" where
  "cli_retry e job_id d =
     (case retry_job e job_id d of
        (succeeded, d') \<Rightarrow>
          (if succeeded then prints [''Job '' @ int_str job_id @ '' reset to pending.'']
           else exits [''Job '' @ int_str job_id @ '' is not dead (or doesn'' @ [CHR 0x27] @
                       ''t exist) - nothing to retry.''] 1, d'))"

definition dead_line :: "formats \<Rightarrow> job_summary \<Rightarrow> string" where
  "dead_line f j =
     align_right 6 (int_str (l_id j)) @ ''  '' @ align_left 30 (l_task j) @ '' attempts='' @
     int_str (l_attempts j) @ '' last_error='' @ opt_str id (l_last_error j)"

definition cli_dead :: "formats \<Rightarrow> stmt \<Rightarrow> int \<Rightarrow> db \<Rightarrow> outcome result" where
  "cli_dead f e limit d =
     bind_result (list_jobs e (Some ''dead'') limit d) (\<lambda>js.
       Inr (if js = [] then prints [''No dead jobs.''] else prints (map (dead_line f) js)))"

definition cli_purge :: "formats \<Rightarrow> stmt \<Rightarrow> real \<Rightarrow> int \<Rightarrow> db \<Rightarrow> (outcome \<times> db) result" where
  "cli_purge f e older_than_hours batch d =
     bind_result (delete_completed_jobs e (older_than_hours * 3600) batch d) (\<lambda>(deleted, d').
       Inr (prints [''Deleted '' @ int_str deleted @ '' completed job(s) finished more than '' @
                    f_float f older_than_hours @ ''h ago.''], d'))"

definition cli_stats :: "formats \<Rightarrow> stmt \<Rightarrow> db \<Rightarrow> db \<Rightarrow> outcome" where
  "cli_stats f e d1 d2 =
     (let s = get_queue_stats e d1 d2
      in prints
        [''pending:   '' @ int_str (st_pending s),
         ''running:   '' @ int_str (st_running s),
         ''succeeded: '' @ int_str (st_succeeded s),
         ''dead:      '' @ int_str (st_dead s),
         case oldest_pending_age_seconds s of
           None \<Rightarrow> ''oldest due pending job: none''
         | Some a \<Rightarrow> ''oldest due pending job: '' @ f_float1 f a @ ''s old''])"

text \<open>The defaults of the options.\<close>

definition DEFAULT_LIMIT :: int where "DEFAULT_LIMIT = 20"
definition DEFAULT_PURGE_HOURS :: real where "DEFAULT_PURGE_HOURS = 24"
definition DEFAULT_PURGE_BATCH :: int where "DEFAULT_PURGE_BATCH = 1000"

subsection \<open>What the commands do\<close>

lemma exit_simps [simp]:
  "o_exit (prints ls) = 0" "o_lines (prints ls) = ls"
  "o_exit (exits ls c) = c" "o_lines (exits ls c) = ls"
  by (simp_all add: prints_def exits_def)

lemma cli_retry_exit:
  assumes "jobs_ok d"
  shows "o_exit (fst (cli_retry e i d)) = (if \<exists>j. get_job i d = Some j \<and> status j = Dead then 0 else 1)"
proof -
  obtain b d' where b: "retry_job e i d = (b, d')" by fastforce
  from retry_job_spec [OF assms b] show ?thesis by (simp add: cli_retry_def b)
qed

lemma snd_cli_retry: "snd (cli_retry e i d) = snd (retry_job e i d)"
  by (simp add: cli_retry_def split: prod.split)

lemma dead_text [simp]: "status_text s = ''dead'' \<longleftrightarrow> s = Dead"
  by (cases s) simp_all

lemma cli_retry_spec:
  assumes "jobs_ok d"
  shows "case cli_retry e' i d of (out', d') \<Rightarrow>
      if \<exists>j. get_job i d = Some j \<and> status j = Dead
      then o_exit out' = 0 \<and> (\<exists>j. get_job i d' = Some j \<and> due (now e') j \<and> attempts j = 0 \<and>
        o_lines (cli_show f i d') = show_lines f j)
      else o_exit out' = 1 \<and> (\<forall>i'. get_job i' d' = get_job i' d)"
proof -
  obtain out' d' where r: "cli_retry e' i d = (out', d')" by fastforce
  obtain b where b: "retry_job e' i d = (b, d')" using r by (auto simp: cli_retry_def split: prod.splits)
  note spec = retry_job_spec [OF assms b]
  have ex: "o_exit out' = (if \<exists>j. get_job i d = Some j \<and> status j = Dead then 0 else 1)"
    using cli_retry_exit [OF assms, of e' i] r by simp
  show ?thesis
  proof (cases "\<exists>j. get_job i d = Some j \<and> status j = Dead")
    case True
    with ex spec r show ?thesis by (auto simp: cli_show_def)
  next
    case False
    have "get_job i' d' = get_job i' d" for i'
      using spec False by (cases "i' = i"; cases "get_job i d") auto
    with False ex r show ?thesis by auto
  qed
qed

text \<open>
  C37: the dead-letter commands fit together. \<open>dead\<close> prints a line for a dead job each, at most as
  many as asked for, and says so if there are none to print; \<open>retry\<close> on the id of any dead job, so of any
  line, exits with 0 and makes that job pending again and due, which \<open>show\<close> then prints; on any
  other id it exits with 1 and leaves every job as it was, and \<open>show\<close> exits with 1 exactly on an id
  that names no job.
\<close>

theorem cli_dead_letters:
  assumes "jobs_ok d" and "scan_ok e" and "cli_dead f e limit d = Inr out"
  shows "o_exit out = 0 \<and>
    (o_lines out = [''No dead jobs.''] \<or>
      int (length (o_lines out)) \<le> limit \<and>
      (\<forall>l \<in> set (o_lines out). \<exists>j \<in> set (jobs d). status j = Dead \<and> l = dead_line f (summary_of j))) \<and>
    (\<forall>j \<in> set (jobs d). status j = Dead \<longrightarrow> 0 < limit \<longrightarrow> o_lines out \<noteq> [''No dead jobs.'']) \<and>
    (\<forall>e' i. case cli_retry e' i d of (out', d') \<Rightarrow>
      if \<exists>j. get_job i d = Some j \<and> status j = Dead
      then o_exit out' = 0 \<and> (\<exists>j. get_job i d' = Some j \<and> due (now e') j \<and> attempts j = 0 \<and>
        o_lines (cli_show f i d') = show_lines f j)
      else o_exit out' = 1 \<and> (\<forall>i'. get_job i' d' = get_job i' d)) \<and>
    (\<forall>i. o_exit (cli_show f i d) = (if get_job i d = None then 1 else 0))"
proof -
  obtain js where js: "list_jobs e (Some ''dead'') limit d = Inr js"
    "out = (if js = [] then prints [''No dead jobs.''] else prints (map (dead_line f) js))"
    using assms(3) by (auto simp: cli_dead_def)
  note listed = list_jobs_spec [OF assms(2) js(1), simplified]
  have a: "o_exit out = 0" by (simp add: js(2))
  have "int (length (o_lines out)) \<le> limit \<and>
      (\<forall>l \<in> set (o_lines out). \<exists>j \<in> set (jobs d). status j = Dead \<and> l = dead_line f (summary_of j))"
    if "js \<noteq> []" using that listed by (fastforce simp: js(2))
  then have b: "o_lines out = [''No dead jobs.''] \<or> int (length (o_lines out)) \<le> limit \<and>
      (\<forall>l \<in> set (o_lines out). \<exists>j \<in> set (jobs d). status j = Dead \<and> l = dead_line f (summary_of j))"
    by (cases "js = []") (simp_all add: js(2))
  have c: "o_lines out \<noteq> [''No dead jobs.'']" if "j \<in> set (jobs d)" "status j = Dead" "0 < limit" for j
  proof -
    have "js \<noteq> []" using that listed by fastforce
    moreover have "dead_line f r \<noteq> ''No dead jobs.''" for r
      by (cases "l_id r < 0") (auto simp: dead_line_def align_right_def align_left_def dest: arg_cong [of _ _ length])
    ultimately show ?thesis by (cases js) (auto simp: js(2))
  qed
  have ee: "o_exit (cli_show f i d) = (if get_job i d = None then 1 else 0)" for i
    by (simp add: cli_show_def split: option.split)
  show ?thesis by (intro conjI ballI allI impI a b c cli_retry_spec [OF assms(1)] ee)
qed

definition plain_formats :: formats where
  "plain_formats = \<lparr> f_instant = int_str, f_args = (\<lambda>_. ''{}''), f_float = (\<lambda>x. int_str \<lfloor>x\<rfloor>),
     f_float1 = (\<lambda>x. int_str \<lfloor>x\<rfloor>) \<rparr>"

lemma cli_dead_letters_witness:
  "\<exists>out. cli_dead plain_formats (stmt_at 9) 5 db1 = Inr out \<and> o_exit out = 0 \<and>
     o_exit (fst (cli_retry (stmt_at 9) 1 db1)) = 1"
proof -
  obtain out where out: "cli_dead plain_formats (stmt_at 9) 5 db1 = Inr out"
    by (simp add: cli_dead_def list_jobs_def)
  have "\<not> (\<exists>j. get_job 1 db1 = Some j \<and> status j = Dead)"
    unfolding get_job_db1(1) by (simp add: job1_def)
  with cli_dead_letters [OF jobs_ok_db1 scan_ok_stmt_at out] out show ?thesis
    by (auto simp: split_beta)
qed

end
