(* ===== verification/Tables.thy ===== *)
theory Tables
  imports System Scheduler Session Cli
begin

section \<open>The other tables\<close>

text \<open>
  The constraints of \<^verbatim>\<open>schedules\<close> and \<^verbatim>\<open>effects\<close>: the server rejects a row that breaks one, so an
  operation that keeps them on every row never fails that way. The operations on jobs leave both tables alone;
  a pass changes \<open>next_run_at\<close> only; registering writes rows that satisfy the checks.
\<close>

definition schedule_ok :: "schedule \<Rightarrow> bool" where
  "schedule_ok s \<longleftrightarrow> schedules_interval_or_clock s \<and> schedules_clock_complete s \<and>
     int4 (interval_seconds s) \<and> int4 (max_lateness_seconds s)"

definition rest_ok :: "db \<Rightarrow> bool" where
  "rest_ok d \<longleftrightarrow> names_distinct d \<and> (\<forall>s \<in> set (schedules d). schedule_ok s) \<and> distinct (effects d)"

lemma rest_ok_frame: "schedules d' = schedules d \<Longrightarrow> effects d' = effects d \<Longrightarrow> rest_ok d' = rest_ok d"
  by (simp add: rest_ok_def names_distinct_def)

lemma rest_ok_tx [simp]: "rest_ok (conn_commit d) = rest_ok d" "rest_ok (rollback_tx b d) = rest_ok b"
  by (simp_all add: rest_ok_def names_distinct_def)

subsection \<open>Operations on jobs\<close>

lemma insert_job_rest:
  "insert_job t tsk a k d = (i, d') \<Longrightarrow> schedules d' = schedules d \<and> effects d' = effects d"
  unfolding insert_job_def Let_def by (cases "conflicting k (jobs d)") auto

lemma rest_ok_enqueue: "enqueue e tsk a k d = (i, d') \<Longrightarrow> rest_ok d' = rest_ok d"
  by (rule rest_ok_frame) (auto simp: enqueue_def dest: insert_job_rest split: prod.splits)

lemma insert_all_rest:
  "insert_all t tsk ps touched d = Inr (is, d') \<Longrightarrow> schedules d' = schedules d \<and> effects d' = effects d"
proof (induction t tsk ps touched d arbitrary: "is" d' rule: insert_all.induct)
  case (3 t tsk a k rows touched d)
  then show ?case
    by (auto simp: bind_result_def dest: insert_job_rest split: option.splits if_splits prod.splits sum.splits)
qed simp_all

lemma rest_ok_enqueue_many: "enqueue_many e tsk as ks d = Inr (is, d') \<Longrightarrow> rest_ok d' = rest_ok d"
  by (rule rest_ok_frame)
    (auto simp: enqueue_many_def Let_def bind_result_def dest: insert_all_rest split: if_splits sum.splits)

lemma rest_ok_claim: "claim_jobs e w l n d = Inr (rows, d') \<Longrightarrow> rest_ok d' = rest_ok d"
  by (rule rest_ok_frame) (auto simp: claim_jobs_def Let_def split: if_splits)

lemma rest_ok_reap: "reap_expired_jobs e1 e2 n d = Inr (m, d') \<Longrightarrow> rest_ok d' = rest_ok d"
  by (rule rest_ok_frame)
    (auto simp: reap_expired_jobs_def reap_dead_def reap_recover_def reap_sweep_def Let_def bind_result_def
      split: sum.splits if_splits prod.splits)

lemma rest_ok_extend [simp]: "rest_ok (extend_leases e is w l d) = rest_ok d"
  by (rule rest_ok_frame) (simp_all add: extend_leases_def)

lemma rest_ok_beat: "beat e mt fails h d = (d', closes) \<Longrightarrow> rest_ok d' = rest_ok d"
  by (auto simp: beat_def Let_def split: if_splits option.splits)

lemma rest_ok_release: "release_jobs is w d = (n, d') \<Longrightarrow> rest_ok d' = rest_ok d"
  by (rule rest_ok_frame) (auto simp: release_jobs_def Let_def split: if_splits)

lemma rest_ok_succeed: "mark_succeeded_in_transaction e i w d = (b, d') \<Longrightarrow> rest_ok d' = rest_ok d"
  by (rule rest_ok_frame) (auto simp: mark_succeeded_in_transaction_def Let_def)

lemma rest_ok_fail: "mark_failed e u i w err p limit d = Inr (b, d') \<Longrightarrow> rest_ok d' = rest_ok d"
  by (rule rest_ok_frame)
    (auto simp: mark_failed_def count_failure_def settle_failure_def Let_def bind_result_def
      split: if_splits option.splits prod.splits sum.splits)

lemma rest_ok_retry: "retry_job e i d = (b, d') \<Longrightarrow> rest_ok d' = rest_ok d"
  by (rule rest_ok_frame) (auto simp: retry_job_def Let_def)

lemma rest_ok_purge: "delete_completed_jobs e s n d = Inr (m, d') \<Longrightarrow> rest_ok d' = rest_ok d"
  by (rule rest_ok_frame) (auto simp: delete_completed_jobs_def Let_def split: if_splits)

subsection \<open>Runs of jobs\<close>

definition keeps_rest :: "(db \<Rightarrow> db) \<Rightarrow> bool" where
  "keeps_rest f \<longleftrightarrow> (\<forall>d. rest_ok d \<longrightarrow> rest_ok (f d))"

definition tasks_keep_rest :: "code registry \<Rightarrow> bool" where
  "tasks_keep_rest reg \<longleftrightarrow>
     (\<forall>t r a ws. reg t = Some r \<longrightarrow> keeps_rest (\<lambda>d. fst (snd (call (fn r) a d ws))))"

lemma keeps_restD: "keeps_rest f \<Longrightarrow> rest_ok d \<Longrightarrow> rest_ok (f d)"
  by (simp add: keeps_rest_def)

lemma run_in_transaction_rest:
  assumes "run_in_transaction E f a i w d ws = (x, d', ws')" "\<And>ws. keeps_rest (\<lambda>d. fst (snd (f a d ws)))"
    "keeps_rest (re_during E)" "rest_ok d"
  shows "rest_ok d'"
proof -
  have during: "rest_ok (re_during E d)" by (rule keeps_restD [OF assms(3,4)])
  have view: "rest_ok dv" if "f a (re_during E d) ws = (y, dv, ws1)" for y dv ws1
    using keeps_restD [OF assms(2) during, of ws] by (simp add: that)
  from assms(1) show ?thesis
  proof (cases rule: run_in_transaction_cases)
    case (committed dv dv')
    with view rest_ok_succeed show ?thesis by simp
  qed (use during assms(4) in simp_all)
qed

lemma run_plain_rest:
  assumes "run_plain E f a i w d ws = (x, d', ws')" "\<And>ws. keeps_rest (\<lambda>d. fst (snd (f a d ws)))"
    "keeps_rest (re_during E)" "rest_ok d"
  shows "rest_ok d'"
proof -
  have during: "rest_ok (re_during E d)" by (rule keeps_restD [OF assms(3,4)])
  have view: "rest_ok dv" if "f a (re_during E d) ws = (y, dv, ws1)" for y dv ws1
    using keeps_restD [OF assms(2) during, of ws] by (simp add: that)
  from assms(1) show ?thesis
  proof (cases rule: run_plain_cases)
    case (completed d1)
    have "rest_ok (snd (mark_succeeded_in_transaction (re_done E) i w d1)) = rest_ok d1"
      by (rule rest_ok_succeed [OF prod.collapse [symmetric]])
    with completed view show ?thesis by (simp add: mark_succeeded_def case_prod_beta)
  qed (use view in auto)
qed

lemma handle_exn_rest:
  assumes "handle_exn str_of E i w r x p = (y, p')" "keeps_rest (re_after E)" "rest_ok (pdb p)"
  shows "rest_ok (pdb p')"
proof (cases "x = LeaseLost \<or> \<not> is_exception x \<or> re_record E \<noteq> None")
  case True
  with assms keeps_restD [OF assms(2,3)] show ?thesis
    by (cases "re_record E") (auto simp: handle_exn_def Let_def split: if_splits)
next
  case False
  with assms keeps_restD [OF assms(2,3)] show ?thesis
    by (auto simp: handle_exn_def Let_def rest_ok_fail split: sum.splits)
qed

lemma run_job_rest:
  assumes "run_job str_of reg E mt (i, t, a) w l m hbt p = (y, hbt', p')"
    and "tasks_keep_rest reg" "keeps_rest (re_during E)" "keeps_rest (re_after E)" "rest_ok (pdb p)"
  shows "rest_ok (pdb p')"
proof -
  obtain x r h1 p1 where at:
    "attempt reg E mt (i, t, a) w m
       (case hbt of None \<Rightarrow> new_heartbeat w l (of_int l / 3) False | Some h \<Rightarrow> h) p = (x, r, h1, p1)"
    by (metis prod_cases4)
  have "rest_ok (pdb p1)"
  proof (cases "reg t")
    case None
    with at assms(5) show ?thesis by (auto simp: attempt_def get_registered_task_def)
  next
    case (Some r')
    then have keep: "keeps_rest (\<lambda>d. fst (snd (call (fn r') a d ws)))" for ws
      using assms(2) by (simp add: tasks_keep_rest_def)
    obtain z d1 ws1 where z: "(if wants_connection r' then run_in_transaction else run_plain) E
        (call (fn r')) a i w (pdb p) (world p) = (z, d1, ws1)"
      by (metis prod_cases3)
    then have "rest_ok d1"
      using run_in_transaction_rest [where f = "call (fn r')", OF _ _ assms(3,5)]
        run_plain_rest [where f = "call (fn r')", OF _ _ assms(3,5)] keep
      by (cases "wants_connection r'") auto
    moreover have "pdb p1 = d1"
      using at Some z by (auto simp: attempt_def get_registered_task_def Let_def)
    ultimately show ?thesis by simp
  qed
  moreover have "(case x of None \<Rightarrow> (None, p1) | Some z \<Rightarrow> handle_exn str_of E i w r z p1) = (y, p')"
    using assms(1) at by (cases x) (simp_all add: run_job_def split: prod.splits)
  ultimately show ?thesis
    using handle_exn_rest [OF _ assms(4)] by (cases x) auto
qed

subsection \<open>Sessions and schedules\<close>

lemma apply_op_rest: "apply_op x s = Inr s' \<Longrightarrow> rest_ok (fst (ss_view s')) = rest_ok (fst (ss_view s))"
  by (cases x)
    (auto simp: session_enqueue_def session_enqueue_many_def bind_result_def
      rest_ok_enqueue rest_ok_enqueue_many split: prod.splits sum.splits if_splits)

lemma session_ops_rest: "session_ops xs s = Inr s' \<Longrightarrow> rest_ok (fst (ss_view s')) = rest_ok (fst (ss_view s))"
proof (induction xs arbitrary: s)
  case (Cons x xs)
  then show ?case by (cases "apply_op x s") (auto simp: apply_op_rest)
qed simp

lemma rest_ok_set_next_run: "rest_ok d \<Longrightarrow> rest_ok (set_next_run n t d)"
proof -
  assume ok: "rest_ok d"
  have "schedule_ok (s\<lparr>next_run_at := t\<rparr>) = schedule_ok s" for s
    by (simp add: schedule_ok_def schedules_interval_or_clock_def schedules_clock_complete_def)
  with ok have "\<forall>s \<in> set (schedules (set_next_run n t d)). schedule_ok s"
    by (auto simp: rest_ok_def set_next_run_def update_where_def)
  with ok show ?thesis
    by (simp add: rest_ok_def names_distinct_def) (simp add: set_next_run_def map_update_where)
qed

lemma fire_rest: "fire e r d = (x, d') \<Longrightarrow> rest_ok d \<Longrightarrow> rest_ok d'"
proof -
  have "rest_ok (snd (enqueue e1 tsk a k d)) = rest_ok d" for e1 tsk a k
    by (rule rest_ok_enqueue [OF prod.collapse [symmetric]])
  then show "fire e r d = (x, d') \<Longrightarrow> rest_ok d \<Longrightarrow> rest_ok d'"
    by (auto simp: fire_def Let_def intro: rest_ok_set_next_run split: sum.splits if_splits)
qed

lemma fire_all_rest: "fire_all e rs n d = (x, d') \<Longrightarrow> rest_ok d \<Longrightarrow> rest_ok d'"
proof (induction rs arbitrary: n d)
  case (Cons r rs)
  obtain y d1 where f: "fire e r d = (y, d1)" by fastforce
  with Cons fire_rest [OF f] show ?case by (cases y) auto
qed simp

lemma pass_rest: "run_due_schedules e (d, g) = (x, d', g') \<Longrightarrow> rest_ok d \<Longrightarrow> rest_ok d'"
  by (auto simp: run_due_schedules_def dest: fire_all_rest split: prod.splits sum.splits)

lemma register_rest:
  assumes "register_schedule tz now1 now2 name tsk a rec first m (d, g) = Inr (d', g')" "rest_ok d"
  shows "rest_ok d'"
proof -
  obtain x where x: "schedule_row tz now1 now2 name tsk a rec first m = Inr x"
    "int4 (interval_seconds x)" "int4 (max_lateness_seconds x)" and d': "d' = conn_commit (upsert_schedule x d)"
    using assms(1) by (auto simp: register_schedule_def bind_result_def split: sum.splits if_splits)
  then have ok: "schedule_ok x" using schedule_row_sel [OF x(1)] by (simp add: schedule_ok_def)
  then have "schedule_ok (reregister_row x s)" for s
    by (simp add: schedule_ok_def reregister_row_def schedules_interval_or_clock_def schedules_clock_complete_def)
  with ok have "\<forall>s \<in> set (schedules (upsert_schedule x d)). schedule_ok s"
    using assms(2) by (auto simp: upsert_schedule_def rest_ok_def update_where_def split: option.splits)
  moreover have "effects (upsert_schedule x d) = effects d"
    by (simp add: upsert_schedule_def split: option.split)
  ultimately show ?thesis
    using assms(2) names_distinct_upsert [of d x] by (simp add: rest_ok_def d' names_distinct_def)
qed

end
