(* ===== verification/Benchmark.thy ===== *)
theory Benchmark
  imports System Connection
begin

section \<open>Measuring the queue\<close>

text \<open>
  The measurements of \<^verbatim>\<open>scripts/benchmark.py\<close>: its statistics, the connection strings it
  builds, its queries, the loop that waits for the queue to drain, and the two single-process loops
  it compares. \<^theory_text>\<open>Bench_Loops\<close> has the two single-process loops,
  \<^theory_text>\<open>Bench_Trials\<close> the measurements of whole workers and \<^theory_text>\<open>Suites\<close> the suites made of them. Times and what other processes do while
  the harness waits are parameters.
\<close>

subsection \<open>Statistics\<close>

text \<open>Python's \<^verbatim>\<open>int(x)\<close>, \<^verbatim>\<open>xs[i]\<close> and \<^verbatim>\<open>a / b\<close>.\<close>

definition py_trunc :: "real \<Rightarrow> int" where
  "py_trunc x = (if 0 \<le> x then \<lfloor>x\<rfloor> else \<lceil>x\<rceil>)"

definition py_index :: "'a list \<Rightarrow> int \<Rightarrow> 'a result" where
  "py_index xs i =
     (let n = int (length xs)
      in if 0 \<le> i \<and> i < n then Inr (xs ! nat i)
         else if - n \<le> i \<and> i < 0 then Inr (xs ! nat (n + i))
         else Inl (IndexError ''list index out of range''))"

definition py_div :: "real \<Rightarrow> real \<Rightarrow> real result" where
  "py_div a b = (if b = 0 then Inl ZeroDivisionError else Inr (a / b))"

definition percentile :: "real list \<Rightarrow> real \<Rightarrow> real result" where
  "percentile values pct =
     (let ordered = sort values;
          index = min (py_trunc (of_nat (length ordered) * pct)) (int (length ordered) - 1)
      in py_index ordered index)"

text \<open>\<^verbatim>\<open>statistics.median\<close>; its \<^verbatim>\<open>StatisticsError\<close> is a \<^verbatim>\<open>ValueError\<close>.\<close>

definition median :: "real list \<Rightarrow> real result" where
  "median values =
     (let ordered = sort values; n = length ordered
      in if n = 0 then Inl (ValueError ''no median for empty data'')
         else if odd n then Inr (ordered ! (n div 2))
         else Inr ((ordered ! (n div 2 - 1) + ordered ! (n div 2)) / 2))"

definition jobs_for :: "int \<Rightarrow> int \<Rightarrow> int" where
  "jobs_for base in_flight = base * max 1 (in_flight div 4)"

lemma sorted_below:
  assumes "sorted xs" "i < length xs"
  shows "length (filter (\<lambda>x. x < xs ! i) xs) \<le> i" "i < length (filter (\<lambda>x. x \<le> xs ! i) xs)"
proof -
  let ?y = "xs ! i"
  have "filter (\<lambda>x. x < ?y) (drop i xs) = []"
    using assms by (auto simp: filter_empty_conv in_set_conv_nth not_less intro!: sorted_nth_mono)
  moreover have "filter (\<lambda>x. x < ?y) xs = filter (\<lambda>x. x < ?y) (take i xs) @ filter (\<lambda>x. x < ?y) (drop i xs)"
    by (simp only: filter_append [symmetric] append_take_drop_id)
  ultimately have "filter (\<lambda>x. x < ?y) xs = filter (\<lambda>x. x < ?y) (take i xs)" by simp
  then show "length (filter (\<lambda>x. x < ?y) xs) \<le> i"
    by (metis length_filter_le length_take min.boundedE)
  have "filter (\<lambda>x. x \<le> ?y) (take (Suc i) xs) = take (Suc i) xs"
    using assms by (auto simp: filter_id_conv in_set_conv_nth intro!: sorted_nth_mono)
  then have "length (filter (\<lambda>x. x \<le> ?y) xs) \<ge> Suc i"
    using assms(2) by (subst append_take_drop_id [of "Suc i" xs, symmetric], subst filter_append) simp
  then show "i < length (filter (\<lambda>x. x \<le> ?y) xs)" by simp
qed

text \<open>
  The percentile is one of the values: no more than the fraction asked for lie below it, and more
  than that fraction, or all of them, do not lie above. Without values it raises.
\<close>

lemma percentile_spec:
  assumes "0 \<le> pct" "pct \<le> 1"
  shows "case percentile values pct of
      Inl x \<Rightarrow> values = [] \<and> x = IndexError ''list index out of range''
    | Inr v \<Rightarrow> v \<in> set values \<and>
        real (length (filter (\<lambda>x. x < v) values)) \<le> real (length values) * pct \<and>
        (real (length values) * pct < real (length (filter (\<lambda>x. x \<le> v) values)) \<or>
         length (filter (\<lambda>x. x \<le> v) values) = length values)"
proof (cases "values = []")
  case True
  then show ?thesis by (simp add: percentile_def py_index_def py_trunc_def)
next
  case False
  define n where "n = length values"
  define k where "k = min \<lfloor>real n * pct\<rfloor> (int n - 1)"
  have n: "0 < n" "length (sort values) = n" using False by (simp_all add: n_def)
  have ne: "sort values \<noteq> []" using n by (cases "sort values") auto
  have "0 \<le> \<lfloor>real n * pct\<rfloor>" using assms(1) by simp
  with n have k: "0 \<le> k" "k < int n" by (auto simp: k_def)
  define v where "v = sort values ! nat k"
  have res: "percentile values pct = Inr v"
    using k n ne assms(1) by (simp add: percentile_def py_index_def py_trunc_def Let_def k_def [symmetric] v_def)
  have same: "length (filter P values) = length (filter P (sort values))" for P
    by (simp add: filter_sort)
  have lt: "nat k < length (sort values)" using k n by simp
  note below = sorted_below [OF sorted_sort lt, folded v_def, folded same]
  have "v \<in> set (sort values)" unfolding v_def using lt by (rule nth_mem)
  moreover have "real (length (filter (\<lambda>x. x < v) values)) \<le> real n * pct"
  proof -
    have "k \<le> \<lfloor>real n * pct\<rfloor>" by (simp add: k_def)
    with below(1) k(1) have "int (length (filter (\<lambda>x. x < v) values)) \<le> \<lfloor>real n * pct\<rfloor>" by linarith
    then show ?thesis by (simp add: le_floor_iff)
  qed
  moreover have "real n * pct < real (length (filter (\<lambda>x. x \<le> v) values)) \<or>
      length (filter (\<lambda>x. x \<le> v) values) = n"
  proof (cases "\<lfloor>real n * pct\<rfloor> \<le> int n - 1")
    case True
    then have "\<lfloor>real n * pct\<rfloor> < int (length (filter (\<lambda>x. x \<le> v) values))"
      using below(2) k(1) by (simp add: k_def)
    then show ?thesis by (simp add: floor_less_iff)
  next
    case False
    then have "n \<le> length (filter (\<lambda>x. x \<le> v) values)" using below(2) n by (simp add: k_def)
    then show ?thesis using length_filter_le [of "\<lambda>x. x \<le> v" "values"] by (simp add: n_def)
  qed
  ultimately show ?thesis by (simp add: res n_def)
qed

subsection \<open>Connection strings\<close>

text \<open>
  \<^verbatim>\<open>urllib.parse.quote(s, safe="")\<close> and \<^verbatim>\<open>unquote\<close>, on the bytes of the string in UTF-8.
\<close>

definition unreserved :: "char \<Rightarrow> bool" where
  "unreserved c \<longleftrightarrow>
     (let n = of_char c :: nat
      in 48 \<le> n \<and> n \<le> 57 \<or> 65 \<le> n \<and> n \<le> 90 \<or> 97 \<le> n \<and> n \<le> 122 \<or> n \<in> {45, 46, 95, 126})"

definition hex_upper :: "nat \<Rightarrow> char" where
  "hex_upper n = (if n < 10 then char_of (48 + n) else char_of (55 + n))"

definition quote_char :: "char \<Rightarrow> string" where
  "quote_char c =
     (if unreserved c then [c]
      else let n = of_char c :: nat in [CHR ''%'', hex_upper (n div 16), hex_upper (n mod 16)])"

definition url_quote :: "string \<Rightarrow> string" where
  "url_quote s = concat (map quote_char s)"

definition unhex :: "char \<Rightarrow> nat option" where
  "unhex c =
     (let n = of_char c :: nat
      in if 48 \<le> n \<and> n \<le> 57 then Some (n - 48)
         else if 65 \<le> n \<and> n \<le> 70 then Some (n - 55)
         else if 97 \<le> n \<and> n \<le> 102 then Some (n - 87)
         else None)"

fun url_unquote :: "string \<Rightarrow> string" where
  "url_unquote (c # a # b # s) =
     (if c = CHR ''%'' \<and> unhex a \<noteq> None \<and> unhex b \<noteq> None
      then char_of (16 * the (unhex a) + the (unhex b)) # url_unquote s
      else c # url_unquote (a # b # s))"
| "url_unquote (c # s) = c # url_unquote s"
| "url_unquote [] = []"

fun str_join :: "string \<Rightarrow> string list \<Rightarrow> string" where
  "str_join sep [] = []"
| "str_join sep [s] = s"
| "str_join sep (s # t # ss) = s @ sep @ str_join sep (t # ss)"

text \<open>\<^verbatim>\<open>_dsn_with\<close>: \<open>base\<close> is what \<open>get_dsn\<close> returns.\<close>

definition dsn_options :: "(string \<times> string) list \<Rightarrow> string" where
  "dsn_options settings = str_join '' '' (map (\<lambda>(key, value). ''-c '' @ key @ ''='' @ value) settings)"

definition dsn_with :: "string \<Rightarrow> (string \<times> string) list \<Rightarrow> string" where
  "dsn_with base settings =
     base @ (if CHR ''?'' \<in> set base then ''&'' else ''?'') @ ''options='' @ url_quote (dsn_options settings)"

definition relaxed_dsn :: "string \<Rightarrow> string" where
  "relaxed_dsn base = dsn_with base [(''synchronous_commit'', ''off'')]"

lemma high_digit: "(of_char c :: nat) div 16 < 16"
  by (rule less_mult_imp_div_less) simp

lemma unhex_hex_upper: "n < 16 \<Longrightarrow> unhex (hex_upper n) = Some n"
  by (auto simp: unhex_def hex_upper_def Let_def)

lemma unquote_quote_char: "url_unquote (quote_char c @ s) = c # url_unquote s"
proof (cases "unreserved c")
  case True
  then have "c \<noteq> CHR ''%''" by (auto simp: unreserved_def)
  then have "url_unquote (c # s) = c # url_unquote s"
    by (cases s rule: url_unquote.cases) auto
  with True show ?thesis by (simp add: quote_char_def)
next
  case False
  with high_digit [of c] show ?thesis by (simp add: quote_char_def Let_def unhex_hex_upper)
qed

lemma unquote_quote: "url_unquote (url_quote s) = s"
  by (induction s) (simp_all add: url_quote_def unquote_quote_char)

lemma set_url_quote: "c \<in> set (url_quote s) \<Longrightarrow> unreserved c \<or> c = CHR ''%''"
proof -
  have "unreserved (hex_upper n)" if "n < 16" for n
    using that by (auto simp: unreserved_def hex_upper_def Let_def)
  with high_digit have "\<forall>c \<in> set (quote_char d). unreserved c \<or> c = CHR ''%''" for d
    by (auto simp: quote_char_def Let_def)
  then show "c \<in> set (url_quote s) \<Longrightarrow> unreserved c \<or> c = CHR ''%''"
    by (auto simp: url_quote_def)
qed

text \<open>
  Settings survive the connection string. What \<^verbatim>\<open>_dsn_with\<close> appends is one more parameter,
  \<open>options\<close>, of the URL's query, which it opens if the DSN has none. Its value has no character that
  could end the parameter or mean anything else in a URL, and decodes to the settings as
  PostgreSQL's \<open>-c key=value\<close> options, whatever is in them.
\<close>

lemma dsn_options_roundtrip:
  "\<exists>q. dsn_with base settings = base @ (if CHR ''?'' \<in> set base then ''&'' else ''?'') @ ''options='' @ q \<and>
     url_unquote q = dsn_options settings \<and>
     set q \<inter> {CHR '' '', CHR ''&'', CHR ''?'', CHR ''='', CHR ''#'', CHR ''/'', CHR '':'', CHR ''@'', CHR ''+''} = {}"
proof (intro exI conjI)
  show "dsn_with base settings = base @ (if CHR ''?'' \<in> set base then ''&'' else ''?'') @ ''options='' @
      url_quote (dsn_options settings)"
    by (simp add: dsn_with_def)
  show "url_unquote (url_quote (dsn_options settings)) = dsn_options settings" by (rule unquote_quote)
  show "set (url_quote (dsn_options settings)) \<inter> {CHR '' '', CHR ''&'', CHR ''?'', CHR ''='', CHR ''#'', CHR ''/'',
      CHR '':'', CHR ''@'', CHR ''+''} = {}"
    using set_url_quote [of _ "dsn_options settings"] by (force simp: unreserved_def)
qed

lemma relaxed_dsn_text:
  "relaxed_dsn ''postgres://u@h/d'' = ''postgres://u@h/d?options=-c%20synchronous_commit%3Doff''"
  by code_simp

subsection \<open>Tables and queries\<close>

text \<open>The database with the table of samples, of which only \<^verbatim>\<open>latency_ms\<close> is ever read.\<close>

record bench =
  b_db :: db
  b_samples :: "real list"

definition bench_reset :: "bench \<Rightarrow> bench" where
  "bench_reset b = b\<lparr>b_db := conn_commit ((b_db b)\<lparr>jobs := []\<rparr>), b_samples := []\<rparr>"

text \<open>The tasks: \<open>t\<close> is \<^verbatim>\<open>time.time()\<close> when the job runs, \<open>u\<close> a random number in [0, 1].\<close>

definition IO_JOB_SECONDS :: real where
  "IO_JOB_SECONDS = 2 / 100"

definition WORKER_SETTLE_SECONDS :: real where
  "WORKER_SETTLE_SECONDS = 3 / 2"

definition bench_job :: "real \<Rightarrow> real \<Rightarrow> bench \<Rightarrow> bench" where
  "bench_job t enqueued_at b = b\<lparr>b_samples := b_samples b @ [(t - enqueued_at) * 1000]\<rparr>"

definition io_job_sleep :: real where
  "io_job_sleep = IO_JOB_SECONDS"

definition io_job_varied_sleep :: "real \<Rightarrow> real" where
  "io_job_varied_sleep u =
     (let a = IO_JOB_SECONDS / 2; b = IO_JOB_SECONDS * (3 / 2) in a + (b - a) * u)"

definition any_unfinished :: "db \<Rightarrow> bool" where
  "any_unfinished d \<longleftrightarrow>
     list_ex (\<lambda>j. status j = Pending) (jobs d) \<or> list_ex (\<lambda>j. status j = Running) (jobs d)"

definition pending_count :: "db \<Rightarrow> int" where
  "pending_count d = int (length (filter (\<lambda>j. status j \<notin> {Succeeded, Dead}) (jobs d)))"

text \<open>A row of \<^verbatim>\<open>pg_stat_activity\<close>, and the harness's own backend.\<close>

record backend =
  bk_datname :: "string option"
  bk_pid :: int
  bk_state :: "string option"

definition worker_connection_count :: "string \<Rightarrow> int \<Rightarrow> backend list \<Rightarrow> int \<times> int" where
  "worker_connection_count database pid activity =
     (let rows = filter (\<lambda>r. bk_datname r = Some database \<and> bk_pid r \<noteq> pid) activity
      in (int (length rows),
          int (length (filter (\<lambda>r. bk_state r \<noteq> None \<and> bk_state r \<noteq> Some ''idle'') rows))))"

text \<open>The cheap query and the obvious one agree.\<close>

lemma any_unfinished_iff: "any_unfinished d \<longleftrightarrow> 0 < pending_count d"
proof -
  have "status j \<notin> {Succeeded, Dead} \<longleftrightarrow> status j = Pending \<or> status j = Running" for j
    by (cases "status j") simp_all
  then show ?thesis
    by (auto simp: any_unfinished_def pending_count_def list_ex_iff filter_empty_conv)
qed

lemma busy_le_open: "snd (worker_connection_count n p rows) \<le> fst (worker_connection_count n p rows)"
  by (simp add: worker_connection_count_def Let_def del: filter_filter)

lemma io_job_varied_mean:
  "io_job_varied_sleep u + io_job_varied_sleep (1 - u) = 2 * io_job_sleep"
  by (simp add: io_job_varied_sleep_def io_job_sleep_def IO_JOB_SECONDS_def Let_def field_simps)

subsection \<open>Waiting for the queue to drain\<close>

text \<open>
  What one turn of \<^verbatim>\<open>_drain\<close>'s loop sees: the sessions when \<^verbatim>\<open>on_poll\<close> counts them, the database
  and its samples, and the clock when it reads it afterwards. How Python shows a float is a parameter.
\<close>

record poll =
  po_activity :: "backend list"
  po_db :: db
  po_samples :: "real list"
  po_time :: real

text \<open>
  The result of the loop, and how many turns it took; \<open>None\<close> while it is still waiting after these
  turns.
\<close>

fun drain :: "(real \<Rightarrow> string) \<Rightarrow> real \<Rightarrow> real \<Rightarrow> poll list \<Rightarrow> (real result \<times> nat) option" where
  "drain show_float started timeout_seconds [] = None"
| "drain show_float started timeout_seconds (p # ps) =
     (if \<not> any_unfinished (po_db p) then Some (Inr (po_time p - started), 1)
      else if started + timeout_seconds < po_time p
      then Some (Inl (RuntimeError (''queue did not drain within '' @ show_float timeout_seconds @ ''s; '' @
                                    int_str (pending_count (po_db p)) @ '' jobs left'')), 1)
      else map_option (apsnd Suc) (drain show_float started timeout_seconds ps))"

text \<open>Every turn sleeps for 50 ms before the next.\<close>

fun polled_after :: "real \<Rightarrow> poll list \<Rightarrow> bool" where
  "polled_after t [] \<longleftrightarrow> True"
| "polled_after t (p # ps) \<longleftrightarrow> t \<le> po_time p \<and> polled_after (po_time p + 5 / 100) ps"

lemma drain_result:
  "drain f started timeout ps = Some (r, n) \<Longrightarrow>
     0 < n \<and> n \<le> length ps \<and>
     (\<forall>p \<in> set (take (n - 1) ps). any_unfinished (po_db p) \<and> po_time p \<le> started + timeout) \<and>
     (case r of
        Inr elapsed \<Rightarrow> \<not> any_unfinished (po_db (ps ! (n - 1))) \<and> elapsed = po_time (ps ! (n - 1)) - started
      | Inl x \<Rightarrow> any_unfinished (po_db (ps ! (n - 1))) \<and> started + timeout < po_time (ps ! (n - 1)))"
proof (induction ps arbitrary: n)
  case (Cons p ps)
  show ?case
  proof (cases "any_unfinished (po_db p) \<and> po_time p \<le> started + timeout")
    case True
    then obtain m where m: "drain f started timeout ps = Some (r, m)" "n = Suc m"
      using Cons.prems by auto
    from Cons.IH [OF m(1)] obtain k where "m = Suc k" by (cases m) auto
    with Cons.IH [OF m(1)] m(2) True show ?thesis by (cases r) simp_all
  next
    case False
    with Cons.prems show ?thesis by (auto split: if_splits)
  qed
qed simp

lemma drain_ends:
  assumes "polled_after t ps" "started + timeout < t + 5 / 100 * real (length ps - 1)" "ps \<noteq> []"
  shows "drain f started timeout ps \<noteq> None"
  using assms
proof (induction ps arbitrary: t)
  case (Cons p ps)
  show ?case
  proof (cases "ps = []")
    case True
    with Cons.prems show ?thesis by auto
  next
    case False
    have "started + timeout < po_time p + 5 / 100 + 5 / 100 * real (length ps - 1)"
      using Cons.prems False by (cases ps) (auto simp: field_simps)
    with Cons.IH [of "po_time p + 5 / 100"] Cons.prems False show ?thesis by auto
  qed
qed simp

text \<open>
  Waiting ends. However the queue changes meanwhile, \<^verbatim>\<open>_drain\<close> comes to an end within one turn
  for every 50 ms of its timeout, and one more. It returns exactly if a turn no later than the first one past
  the deadline finds nothing unfinished; otherwise it raises, and only after every turn has
  found unfinished jobs and the deadline has passed.
\<close>

lemma drain_terminates:
  assumes "polled_after started ps" and "timeout < 5 / 100 * real (length ps - 1)" and "ps \<noteq> []"
  shows "\<exists>r n. drain f started timeout ps = Some (r, n) \<and> 0 < n \<and> n \<le> length ps \<and>
    (\<forall>p \<in> set (take (n - 1) ps). any_unfinished (po_db p) \<and> po_time p \<le> started + timeout) \<and>
    (case r of
       Inr elapsed \<Rightarrow> pending_count (po_db (ps ! (n - 1))) = 0 \<and> elapsed = po_time (ps ! (n - 1)) - started
     | Inl x \<Rightarrow> 0 < pending_count (po_db (ps ! (n - 1))) \<and> started + timeout < po_time (ps ! (n - 1)))"
proof -
  have "drain f started timeout ps \<noteq> None"
    by (rule drain_ends [OF assms(1) _ assms(3)]) (use assms(2) in simp)
  then obtain r n where d: "drain f started timeout ps = Some (r, n)" by auto
  have "0 \<le> pending_count x" for x by (simp add: pending_count_def)
  then have "\<not> any_unfinished x \<longleftrightarrow> pending_count x = 0" for x by (simp add: any_unfinished_iff not_less order_antisym_conv)
  with drain_result [OF d] d show ?thesis
    by (intro exI [of _ r] exI [of _ n]) (auto simp: any_unfinished_iff split: sum.splits)
qed

definition polls1 :: "poll list" where
  "polls1 = map (\<lambda>t. \<lparr> po_activity = [], po_db = db1, po_samples = [], po_time = t \<rparr>) [10, 11, 12]"

lemma drain_terminates_witness:
  "\<exists>x n. drain (\<lambda>_. ''0.06'') 10 (6 / 100) polls1 = Some (Inl x, n)"
proof -
  have "polled_after 10 polls1" "6 / 100 < 5 / 100 * real (length polls1 - 1)" "polls1 \<noteq> []"
    by (simp_all add: polls1_def)
  from drain_terminates [OF this] obtain r n where d: "drain (\<lambda>_. ''0.06'') 10 (6 / 100) polls1 = Some (r, n)"
    and n: "0 < n" "n \<le> length polls1"
    and r: "case r of Inr elapsed \<Rightarrow> pending_count (po_db (polls1 ! (n - 1))) = 0 \<and>
        elapsed = po_time (polls1 ! (n - 1)) - 10
      | Inl x \<Rightarrow> 0 < pending_count (po_db (polls1 ! (n - 1))) \<and> 10 + 6 / 100 < po_time (polls1 ! (n - 1))"
    by blast
  have "polls1 ! (n - 1) \<in> set polls1" using n by simp
  then have "po_db (polls1 ! (n - 1)) = db1" by (auto simp: polls1_def)
  moreover have "pending_count db1 = 1" by (simp add: pending_count_def job1_defs)
  ultimately show ?thesis using d r by (cases r) auto
qed

end
