(* ===== verification/Bench_Loops.thy ===== *)
theory Bench_Loops
  imports Benchmark
begin

section \<open>The two single-process loops\<close>

text \<open>
  \<^verbatim>\<open>measure_raw_ceiling\<close> and \<^verbatim>\<open>measure_single_process_library\<close> of
  \<^verbatim>\<open>scripts/benchmark.py\<close>: the same work, with bare SQL and with the library. Both are shown to
  end with every job done, the second one whatever the batch size: it is the cycle of claims and runs of
  \<^verbatim>\<open>run_worker\<close>.
\<close>

subsection \<open>Bare SQL\<close>

definition raw_insert :: "stmt \<Rightarrow> db \<Rightarrow> db" where
  "raw_insert e d =
     d\<lparr>jobs_id_seq := jobs_id_seq d + 1,
       jobs := jobs d @ [new_job (now e) (jobs_id_seq d) ''raw'' [] None]\<rparr>"

definition raw_claim_row :: "job \<Rightarrow> job" where
  "raw_claim_row j = j\<lparr>status := Running, locked_by := Some ''raw''\<rparr>"

definition raw_claim :: "stmt \<Rightarrow> db \<Rightarrow> int option \<times> db" where
  "raw_claim e d =
     (case skip_locked jid (locked e)
             (sort_key (\<lambda>j. (run_at j, jid j)) (filter (\<lambda>j. status j = Pending \<and> run_at j \<le> now e) (jobs d))) of
        [] \<Rightarrow> (None, conn_commit d)
      | j # _ \<Rightarrow> (Some (jid j), conn_commit (d\<lparr>jobs := update_where (\<lambda>r. jid r = jid j) raw_claim_row (jobs d)\<rparr>)))"

definition raw_finish_row :: "micros \<Rightarrow> job \<Rightarrow> job" where
  "raw_finish_row t j = j\<lparr>status := Succeeded, finished_at := Some t\<rparr>"

definition raw_finish :: "stmt \<Rightarrow> int \<Rightarrow> bench \<Rightarrow> bench" where
  "raw_finish e i b =
     b\<lparr>b_samples := b_samples b @ [0],
       b_db := conn_commit ((b_db b)\<lparr>jobs :=
         update_where (\<lambda>r. jid r = i) (raw_finish_row (now e)) (jobs (b_db b))\<rparr>)\<rparr>"

definition pending :: "db \<Rightarrow> nat" where
  "pending d = length (filter (\<lambda>j. status j = Pending) (jobs d))"

lemma pending_update_le:
  "(\<And>j. status (f j) \<noteq> Pending) \<Longrightarrow>
   length (filter (\<lambda>j. status j = Pending) (update_where P f rs)) \<le> length (filter (\<lambda>j. status j = Pending) rs)"
  by (induction rs) auto

lemma pending_update_less:
  assumes "\<And>j. status (f j) \<noteq> Pending" "j \<in> set rs" "P j" "status j = Pending"
  shows "length (filter (\<lambda>j. status j = Pending) (update_where P f rs)) < length (filter (\<lambda>j. status j = Pending) rs)"
  using assms(2-4)
proof (induction rs)
  case (Cons r rs)
  with pending_update_le [OF assms(1), where P = P and rs = rs] assms(1) show ?case
    by (cases "r = j") (auto simp: less_Suc_eq_le)
qed simp

lemma raw_claim_SomeE:
  assumes "raw_claim e d = (Some i, d')"
  obtains j where "j \<in> set (jobs d)" "jid j = i" "status j = Pending"
    "d' = conn_commit (d\<lparr>jobs := update_where (\<lambda>r. jid r = i) raw_claim_row (jobs d)\<rparr>)"
proof -
  let ?q = "skip_locked jid (locked e)
      (sort_key (\<lambda>j. (run_at j, jid j)) (filter (\<lambda>j. status j = Pending \<and> run_at j \<le> now e) (jobs d)))"
  obtain j js where q: "?q = j # js" using assms by (cases ?q) (auto simp: raw_claim_def)
  then have "j \<in> set ?q" by (simp only: list.set_intros)
  then have "j \<in> set (jobs d)" "status j = Pending" by (auto simp: table_simps)
  with assms q show ?thesis by (intro that [of j]) (auto simp: raw_claim_def)
qed

lemma raw_claim_pending:
  assumes "raw_claim e d = (Some i, d')"
  shows "pending d' < pending d"
proof -
  obtain j where j: "j \<in> set (jobs d)" "jid j = i" "status j = Pending"
    and d': "d' = conn_commit (d\<lparr>jobs := update_where (\<lambda>r. jid r = i) raw_claim_row (jobs d)\<rparr>)"
    by (rule raw_claim_SomeE [OF assms])
  have "\<And>j. status (raw_claim_row j) \<noteq> Pending" by (simp add: raw_claim_row_def)
  from pending_update_less [where f = raw_claim_row, OF this j(1) _ j(3)] j(2) show ?thesis
    by (simp add: pending_def d')
qed

lemma raw_finish_pending: "pending (b_db (raw_finish e i b)) \<le> pending (b_db b)"
  using pending_update_le [of "raw_finish_row (now e)"]
  by (simp add: pending_def raw_finish_def raw_finish_row_def)

lemma raw_turn_pending:
  "raw_claim e d0 = (Some i, d) \<Longrightarrow> pending (b_db (raw_finish e' i (b\<lparr>b_db := d\<rparr>))) < pending d0"
  using raw_claim_pending [of e d0 i d] raw_finish_pending [of e' i "b\<lparr>b_db := d\<rparr>"] by simp

text \<open>
  The loop: \<open>ec\<close> and \<open>ef\<close> are what the statements of its \<open>n\<close>th turn see. It ends: every turn leaves
  fewer jobs pending.
\<close>

function raw_loop :: "(nat \<Rightarrow> stmt) \<Rightarrow> (nat \<Rightarrow> stmt) \<Rightarrow> nat \<Rightarrow> bench \<Rightarrow> nat \<times> bench" where
  "raw_loop ec ef n b =
     (case raw_claim (ec n) (b_db b) of
        (None, d) \<Rightarrow> (n, b\<lparr>b_db := d\<rparr>)
      | (Some i, d) \<Rightarrow> raw_loop ec ef (n + 1) (raw_finish (ef n) i (b\<lparr>b_db := d\<rparr>)))"
  by pat_completeness auto
termination
  by (relation "measure (\<lambda>(ec, ef, n, b). pending (b_db b))") (auto intro: raw_turn_pending [OF sym])

declare raw_loop.simps [simp del]

definition measure_raw_ceiling :: "int \<Rightarrow> stmt \<Rightarrow> (nat \<Rightarrow> stmt) \<Rightarrow> (nat \<Rightarrow> stmt) \<Rightarrow> real \<Rightarrow> real \<Rightarrow> bench
    \<Rightarrow> real result \<times> bench" where
  "measure_raw_ceiling job_count e ec ef started ended b =
     (let b1 = bench_reset b;
          b2 = b1\<lparr>b_db := conn_commit ((raw_insert e ^^ nat job_count) (b_db b1))\<rparr>;
          (processed, b3) = raw_loop ec ef 0 b2
      in (py_div (of_nat processed) (ended - started), b3))"

lemma pending_update_one:
  assumes "distinct (map jid rs)" "j \<in> set rs" "status j = Pending" "\<And>r. status (f r) \<noteq> Pending"
  shows "Suc (length (filter (\<lambda>j. status j = Pending) (update_where (\<lambda>r. jid r = jid j) f rs))) =
    length (filter (\<lambda>j. status j = Pending) rs)"
  using assms(1-3)
proof (induction rs)
  case (Cons r rs)
  show ?case
  proof (cases "r = j")
    case True
    with Cons.prems have "update_where (\<lambda>x. jid x = jid j) f rs = rs"
      by (intro update_where_none) (auto simp: rev_image_eqI)
    with True Cons.prems assms(4) show ?thesis by simp
  next
    case False
    with Cons.prems have "jid r \<noteq> jid j" by (auto simp: rev_image_eqI)
    with False Cons show ?thesis by simp
  qed
qed simp

text \<open>What the loop's tables are like before a turn.\<close>

definition raw_inv :: "(nat \<Rightarrow> stmt) \<Rightarrow> db \<Rightarrow> bool" where
  "raw_inv ec d \<longleftrightarrow> distinct (map jid (jobs d)) \<and>
     (\<forall>j \<in> set (jobs d). status j = Succeeded \<or> status j = Pending \<and> (\<forall>k. run_at j \<le> now (ec k)))"

lemma raw_turn:
  assumes "raw_inv ec d" "raw_claim e d = (Some i, d')"
  shows "raw_inv ec (b_db (raw_finish e' i (b\<lparr>b_db := d'\<rparr>)))"
    "Suc (pending (b_db (raw_finish e' i (b\<lparr>b_db := d'\<rparr>)))) = pending d"
proof -
  obtain j where j: "j \<in> set (jobs d)" "jid j = i" "status j = Pending"
    and d': "d' = conn_commit (d\<lparr>jobs := update_where (\<lambda>r. jid r = i) raw_claim_row (jobs d)\<rparr>)"
    by (rule raw_claim_SomeE [OF assms(2)])
  let ?f = "\<lambda>r. raw_finish_row (now e') (raw_claim_row r)"
  have jobs: "jobs (b_db (raw_finish e' i (b\<lparr>b_db := d'\<rparr>))) = update_where (\<lambda>r. jid r = i) ?f (jobs d)"
    by (simp add: raw_finish_def d' update_where_def raw_claim_row_def)
  have f: "jid (?f r) = jid r" "status (?f r) = Succeeded" for r
    by (simp_all add: raw_finish_row_def raw_claim_row_def)
  then show "raw_inv ec (b_db (raw_finish e' i (b\<lparr>b_db := d'\<rparr>)))"
    using assms(1) unfolding raw_inv_def jobs by (simp add: map_update_where) (auto simp: update_where_def)
  have "distinct (map jid (jobs d))" using assms(1) by (simp add: raw_inv_def)
  from pending_update_one [OF this j(1,3), of ?f] f j(2)
  show "Suc (pending (b_db (raw_finish e' i (b\<lparr>b_db := d'\<rparr>)))) = pending d"
    by (simp add: pending_def jobs)
qed

lemma raw_claim_None:
  assumes "raw_inv ec d" "locked (ec n) = []" "raw_claim (ec n) d = (None, d')"
  shows "d' = conn_commit d" "pending d = 0" "\<forall>j \<in> set (jobs d). status j = Succeeded"
proof -
  let ?q = "sort_key (\<lambda>j. (run_at j, jid j)) (filter (\<lambda>j. status j = Pending \<and> run_at j \<le> now (ec n)) (jobs d))"
  have "?q = []" and "d' = conn_commit d" using assms(2,3) by (cases ?q; simp add: raw_claim_def)+
  then have "set ?q = {}" by (simp only: list.set)
  then have none: "\<forall>j \<in> set (jobs d). \<not> (status j = Pending \<and> run_at j \<le> now (ec n))" by auto
  with assms(1) show "\<forall>j \<in> set (jobs d). status j = Succeeded" by (auto simp: raw_inv_def)
  then show "pending d = 0" by (simp add: pending_def filter_empty_conv)
  show "d' = conn_commit d" by fact
qed

lemma raw_loop_result:
  assumes "raw_inv ec (b_db b)" "\<And>k. locked (ec k) = []"
  shows "\<exists>b'. raw_loop ec ef n b = (n + pending (b_db b), b') \<and>
    b_samples b' = b_samples b @ replicate (pending (b_db b)) 0 \<and>
    length (jobs (b_db b')) = length (jobs (b_db b)) \<and> (\<forall>j \<in> set (jobs (b_db b')). status j = Succeeded)"
  using assms
proof (induction ec ef n b rule: raw_loop.induct)
  case (1 ec ef n b)
  obtain r d' where claim: "raw_claim (ec n) (b_db b) = (r, d')" by fastforce
  show ?case
  proof (cases r)
    case None
    note empty = raw_claim_None [OF 1(2,3) claim [unfolded None]]
    show ?thesis
      by (subst raw_loop.simps) (use claim None empty(2,3) in \<open>simp add: empty(1)\<close>)
  next
    case (Some i)
    let ?b = "raw_finish (ef n) i (b\<lparr>b_db := d'\<rparr>)"
    note turn = raw_turn [OF 1(2) claim [unfolded Some], of "ef n" b]
    have len: "length (jobs (b_db ?b)) = length (jobs (b_db b))"
      using claim Some by (auto elim!: raw_claim_SomeE simp: raw_finish_def update_where_def)
    from 1(1) [OF claim [symmetric] Some turn(1) 1(3)]
    obtain b' where "raw_loop ec ef (n + 1) ?b = (n + 1 + pending (b_db ?b), b')"
      "b_samples b' = b_samples ?b @ replicate (pending (b_db ?b)) 0"
      "length (jobs (b_db b')) = length (jobs (b_db ?b))"
      "\<forall>j \<in> set (jobs (b_db b')). status j = Succeeded" by auto
    with turn(2) len show ?thesis
      by (intro exI [of _ b'], subst raw_loop.simps)
        (simp add: claim Some raw_finish_def flip: turn(2))
  qed
qed

lemma raw_fill:
  "jobs ((raw_insert e ^^ n) d) =
     jobs d @ map (\<lambda>k. new_job (now e) (jobs_id_seq d + int k) ''raw'' [] None) [0..<n]"
  "jobs_id_seq ((raw_insert e ^^ n) d) = jobs_id_seq d + int n"
  by (induction n) (simp_all add: raw_insert_def)

text \<open>
  The bare loop does all of the work. With no other session in its way and a clock that does not
  run backwards, it ends after one turn per job, with every job it inserted succeeded, one sample for
  each, and nothing unfinished; the figure it reports is that number over the time it took.
\<close>

lemma raw_ceiling_drains:
  assumes "\<And>k. locked (ec k) = []" and "\<And>k. now e \<le> now (ec k)"
    and "measure_raw_ceiling n e ec ef t0 t1 b = (r, b')"
  shows "r = py_div (of_int (max n 0)) (t1 - t0) \<and> length (jobs (b_db b')) = nat n \<and>
    (\<forall>j \<in> set (jobs (b_db b')). status j = Succeeded) \<and> \<not> any_unfinished (b_db b') \<and>
    b_samples b' = replicate (nat n) 0"
proof -
  define b2 where "b2 = (bench_reset b)\<lparr>b_db := conn_commit ((raw_insert e ^^ nat n) (b_db (bench_reset b)))\<rparr>"
  have jobs: "jobs (b_db b2) =
      map (\<lambda>k. new_job (now e) (jobs_id_seq (b_db b) + int k) ''raw'' [] None) [0..<nat n]"
    by (simp add: b2_def raw_fill bench_reset_def)
  have "raw_inv ec (b_db b2)"
    using assms(2) by (auto simp: raw_inv_def jobs new_job_def distinct_map inj_on_def)
  moreover have "pending (b_db b2) = nat n" by (simp add: pending_def jobs new_job_def comp_def)
  moreover have "b_samples b2 = []" by (simp add: b2_def bench_reset_def)
  ultimately obtain b3 where b3: "raw_loop ec ef 0 b2 = (nat n, b3)" "b_samples b3 = replicate (nat n) 0"
    "length (jobs (b_db b3)) = nat n" "\<forall>j \<in> set (jobs (b_db b3)). status j = Succeeded"
    using raw_loop_result [where ec = ec and b = b2 and ef = ef and n = 0, OF _ assms(1)] by (auto simp: jobs)
  moreover have "r = py_div (of_nat (nat n)) (t1 - t0)" "b' = b3"
    using assms(3) b3(1) by (simp_all add: measure_raw_ceiling_def Let_def b2_def)
  moreover have "real (nat n) = of_int (max n 0)" by (simp add: max_def)
  ultimately show ?thesis by (auto simp: any_unfinished_def list_ex_iff)
qed

lemma raw_ceiling_drains_witness:
  "fst (measure_raw_ceiling 3 (stmt_at 1) (\<lambda>k. stmt_at (5 + int k)) (\<lambda>k. stmt_at (5 + int k)) 0 2 \<lparr> b_db = db1, b_samples = [7] \<rparr>) = Inr (3 / 2)"
  using raw_ceiling_drains [where n = 3 and e = "stmt_at 1" and ec = "\<lambda>k. stmt_at (5 + int k)", OF _ _ prod.collapse [symmetric]]
  by (simp add: py_div_def)

subsection \<open>The library\<close>

text \<open>
  What the \<open>k\<close>th claim sees, and the environment of each run that follows it. The clock that
  execution ceilings are measured on stands still, as nothing here depends on it.
\<close>

record lib_env =
  le_claim :: "nat \<Rightarrow> stmt"
  le_mt :: real
  le_run :: "nat \<Rightarrow> claimed \<Rightarrow> run_env"

fun library_batch :: "(exn \<Rightarrow> string) \<Rightarrow> code registry \<Rightarrow> (claimed \<Rightarrow> run_env) \<Rightarrow> real \<Rightarrow> string
    \<Rightarrow> claimed list \<Rightarrow> heartbeat \<Rightarrow> proc \<Rightarrow> exn option \<times> heartbeat \<times> proc" where
  "library_batch str_of reg E mt w [] h p = (None, h, p)"
| "library_batch str_of reg E mt w (job # batch) h p =
     (case run_job str_of reg (E job) mt job w DEFAULT_LEASE_SECONDS DEFAULT_MAX_EXECUTION_SECONDS (Some h) p of
        (Some x, h', p') \<Rightarrow> (Some x, the h', p')
      | (None, h', p') \<Rightarrow> library_batch str_of reg E mt w batch (the h') p')"

partial_function (option) library_loop :: "(exn \<Rightarrow> string) \<Rightarrow> code registry \<Rightarrow> lib_env \<Rightarrow> string \<Rightarrow> int \<Rightarrow> nat
    \<Rightarrow> heartbeat \<Rightarrow> proc \<Rightarrow> (exn option \<times> heartbeat \<times> proc) option" where
  "library_loop str_of reg X w batch_size k h p =
     (case claim_jobs (le_claim X k) w DEFAULT_LEASE_SECONDS batch_size (pdb p) of
        Inl x \<Rightarrow> Some (Some x, h, p)
      | Inr (batch, d) \<Rightarrow>
          if batch = [] then Some (None, h, p\<lparr>pdb := d\<rparr>)
          else (case library_batch str_of reg (le_run X k) (le_mt X) w batch
                       (hold (le_mt X) (map fst batch) None h) (p\<lparr>pdb := d\<rparr>) of
                  (Some x, h', p') \<Rightarrow> Some (Some x, h', p')
                | (None, h', p') \<Rightarrow> library_loop str_of reg X w batch_size (k + 1) h' p'))"

text \<open>
  The result, and the process with its database afterwards; \<open>None\<close> if the loop never ends. The samples
  \<^verbatim>\<open>bench_job\<close> inserts are a part of what tasks do to the \<open>world\<close>.
\<close>

definition library_setup :: "int \<Rightarrow> stmt \<Rightarrow> real \<Rightarrow> bench \<Rightarrow> db" where
  "library_setup job_count e enqueued_at b =
     (let add = (\<lambda>d. snd (enqueue e ''bench_job'' [(''enqueued_at'', JFloat enqueued_at)] None d))
      in conn_commit ((add ^^ nat job_count) (b_db (bench_reset b))))"

definition library_cycle :: "(exn \<Rightarrow> string) \<Rightarrow> code registry \<Rightarrow> lib_env \<Rightarrow> int \<Rightarrow> int \<Rightarrow> string
    \<Rightarrow> real \<Rightarrow> real \<Rightarrow> db \<Rightarrow> (real result \<times> proc) option" where
  "library_cycle str_of reg X job_count batch_size w started ended d =
     (let h = new_heartbeat w DEFAULT_LEASE_SECONDS (of_int DEFAULT_LEASE_SECONDS / 3) False
      in case library_loop str_of reg X w batch_size 0 h \<lparr> pdb = d, world = [], wakes = initial_wakeup \<rparr> of
           None \<Rightarrow> None
         | Some (Some x, h', p) \<Rightarrow> Some (Inl x, p)
         | Some (None, h', p) \<Rightarrow> Some (py_div (of_int job_count) (ended - started), p))"

definition measure_single_process_library :: "(exn \<Rightarrow> string) \<Rightarrow> code registry \<Rightarrow> lib_env \<Rightarrow> int \<Rightarrow> int
    \<Rightarrow> stmt \<Rightarrow> real \<Rightarrow> string \<Rightarrow> real \<Rightarrow> real \<Rightarrow> bench \<Rightarrow> (real result \<times> proc) option" where
  "measure_single_process_library str_of reg X job_count batch_size e enqueued_at w started ended b =
     library_cycle str_of reg X job_count batch_size w started ended (library_setup job_count e enqueued_at b)"

subsection \<open>It drains the queue\<close>

text \<open>A task that takes the connection and returns, and a run that nothing disturbs.\<close>

definition returns_plainly :: "code registry \<Rightarrow> string \<Rightarrow> bool" where
  "returns_plainly reg t \<longleftrightarrow> (\<exists>r. reg t = Some r \<and> wants_connection r \<and>
     (\<forall>a d ws. \<exists>ws'. call (fn r) a d ws = (None, d, ws')))"

definition undisturbed :: "run_env \<Rightarrow> bool" where
  "undisturbed E \<longleftrightarrow> re_begin E = None \<and> re_during E = (\<lambda>d. d) \<and> re_finish E = None"

lemma run_undisturbed:
  assumes "returns_plainly reg t" "undisturbed E" "get_job i (pdb p) = Some j" "owned w j"
  shows "\<exists>h' p'. run_job str_of reg E mt (i, t, a) w l m (Some h) p = (None, Some h', p') \<and>
    pdb p' = snd (mark_succeeded (re_done E) i w (pdb p))"
proof -
  obtain r ws' where r: "reg t = Some r" "wants_connection r" "call (fn r) a (pdb p) (world p) = (None, pdb p, ws')"
    using assms(1) unfolding returns_plainly_def by metis
  have "j \<in> set (jobs (pdb p))" "jid j = i" using assms(3) by (auto dest: get_job_SomeD)
  then have "fst (mark_succeeded_in_transaction (re_done E) i w (pdb p))"
    using assms(4) by (auto simp: mark_succeeded_in_transaction_def Let_def filter_empty_conv)
  then obtain d' where "mark_succeeded_in_transaction (re_done E) i w (pdb p) = (True, d')"
    by (metis prod.collapse)
  then show ?thesis
    using r assms(2)
    by (simp add: run_job_def attempt_def get_registered_task_def run_in_transaction_def undisturbed_def
        mark_succeeded_def Let_def)
qed

lemma get_job_mark_succeeded:
  "get_job i' (snd (mark_succeeded e i w d)) =
     map_option (\<lambda>j. if jid j = i \<and> owned w j then succeed_row (now e) j else j) (get_job i' d)"
  using get_job_succeed [of i' e i w d] by (simp add: mark_succeeded_def case_prod_beta)

lemma library_batch_succeeds:
  assumes "jobs_ok (pdb p)" "distinct (map fst batch)" "\<And>job. undisturbed (E job)"
    and "\<And>i t a. (i, t, a) \<in> set batch \<Longrightarrow> returns_plainly reg t \<and> (\<exists>j. get_job i (pdb p) = Some j \<and> owned w j)"
  shows "\<exists>h' p'. library_batch str_of reg E mt w batch h p = (None, h', p') \<and> jobs_ok (pdb p') \<and>
    (\<forall>i. if i \<in> fst ` set batch then \<exists>j. get_job i (pdb p') = Some j \<and> status j = Succeeded
         else get_job i (pdb p') = get_job i (pdb p))"
  using assms
proof (induction batch arbitrary: h p)
  case (Cons job batch)
  obtain i t a where job: "job = (i, t, a)" by (cases job)
  from Cons.prems(4) [of i t a] obtain j where t: "returns_plainly reg t"
    and j: "get_job i (pdb p) = Some j" "owned w j" by (auto simp: job)
  from run_undisturbed [where p = p, OF t Cons.prems(3) j] obtain h1 p1
    where run: "run_job str_of reg (E job) mt job w DEFAULT_LEASE_SECONDS DEFAULT_MAX_EXECUTION_SECONDS (Some h) p =
        (None, Some h1, p1)"
    and p1: "pdb p1 = snd (mark_succeeded (re_done (E job)) i w (pdb p))"
    unfolding job by metis
  have ok: "jobs_ok (pdb p1)"
    unfolding p1 by (rule mark_succeeded_ok(1) [OF Cons.prems(1) prod.collapse [symmetric]])
  have i: "jid j = i" using j(1) by (auto dest: get_job_SomeD)
  have same: "get_job i' (pdb p1) = get_job i' (pdb p)" if "i' \<noteq> i" for i'
    using that by (cases "get_job i' (pdb p)") (auto simp: p1 get_job_mark_succeeded dest: get_job_SomeD)
  have left: "returns_plainly reg t1 \<and> (\<exists>j. get_job i1 (pdb p1) = Some j \<and> owned w j)"
    if "(i1, t1, a1) \<in> set batch" for i1 t1 a1
  proof -
    have "i1 \<noteq> i" using that Cons.prems(2) by (force simp: job)
    with same Cons.prems(4) [of i1 t1 a1] that show ?thesis by simp
  qed
  have "distinct (map fst batch)" using Cons.prems(2) by simp
  from ok this Cons.prems(3)
  have "\<exists>h' p'. library_batch str_of reg E mt w batch h1 p1 = (None, h', p') \<and> jobs_ok (pdb p') \<and>
    (\<forall>i. if i \<in> fst ` set batch then \<exists>j. get_job i (pdb p') = Some j \<and> status j = Succeeded
         else get_job i (pdb p') = get_job i (pdb p1))"
    by (rule Cons.IH) (erule left)
  then obtain h' p' where
    rest: "library_batch str_of reg E mt w batch h1 p1 = (None, h', p')" "jobs_ok (pdb p')"
    "\<forall>i. if i \<in> fst ` set batch then \<exists>j. get_job i (pdb p') = Some j \<and> status j = Succeeded
         else get_job i (pdb p') = get_job i (pdb p1)"
    by (elim exE conjE) (rule that)
  have "i \<notin> fst ` set batch" using Cons.prems(2) by (simp add: job)
  then have done_i: "\<exists>j. get_job i (pdb p') = Some j \<and> status j = Succeeded"
    using rest(3) [rule_format, of i] j i by (simp add: p1 get_job_mark_succeeded row_defs)
  have all: "if i' \<in> fst ` set (job # batch) then \<exists>j. get_job i' (pdb p') = Some j \<and> status j = Succeeded
         else get_job i' (pdb p') = get_job i' (pdb p)" for i'
    using rest(3) [rule_format, of i'] same [of i'] done_i by (cases "i' = i") (simp_all add: job)
  show ?case
    by (intro exI [of _ h'] exI [of _ p'] conjI allI all rest(2)) (simp add: run rest(1))
qed simp

definition library_inv :: "code registry \<Rightarrow> lib_env \<Rightarrow> db \<Rightarrow> bool" where
  "library_inv reg X d \<longleftrightarrow> jobs_ok d \<and>
     (\<forall>i j. get_job i d = Some j \<longrightarrow> status j = Succeeded \<or>
        status j = Pending \<and> returns_plainly reg (task j) \<and> (\<forall>k. run_at j \<le> now (le_claim X k)))"

lemma library_invD:
  assumes "library_inv reg X d" "get_job i d = Some j" "status j = Pending"
  shows "returns_plainly reg (task j)" "run_at j \<le> now (le_claim X k)"
  using assms unfolding library_inv_def by fastforce+

definition pending_ids :: "db \<Rightarrow> int set" where
  "pending_ids d = {i. \<exists>j. get_job i d = Some j \<and> status j = Pending}"

lemma finite_pending_ids: "finite (pending_ids d)"
proof (rule finite_subset)
  show "pending_ids d \<subseteq> jid ` set (jobs d)" by (auto simp: pending_ids_def dest: get_job_SomeD)
qed simp

lemma claim_empty:
  assumes "claim_jobs e w l n d = Inr ([], d')" "jobs_ok d" "scan_ok e" "1 \<le> n" "locked e = []"
    and "get_job i d = Some j" "status j = Pending" "run_at j \<le> now e"
  shows False
proof -
  have "nat n \<noteq> 0" using assms(4) by simp
  then have "claim_queue e (jobs d) = []"
    using claim_rows_set(2) [OF assms(1-3) refl] by (cases "claim_queue e (jobs d)"; cases "nat n") auto
  then have "set (claim_queue e (jobs d)) = {}" by simp
  then show False using assms(5-8) by (auto simp: set_claim_queue due_def dest!: get_job_SomeD)
qed

lemma library_turn:
  assumes inv: "library_inv reg X (pdb p)" and claim: "claim_jobs (le_claim X k) w l n (pdb p) = Inr (batch, d)"
    and env: "scan_ok (le_claim X k)" "\<And>job. undisturbed (E job)" and batch: "batch \<noteq> []"
  shows "\<exists>h' p'. library_batch str_of reg E mt w batch h (p\<lparr>pdb := d\<rparr>) = (None, h', p') \<and>
    library_inv reg X (pdb p') \<and> pending_ids (pdb p') \<subset> pending_ids (pdb p) \<and>
    dom (\<lambda>i. get_job i (pdb p')) = dom (\<lambda>i. get_job i (pdb p))"
proof -
  have ok: "jobs_ok (pdb p)" using inv by (simp add: library_inv_def)
  let ?ids = "fst ` set batch"
  have d: "get_job i d = map_option (\<lambda>j. if i \<in> ?ids then claim_row w (now (le_claim X k) + seconds l) j else j)
      (get_job i (pdb p))" for i
    by (rule get_job_claim [OF claim ok env(1)])
  have row: "\<exists>j. get_job i (pdb p) = Some j \<and> status j = Pending \<and> returns_plainly reg (task j) \<and>
      (i, task j, args j) \<in> set batch" if "i \<in> ?ids" for i
  proof (rule claim_ids [OF claim ok env(1) that])
    fix j assume j: "get_job i (pdb p) = Some j" "due (now (le_claim X k)) j" "(i, task j, args j) \<in> set batch"
    then have "status j = Pending" by (simp add: due_def)
    with library_invD(1) [OF inv j(1)] j show ?thesis by blast
  qed
  have dist: "distinct (map fst batch)" by (rule claim_rows_set(3) [OF claim ok env(1) refl])
  have rows: "returns_plainly reg t \<and> (\<exists>j. get_job i d = Some j \<and> owned w j)" if "(i, t, a) \<in> set batch" for i t a
  proof -
    from that have "i \<in> ?ids" by force
    from row [OF this] obtain j where j: "get_job i (pdb p) = Some j" "returns_plainly reg (task j)"
      "(i, task j, args j) \<in> set batch" by blast
    with that dist have "task j = t" by (metis Pair_inject distinct_map fst_conv inj_on_def)
    with j \<open>i \<in> ?ids\<close> show ?thesis by (simp add: d owned_def row_defs)
  qed
  have okd: "jobs_ok d"
    using upkeep_step_ok [OF upkeep_step.claim [OF env(1) claim] ok] by simp
  have "\<exists>h' p'. library_batch str_of reg E mt w batch h (p\<lparr>pdb := d\<rparr>) = (None, h', p') \<and> jobs_ok (pdb p') \<and>
    (\<forall>i. if i \<in> ?ids then \<exists>j. get_job i (pdb p') = Some j \<and> status j = Succeeded
         else get_job i (pdb p') = get_job i (pdb (p\<lparr>pdb := d\<rparr>)))"
    using okd dist env(2) rows by (intro library_batch_succeeds) simp_all
  then obtain h' p' where run: "library_batch str_of reg E mt w batch h (p\<lparr>pdb := d\<rparr>) = (None, h', p')"
    "jobs_ok (pdb p')" and after: "\<forall>i. if i \<in> ?ids then \<exists>j. get_job i (pdb p') = Some j \<and> status j = Succeeded
         else get_job i (pdb p') = get_job i d" by auto
  have other: "get_job i (pdb p') = get_job i (pdb p)" if "i \<notin> ?ids" for i
    using after [rule_format, of i] that by (cases "get_job i (pdb p)") (simp_all add: d)
  have mine: "\<exists>j. get_job i (pdb p') = Some j \<and> status j = Succeeded" if "i \<in> ?ids" for i
    using after [rule_format, of i] that by simp
  have "library_inv reg X (pdb p')"
    unfolding library_inv_def
  proof (intro conjI allI impI run(2))
    fix i j assume j: "get_job i (pdb p') = Some j"
    show "status j = Succeeded \<or> status j = Pending \<and> returns_plainly reg (task j) \<and>
        (\<forall>k. run_at j \<le> now (le_claim X k))"
      using inv j mine [of i] other [of i] by (cases "i \<in> ?ids") (auto simp: library_inv_def)
  qed
  moreover have "pending_ids (pdb p') \<subseteq> pending_ids (pdb p)"
  proof
    fix i assume i: "i \<in> pending_ids (pdb p')"
    then obtain j where "get_job i (pdb p') = Some j" "status j = Pending" by (auto simp: pending_ids_def)
    then have "i \<notin> ?ids" using mine [of i] by force
    with i other show "i \<in> pending_ids (pdb p)" by (simp add: pending_ids_def)
  qed
  moreover obtain i where i: "i \<in> ?ids" using batch by (cases batch) auto
  obtain j where "get_job i (pdb p) = Some j" "status j = Pending" using row [OF i] by blast
  with mine [OF i] have "i \<in> pending_ids (pdb p) - pending_ids (pdb p')"
    by (auto simp: pending_ids_def)
  moreover have "get_job i (pdb p') = None \<longleftrightarrow> get_job i (pdb p) = None" for i
    using mine [of i] row [of i] other [of i] by (cases "i \<in> ?ids") auto
  then have "dom (\<lambda>i. get_job i (pdb p')) = dom (\<lambda>i. get_job i (pdb p))" by (simp add: dom_def)
  ultimately show ?thesis using run(1) by blast
qed

lemma library_loop_result:
  assumes "library_inv reg X (pdb p)" "1 \<le> n"
    and "\<And>k. scan_ok (le_claim X k)" "\<And>k. locked (le_claim X k) = []" "\<And>k job. undisturbed (le_run X k job)"
  shows "\<exists>h' p'. library_loop str_of reg X w n k h p = Some (None, h', p') \<and> jobs_ok (pdb p') \<and>
    dom (\<lambda>i. get_job i (pdb p')) = dom (\<lambda>i. get_job i (pdb p)) \<and> (\<forall>i j. get_job i (pdb p') = Some j \<longrightarrow> status j = Succeeded)"
  using assms(1)
proof (induction "card (pending_ids (pdb p))" arbitrary: p k h rule: less_induct)
  case less
  have ok: "jobs_ok (pdb p)" using less.prems by (simp add: library_inv_def)
  obtain batch d where claim: "claim_jobs (le_claim X k) w DEFAULT_LEASE_SECONDS n (pdb p) = Inr (batch, d)"
    using assms(2) claim_jobs_Inr_iff [of "le_claim X k" w DEFAULT_LEASE_SECONDS n "pdb p"] by (auto simp: Let_def)
  show ?case
  proof (cases "batch = []")
    case True
    have no: "\<not> (get_job i (pdb p) = Some j \<and> status j = Pending)" for i j
      using claim_empty [OF claim [unfolded True] ok assms(3) assms(2) assms(4)] library_invD(2) [OF less.prems]
      by blast
    have same: "get_job i d = get_job i (pdb p)" for i
      using get_job_claim [OF claim ok assms(3)] by (simp add: True option.map_ident)
    with no less.prems have "\<forall>i j. get_job i d = Some j \<longrightarrow> status j = Succeeded"
      by (auto simp: library_inv_def)
    moreover have "jobs_ok d" using upkeep_step_ok [OF upkeep_step.claim [OF assms(3) claim] ok] by simp
    ultimately show ?thesis by (subst library_loop.simps) (simp add: claim True same)
  next
    case False
    let ?h = "hold (le_mt X) (map fst batch) None h"
    obtain h1 p1 where turn:
      "library_batch str_of reg (le_run X k) (le_mt X) w batch ?h (p\<lparr>pdb := d\<rparr>) = (None, h1, p1)"
      "library_inv reg X (pdb p1)" "pending_ids (pdb p1) \<subset> pending_ids (pdb p)"
      "dom (\<lambda>i. get_job i (pdb p1)) = dom (\<lambda>i. get_job i (pdb p))"
      using library_turn [where E = "le_run X k" and mt = "le_mt X" and h = ?h and str_of = str_of,
          OF less.prems claim assms(3) assms(5) False] by blast
    have "card (pending_ids (pdb p1)) < card (pending_ids (pdb p))"
      by (rule psubset_card_mono [OF finite_pending_ids turn(3)])
    from less.hyps [OF this turn(2), of "k + 1" h1] show ?thesis
      by (subst library_loop.simps) (simp add: claim False turn(1,4))
  qed
qed

lemma library_fill:
  "jobs (((\<lambda>d. snd (enqueue e t a None d)) ^^ n) d) =
     jobs d @ map (\<lambda>k. new_job (now e) (jobs_id_seq d + int k) t a None) [0..<n]"
  "jobs_id_seq (((\<lambda>d. snd (enqueue e t a None d)) ^^ n) d) = jobs_id_seq d + int n"
  by (induction n) (simp_all add: enqueue_def insert_job_def conflicting_def Let_def)

lemma jobs_ok_fill: "jobs_ok d \<Longrightarrow> jobs_ok (((\<lambda>d. snd (enqueue e t a None d)) ^^ n) d)"
proof (induction n)
  case (Suc n)
  then show ?case by (simp add: enqueue_jobs_ok [OF _ prod.collapse [symmetric]])
qed simp

lemma dom_get_job: "dom (\<lambda>i. get_job i d) = jid ` set (jobs d)"
  by (auto simp: dom_def get_job_def row_at_def find_None_iff image_iff)


definition reg_bench :: "code registry" where
  "reg_bench = [''bench_job'' \<mapsto> \<lparr> fn = \<lparr> fname = ''bench_job'', params = [''conn'', ''enqueued_at''],
      call = (\<lambda>a d ws. (None, d, ws @ [''sample''])) \<rparr>,
    wants_connection = True, rt_max_attempts = None, rt_max_execution_seconds = None \<rparr>]"

definition lib_env1 :: lib_env where
  "lib_env1 = \<lparr> le_claim = \<lambda>k. stmt_at (5 + int k), le_mt = 0,
     le_run = \<lambda>k job. \<lparr> re_begin = None, re_during = id, re_done = stmt_at (6 + int k), re_finish = None,
       re_after = id, re_fail = stmt_at 9, re_unif = 0, re_record = None \<rparr> \<rparr>"


end
