(* ===== verification/Bench_Trials.thy ===== *)
theory Bench_Trials
  imports Bench_Loops Cli
begin

section \<open>Trials\<close>

text \<open>
  The measurements of \<^verbatim>\<open>scripts/benchmark.py\<close> that start worker processes, and the connections and
  processes they hold meanwhile. An action is given the harness's state and returns a result and the
  state after it, or \<open>None\<close> if it never ends.
\<close>

subsection \<open>Actions\<close>

record harness =
  h_bench :: bench
  h_lines :: "string list"
  h_net :: net
  h_pids :: "nat list"
  h_next_pid :: nat
  h_turn :: nat
  h_repeat :: int

type_synonym 'a act = "harness \<Rightarrow> ('a result \<times> harness) option"

definition act_of :: "'a result \<Rightarrow> 'a act" where
  "act_of r h = Some (r, h)"

abbreviation act_ret :: "'a \<Rightarrow> 'a act" where
  "act_ret v \<equiv> act_of (Inr v)"

definition act_bind :: "'a act \<Rightarrow> ('a \<Rightarrow> 'b act) \<Rightarrow> 'b act" where
  "act_bind m k h =
     (case m h of
        None \<Rightarrow> None
      | Some (Inl x, h') \<Rightarrow> Some (Inl x, h')
      | Some (Inr v, h') \<Rightarrow> k v h')"

definition act_modify :: "(harness \<Rightarrow> harness) \<Rightarrow> unit act" where
  "act_modify f h = Some (Inr (), f h)"

text \<open>\<^verbatim>\<open>try: m finally: c\<close>, for a \<open>c\<close> that does not raise.\<close>

definition act_finally :: "'a act \<Rightarrow> (harness \<Rightarrow> harness) \<Rightarrow> 'a act" where
  "act_finally m c h = map_option (apsnd c) (m h)"

text \<open>A \<^verbatim>\<open>for\<close> loop with the variables it updates, and a comprehension over a range.\<close>

fun act_fold :: "('a \<Rightarrow> 's \<Rightarrow> 's act) \<Rightarrow> 'a list \<Rightarrow> 's \<Rightarrow> 's act" where
  "act_fold f [] s = act_ret s"
| "act_fold f (x # xs) s = act_bind (f x s) (act_fold f xs)"

fun act_repeat :: "nat \<Rightarrow> 'a act \<Rightarrow> 'a list act" where
  "act_repeat 0 m = act_ret []"
| "act_repeat (Suc n) m = act_bind m (\<lambda>v. act_bind (act_repeat n m) (\<lambda>vs. act_ret (v # vs)))"

definition print_lines :: "string list \<Rightarrow> unit act" where
  "print_lines ls = act_modify (h_lines_update (\<lambda>old. old @ ls))"

subsection \<open>The environment\<close>

text \<open>
  What happens around one measurement with workers: what they do until the enqueue, between enqueues and
  until the last query; what the statements see and \<^verbatim>\<open>time.time()\<close> returns; the turns of the drain loop;
  and whether anything between \<^verbatim>\<open>try\<close> and \<^verbatim>\<open>finally\<close> is interrupted.
\<close>

record trial =
  tr_settled :: "bench \<Rightarrow> bench"
  tr_raises :: "exn option"
  tr_stmt :: "nat \<Rightarrow> stmt"
  tr_time :: "nat \<Rightarrow> real"
  tr_between :: "nat \<Rightarrow> bench \<Rightarrow> bench"
  tr_started_at :: micros
  tr_clock :: real
  tr_polls :: "bench \<Rightarrow> poll list"
  tr_final :: "bench \<Rightarrow> bench"
  tr_database :: string
  tr_pid :: int

text \<open>The same for the measurements in one process.\<close>

record loop_env =
  lo_insert :: stmt
  lo_claim :: "nat \<Rightarrow> stmt"
  lo_finish :: "nat \<Rightarrow> stmt"
  lo_lib :: lib_env
  lo_time :: real
  lo_worker :: string
  lo_started :: real
  lo_ended :: real
  lo_samples :: "string list \<Rightarrow> real list"

text \<open>
  Everything outside the harness. The \<open>n\<close>th measurement is a trial of the processes it started, given
  by their ids, command line and environment variables.
\<close>

record lab =
  lb_environ :: environ
  lb_parse :: dsn_parser
  lb_connect :: "nat \<Rightarrow> exn option"
  lb_popen :: "nat \<Rightarrow> exn option"
  lb_executable :: string
  lb_file :: string
  lb_float :: "real \<Rightarrow> string"
  lb_str_of :: "exn \<Rightarrow> string"
  lb_reg :: "code registry"
  lb_trial :: "nat \<Rightarrow> nat list \<Rightarrow> string list \<Rightarrow> environ \<Rightarrow> trial"
  lb_loop :: "nat \<Rightarrow> loop_env"

definition open_connection :: "lab \<Rightarrow> nat act" where
  "open_connection X h =
     (case get_connection (lb_environ X) (lb_parse X) (lb_connect X (next_conn (h_net h))) None (h_net h) of
        (r, n) \<Rightarrow> Some (r, h\<lparr>h_net := n\<rparr>))"

definition open_dsn :: "lab \<Rightarrow> string \<Rightarrow> nat act" where
  "open_dsn X dsn h =
     (case psycopg_connect (lb_connect X (next_conn (h_net h))) dsn [] (h_net h) of
        (r, n) \<Rightarrow> Some (r, h\<lparr>h_net := n\<rparr>))"

definition close_connection :: "nat \<Rightarrow> harness \<Rightarrow> harness" where
  "close_connection c h = h\<lparr>h_net := close_conn c (h_net h)\<rparr>"

definition reset :: "unit act" where
  "reset = act_modify (\<lambda>h. h\<lparr>h_bench := bench_reset (h_bench h)\<rparr>)"

subsection \<open>Worker processes\<close>

definition worker_argv :: "lab \<Rightarrow> bool \<Rightarrow> real \<Rightarrow> int \<Rightarrow> int \<Rightarrow> string list" where
  "worker_argv X use_notify poll_interval concurrency batch_size =
     [lb_executable X, lb_file X, ''--worker'', ''--poll-interval'', lb_float X poll_interval,
      ''--concurrency'', int_str concurrency, ''--batch-size'', int_str batch_size] @
     (if use_notify then [] else [''--no-notify''])"

definition worker_environ :: "environ \<Rightarrow> string option \<Rightarrow> environ" where
  "worker_environ env dsn = (case dsn of None \<Rightarrow> env | Some s \<Rightarrow> env(''DATABASE_URL'' \<mapsto> s))"

definition popen :: "lab \<Rightarrow> nat act" where
  "popen X h =
     (let p = h_next_pid h
      in case lb_popen X p of
           Some x \<Rightarrow> Some (Inl x, h)
         | None \<Rightarrow> Some (Inr p, h\<lparr>h_next_pid := p + 1, h_pids := p # h_pids h\<rparr>))"

definition spawn_workers :: "lab \<Rightarrow> int \<Rightarrow> bool \<Rightarrow> real \<Rightarrow> string option \<Rightarrow> int \<Rightarrow> int
    \<Rightarrow> (nat list \<times> string list \<times> environ) act" where
  "spawn_workers X n use_notify poll_interval dsn concurrency batch_size =
     act_bind (act_repeat (nat n) (popen X)) (\<lambda>pids.
       act_ret (pids, worker_argv X use_notify poll_interval concurrency batch_size,
                worker_environ (lb_environ X) dsn))"

definition stop_workers :: "nat list \<Rightarrow> harness \<Rightarrow> harness" where
  "stop_workers pids h = h\<lparr>h_pids := filter (\<lambda>p. p \<notin> set pids) (h_pids h)\<rparr>"

text \<open>The trial that follows, in its \<^verbatim>\<open>try\<close> block.\<close>

definition with_workers :: "lab \<Rightarrow> (nat list \<times> string list \<times> environ) act \<Rightarrow> (trial \<Rightarrow> 'a act)
    \<Rightarrow> (trial \<Rightarrow> 'a \<Rightarrow> 'b act) \<Rightarrow> 'b act" where
  "with_workers X spawn body after =
     act_bind spawn (\<lambda>(pids, argv, env) h.
       let T = lb_trial X (h_turn h) pids argv env
       in act_bind (act_finally (body T) (stop_workers pids)) (after T) (h\<lparr>h_turn := h_turn h + 1\<rparr>))"

text \<open>Waiting for the queue to drain leaves the tables as the last turn found them.\<close>

definition drain_act :: "lab \<Rightarrow> trial \<Rightarrow> real \<Rightarrow> poll list act" where
  "drain_act X T timeout h =
     (let ps = tr_polls T (h_bench h)
      in case drain (lb_float X) (tr_clock T) timeout ps of
           None \<Rightarrow> None
         | Some (r, n) \<Rightarrow>
             Some (map_sum id (\<lambda>_. take n ps) r,
                   h\<lparr>h_bench := \<lparr> b_db = po_db (ps ! (n - 1)), b_samples = po_samples (ps ! (n - 1)) \<rparr>\<rparr>))"

subsection \<open>Throughput\<close>

record tp_options =
  job_count :: int
  worker_count :: int
  tp_poll_interval :: real
  tp_dsn :: "string option"
  tp_concurrency :: int
  tp_batch_size :: int
  tp_use_notify :: bool
  task_name :: string
  tp_connections :: bool

text \<open>The keyword arguments' defaults.\<close>

definition tp_defaults :: "int \<Rightarrow> int \<Rightarrow> real \<Rightarrow> tp_options" where
  "tp_defaults n w poll_interval =
     \<lparr> job_count = n, worker_count = w, tp_poll_interval = poll_interval, tp_dsn = None,
       tp_concurrency = 1, tp_batch_size = 10, tp_use_notify = True,
       task_name = ''bench_job'', tp_connections = False \<rparr>"

definition throughput_body :: "lab \<Rightarrow> tp_options \<Rightarrow> trial \<Rightarrow> (int \<times> int) list act" where
  "throughput_body X q T h =
     (case tr_raises T of
        Some x \<Rightarrow> Some (Inl x, h)
      | None \<Rightarrow>
          (let b = tr_settled T (h_bench h);
               args_list = replicate (nat (job_count q)) [(''enqueued_at'', JFloat (tr_time T 0))]
           in case enqueue_many (tr_stmt T 0) (task_name q) args_list None (b_db b) of
                Inl x \<Rightarrow> Some (Inl x, h)
              | Inr (ids, d) \<Rightarrow>
                  act_bind (drain_act X T 120) (\<lambda>turns.
                    act_ret (if tp_connections q
                             then map (worker_connection_count (tr_database T) (tr_pid T) \<circ> po_activity) turns
                             else []))
                    (h\<lparr>h_bench := b\<lparr>b_db := conn_commit d\<rparr>\<rparr>)))"

definition max_finished_at :: "db \<Rightarrow> micros option" where
  "max_finished_at d =
     (let ts = List.map_filter finished_at (jobs d) in if ts = [] then None else Some (Max (set ts)))"

definition throughput_rate :: "int \<Rightarrow> micros \<Rightarrow> db \<Rightarrow> real result" where
  "throughput_rate n started_at d =
     (case max_finished_at d of
        None \<Rightarrow> Inl (TypeError (''unsupported operand type(s) for -: '' @ [CHR 0x27] @ ''NoneType'' @ [CHR 0x27] @
                    '' and '' @ [CHR 0x27] @ ''datetime.datetime'' @ [CHR 0x27]))
      | Some t \<Rightarrow> py_div (of_int n) (of_int (t - started_at) / 1000000))"

definition measure_throughput_once :: "lab \<Rightarrow> tp_options \<Rightarrow> (real \<times> (int \<times> int) list) act" where
  "measure_throughput_once X q =
     act_bind reset (\<lambda>_.
       with_workers X
         (spawn_workers X (worker_count q) (tp_use_notify q) (tp_poll_interval q) (tp_dsn q)
            (tp_concurrency q) (tp_batch_size q))
         (throughput_body X q)
         (\<lambda>T connections h.
            let b = tr_final T (h_bench h)
            in Some (bind_result (throughput_rate (job_count q) (tr_started_at T) (b_db b))
                       (\<lambda>rate. Inr (rate, connections)), h\<lparr>h_bench := b\<rparr>)))"

text \<open>The median of \<^verbatim>\<open>REPEAT\<close> runs, and the connection counts of all of them.\<close>

definition measure_throughput :: "lab \<Rightarrow> tp_options \<Rightarrow> (real \<times> (int \<times> int) list) act" where
  "measure_throughput X q h =
     act_bind (act_repeat (nat (h_repeat h)) (measure_throughput_once X q))
       (\<lambda>rs. act_of (bind_result (median (map fst rs)) (\<lambda>rate. Inr (rate, concat (map snd rs))))) h"

definition measure_with_dsn :: "lab \<Rightarrow> string \<Rightarrow> tp_options \<Rightarrow> (real \<times> (int \<times> int) list) act" where
  "measure_with_dsn X dsn q =
     act_bind (open_dsn X dsn) (\<lambda>c.
       act_finally (measure_throughput X (q\<lparr>tp_dsn := Some dsn\<rparr>)) (close_connection c))"

subsection \<open>Latency\<close>

definition latency_sample :: "trial \<Rightarrow> nat \<Rightarrow> bench \<Rightarrow> bench" where
  "latency_sample T k b =
     tr_between T k
       (b\<lparr>b_db := conn_commit (snd (enqueue (tr_stmt T k) ''bench_job''
                    [(''enqueued_at'', JFloat (tr_time T k))] None (b_db b)))\<rparr>)"

definition latency_body :: "lab \<Rightarrow> int \<Rightarrow> trial \<Rightarrow> real list act" where
  "latency_body X samples T h =
     (case tr_raises T of
        Some x \<Rightarrow> Some (Inl x, h)
      | None \<Rightarrow>
          act_bind (drain_act X T 30) (\<lambda>turns h.
            let b = tr_final T (h_bench h) in Some (Inr (b_samples b), h\<lparr>h_bench := b\<rparr>))
            (h\<lparr>h_bench := fold (latency_sample T) [0..<nat samples] (tr_settled T (h_bench h))\<rparr>))"

definition measure_latency :: "lab \<Rightarrow> int \<Rightarrow> int \<Rightarrow> real \<Rightarrow> bool \<Rightarrow> real list act" where
  "measure_latency X samples w poll_interval use_notify =
     act_bind reset (\<lambda>_.
       with_workers X (spawn_workers X w use_notify poll_interval None 1 10) (latency_body X samples)
         (\<lambda>T. act_ret))"

subsection \<open>One process\<close>

definition raw_ceiling :: "lab \<Rightarrow> int \<Rightarrow> real act" where
  "raw_ceiling X n h =
     (let L = lb_loop X (h_turn h)
      in case measure_raw_ceiling n (lo_insert L) (lo_claim L) (lo_finish L) (lo_started L) (lo_ended L) (h_bench h) of
           (r, b) \<Rightarrow> Some (r, h\<lparr>h_bench := b, h_turn := h_turn h + 1\<rparr>))"

text \<open>The worker's connection and the heartbeat's are opened before the \<^verbatim>\<open>try\<close>.\<close>

definition single_process_library :: "lab \<Rightarrow> int \<Rightarrow> int \<Rightarrow> real act" where
  "single_process_library X n batch_size h =
     (let L = lb_loop X (h_turn h);
          d = library_setup n (lo_insert L) (lo_time L) (h_bench h)
      in act_bind (open_connection X) (\<lambda>worker_conn.
           act_bind (open_connection X) (\<lambda>heartbeat_conn.
             act_finally
               (\<lambda>h. case library_cycle (lb_str_of X) (lb_reg X) (lo_lib L) n batch_size (lo_worker L)
                           (lo_started L) (lo_ended L) d of
                      None \<Rightarrow> None
                    | Some (r, p) \<Rightarrow>
                        Some (r, h\<lparr>h_bench := \<lparr> b_db = pdb p, b_samples = lo_samples L (world p) \<rparr>\<rparr>))
               (close_connection worker_conn \<circ> close_connection heartbeat_conn)))
           (h\<lparr>h_bench := \<lparr> b_db = d, b_samples = [] \<rparr>, h_turn := h_turn h + 1\<rparr>))"

subsection \<open>What a measurement leaves behind\<close>

text \<open>
  An action is tidy if, however it ends, the processes and connections the harness holds are those it
  held before.
\<close>

definition h_ok :: "harness \<Rightarrow> bool" where
  "h_ok h \<longleftrightarrow> (\<forall>p \<in> set (h_pids h). p < h_next_pid h) \<and>
     (\<forall>c \<in> set (open_conns (h_net h)). c < next_conn (h_net h))"

definition same_held :: "harness \<Rightarrow> harness \<Rightarrow> bool" where
  "same_held h h' \<longleftrightarrow> h_ok h' \<and> h_pids h' = h_pids h \<and> open_conns (h_net h') = open_conns (h_net h)"

definition tidy :: "'a act \<Rightarrow> bool" where
  "tidy m \<longleftrightarrow> (\<forall>h r h'. h_ok h \<longrightarrow> m h = Some (r, h') \<longrightarrow> same_held h h')"

named_theorems tidy_rules

lemma tidyI: "(\<And>h r h'. h_ok h \<Longrightarrow> m h = Some (r, h') \<Longrightarrow> same_held h h') \<Longrightarrow> tidy m"
  by (simp add: tidy_def)

lemma tidyD: "tidy m \<Longrightarrow> h_ok h \<Longrightarrow> m h = Some (r, h') \<Longrightarrow> same_held h h'"
  by (simp add: tidy_def)

lemma same_held_refl: "h_ok h \<Longrightarrow> same_held h h"
  by (simp add: same_held_def)

lemma same_held_trans: "same_held h h' \<Longrightarrow> same_held h' h'' \<Longrightarrow> same_held h h''"
  by (simp add: same_held_def)

lemma same_held_ok: "same_held h h' \<Longrightarrow> h_ok h'"
  by (simp add: same_held_def)

lemma same_held_frame:
  "h_ok h \<Longrightarrow> h_pids h' = h_pids h \<Longrightarrow> h_next_pid h' = h_next_pid h \<Longrightarrow> h_net h' = h_net h \<Longrightarrow> same_held h h'"
  by (simp add: same_held_def h_ok_def)

lemma act_bindE:
  assumes "act_bind m k h = Some (r, h'')"
  obtains x where "m h = Some (Inl x, h'')" "r = Inl x"
  | v h' where "m h = Some (Inr v, h')" "k v h' = Some (r, h'')"
  using assms by (auto simp: act_bind_def split: option.splits prod.splits sum.splits)

lemma act_bind_Inr: "m h = Some (Inr v, h') \<Longrightarrow> act_bind m k h = k v h'"
  by (simp add: act_bind_def)

lemma act_bind_Inl: "m h = Some (Inl x, h') \<Longrightarrow> act_bind m k h = Some (Inl x, h')"
  by (simp add: act_bind_def)

lemma tidy_bind [tidy_rules]:
  assumes "tidy m" "\<And>v. tidy (k v)"
  shows "tidy (act_bind m k)"
proof (rule tidyI)
  fix h r h'' assume ok: "h_ok h" and "act_bind m k h = Some (r, h'')"
  from this(2) show "same_held h h''"
  proof (cases rule: act_bindE)
    case 1
    then show ?thesis using tidyD [OF assms(1) ok] by blast
  next
    case (2 v h')
    with tidyD [OF assms(1) ok] have "same_held h h'" by blast
    with tidyD [OF assms(2) same_held_ok 2(2)] show ?thesis by (blast intro: same_held_trans)
  qed
qed

lemma tidy_of [tidy_rules]: "tidy (act_of r)"
  by (rule tidyI) (simp add: act_of_def same_held_refl)

lemma tidy_print [tidy_rules]: "tidy (print_lines ls)"
  by (rule tidyI) (auto simp: print_lines_def act_modify_def intro: same_held_frame)

lemma tidy_reset [tidy_rules]: "tidy reset"
  by (rule tidyI) (auto simp: reset_def act_modify_def intro: same_held_frame)

lemma tidy_fold [tidy_rules]: "(\<And>x s. tidy (f x s)) \<Longrightarrow> tidy (act_fold f xs s)"
  by (induction xs arbitrary: s) (auto intro: tidy_rules)

lemma tidy_repeat [tidy_rules]: "tidy m \<Longrightarrow> tidy (act_repeat n m)"
  by (induction n) (auto intro!: tidy_rules)

lemma tidy_if [tidy_rules]: "tidy a \<Longrightarrow> tidy b \<Longrightarrow> tidy (if c then a else b)"
  by simp

text \<open>A step that only touches the tables and the clock of trials, before or after a tidy action.\<close>

lemma tidy_from:
  assumes "tidy m" "\<And>h. h_pids (f h) = h_pids h \<and> h_next_pid (f h) = h_next_pid h \<and> h_net (f h) = h_net h"
  shows "tidy (\<lambda>h. m (f h))"
proof (rule tidyI)
  fix h r h' assume ok: "h_ok h" and m: "m (f h) = Some (r, h')"
  have "same_held h (f h)" by (rule same_held_frame [OF ok]) (simp_all add: assms(2))
  with tidyD [OF assms(1) same_held_ok m] show "same_held h h'" by (blast intro: same_held_trans)
qed

lemma tidy_tables:
  assumes "\<And>h r h'. m h = Some (r, h') \<Longrightarrow>
    h_pids h' = h_pids h \<and> h_next_pid h' = h_next_pid h \<and> h_net h' = h_net h"
  shows "tidy m"
  by (rule tidyI) (simp add: same_held_frame assms)

subsubsection \<open>Worker processes\<close>

lemma popen_all:
  assumes "\<And>p. lb_popen X p = None"
  shows "act_repeat n (popen X) h =
    Some (Inr [h_next_pid h..<h_next_pid h + n],
          h\<lparr>h_next_pid := h_next_pid h + n, h_pids := rev [h_next_pid h..<h_next_pid h + n] @ h_pids h\<rparr>)"
proof (induction n arbitrary: h)
  case (Suc n)
  have "popen X h = Some (Inr (h_next_pid h), h\<lparr>h_next_pid := h_next_pid h + 1, h_pids := h_next_pid h # h_pids h\<rparr>)"
    by (simp add: popen_def assms Let_def)
  moreover have "[p..<p + Suc n] = p # [Suc p..<Suc p + n]" for p by (simp add: upt_conv_Cons)
  ultimately show ?case using Suc by (simp add: act_bind_Inr act_of_def del: upt_Suc)
qed (simp add: act_of_def)

lemma spawn_all:
  assumes "\<And>p. lb_popen X p = None"
  shows "spawn_workers X n u poll dsn c b h =
    Some (Inr ([h_next_pid h..<h_next_pid h + nat n], worker_argv X u poll c b, worker_environ (lb_environ X) dsn),
          h\<lparr>h_next_pid := h_next_pid h + nat n,
            h_pids := rev [h_next_pid h..<h_next_pid h + nat n] @ h_pids h\<rparr>)"
  unfolding spawn_workers_def by (simp add: act_bind_Inr [OF popen_all [OF assms]] act_of_def)

lemma tidy_with_workers:
  assumes "\<And>p. lb_popen X p = None" and "\<And>T. tidy (body T)" and "\<And>T v. tidy (after T v)"
  shows "tidy (with_workers X (spawn_workers X n u poll dsn c b) body after)"
proof (rule tidyI)
  fix h r h' assume ok: "h_ok h"
    and run: "with_workers X (spawn_workers X n u poll dsn c b) body after h = Some (r, h')"
  let ?new = "[h_next_pid h..<h_next_pid h + nat n]"
  let ?h = "h\<lparr>h_next_pid := h_next_pid h + nat n, h_pids := rev ?new @ h_pids h, h_turn := h_turn h + 1\<rparr>"
  let ?T = "lb_trial X (h_turn h) ?new (worker_argv X u poll c b) (worker_environ (lb_environ X) dsn)"
  have "act_bind (act_finally (body ?T) (stop_workers ?new)) (after ?T) ?h = Some (r, h')"
    using run unfolding with_workers_def by (simp add: act_bind_Inr [OF spawn_all [OF assms(1)]] Let_def)
  moreover have "h_ok ?h" using ok by (auto simp: h_ok_def)
  moreover have new: "filter (\<lambda>p. p \<notin> set ?new) (rev ?new @ h_pids h) = h_pids h"
    using ok by (auto simp: h_ok_def filter_id_conv)
  have held: "same_held h (stop_workers ?new h1)" if "body ?T ?h = Some (v, h1)" for v h1
  proof -
    from tidyD [OF assms(2) \<open>h_ok ?h\<close> that] have h1: "h_ok h1" "h_pids h1 = rev ?new @ h_pids h"
      "open_conns (h_net h1) = open_conns (h_net h)" by (simp_all add: same_held_def)
    then have "h_pids (stop_workers ?new h1) = h_pids h" by (simp only: stop_workers_def new) simp
    with h1 show ?thesis by (auto simp: same_held_def h_ok_def stop_workers_def)
  qed
  ultimately show "same_held h h'"
  proof (cases rule: act_bindE)
    case (1 x)
    then show ?thesis using held by (auto simp: act_finally_def)
  next
    case (2 v h2)
    then obtain h1 where "body ?T ?h = Some (Inr v, h1)" "h2 = stop_workers ?new h1"
      by (auto simp: act_finally_def)
    then have "same_held h h2" using held by blast
    then show ?thesis using tidyD [OF assms(3) same_held_ok 2(2)] by (blast intro: same_held_trans)
  qed
qed

lemma tidy_drain: "tidy (drain_act X T timeout)"
  by (rule tidy_tables) (auto simp: drain_act_def Let_def split: option.splits prod.splits)

lemma tidy_throughput_body: "tidy (throughput_body X q T)"
proof (rule tidyI)
  fix h r h' assume ok: "h_ok h" and run: "throughput_body X q T h = Some (r, h')"
  let ?k = "\<lambda>turns. act_ret (if tp_connections q
      then map (worker_connection_count (tr_database T) (tr_pid T) \<circ> po_activity) turns else [])"
  have tidy: "tidy (\<lambda>h. act_bind (drain_act X T 120) ?k (h\<lparr>h_bench := b\<rparr>))" for b
    by (rule tidy_from) (auto intro!: tidy_rules tidy_drain)
  show "same_held h h'"
  proof (cases "tr_raises T")
    case (Some x)
    with run ok show ?thesis by (auto simp: throughput_body_def intro: same_held_refl)
  next
    case None
    show ?thesis
    proof (cases "enqueue_many (tr_stmt T 0) (task_name q)
        (replicate (nat (job_count q)) [(''enqueued_at'', JFloat (tr_time T 0))]) None (b_db (tr_settled T (h_bench h)))")
      case (Inl x)
      with run None ok show ?thesis by (auto simp: throughput_body_def Let_def intro: same_held_refl)
    next
      case (Inr w)
      obtain ids d where w: "w = (ids, d)" by (cases w)
      show ?thesis
        by (rule tidyD [OF tidy ok]) (use run None Inr w in \<open>simp add: throughput_body_def Let_def\<close>)
    qed
  qed
qed

lemma tidy_latency_body: "tidy (latency_body X samples T)"
proof (cases "tr_raises T")
  case (Some x)
  then have "latency_body X samples T = act_of (Inl x)" by (simp add: latency_body_def act_of_def fun_eq_iff)
  then show ?thesis by (simp add: tidy_of)
next
  case None
  let ?k = "\<lambda>turns h. let b = tr_final T (h_bench h) in Some (Inr (b_samples b), h\<lparr>h_bench := b\<rparr>)"
  have "tidy (?k turns)" for turns :: "poll list" by (rule tidy_tables) (auto simp: Let_def)
  then have "tidy (act_bind (drain_act X T 30) ?k)" by (intro tidy_rules tidy_drain)
  from tidy_from [OF this, where f = "\<lambda>h. h\<lparr>h_bench := fold (latency_sample T) [0..<nat samples] (tr_settled T (h_bench h))\<rparr>"]
  show ?thesis unfolding latency_body_def by (simp add: None)
qed

lemma tidy_latency [tidy_rules]:
  assumes "\<And>p. lb_popen X p = None"
  shows "tidy (measure_latency X samples w poll u)"
  unfolding measure_latency_def by (intro tidy_rules tidy_with_workers assms tidy_latency_body)

lemma tidy_once:
  assumes "\<And>p. lb_popen X p = None"
  shows "tidy (measure_throughput_once X q)"
  unfolding measure_throughput_once_def
  by (rule tidy_bind [OF tidy_reset], rule tidy_with_workers [OF assms tidy_throughput_body], rule tidy_tables)
    (auto simp: Let_def)

lemma tidy_throughput [tidy_rules]:
  assumes "\<And>p. lb_popen X p = None"
  shows "tidy (measure_throughput X q)"
proof (rule tidyI)
  fix h r h' assume ok: "h_ok h" and run: "measure_throughput X q h = Some (r, h')"
  have "tidy (act_bind (act_repeat (nat (h_repeat h)) (measure_throughput_once X q))
      (\<lambda>rs. act_of (bind_result (median (map fst rs)) (\<lambda>rate. Inr (rate, concat (map snd rs))))))"
    by (intro tidy_rules tidy_once assms)
  from tidyD [OF this ok] run show "same_held h h'" by (simp add: measure_throughput_def)
qed

subsubsection \<open>Connections\<close>

lemma tidy_connection:
  assumes "\<And>h. m h = (case f (h_net h) of (r, n) \<Rightarrow> Some (r, h\<lparr>h_net := n\<rparr>))"
    and "\<And>n r n'. f n = (r, n') \<Longrightarrow> (case r of
      Inl x \<Rightarrow> n' = n
    | Inr c \<Rightarrow> c = next_conn n \<and> open_conns n' = c # open_conns n \<and> next_conn n' = next_conn n + 1)"
    and "\<And>c. tidy (k c)"
  shows "tidy (act_bind m (\<lambda>c. act_finally (k c) (close_connection c)))"
proof (rule tidyI)
  fix h r h' assume ok: "h_ok h" and run: "act_bind m (\<lambda>c. act_finally (k c) (close_connection c)) h = Some (r, h')"
  obtain y n where f: "f (h_net h) = (y, n)" by fastforce
  show "same_held h h'"
  proof (cases y)
    case (Inl x)
    with run f assms(2) [OF f] ok show ?thesis by (auto simp: act_bind_def assms(1) intro: same_held_refl)
  next
    case (Inr c)
    with assms(2) [OF f] have c: "c = next_conn (h_net h)" "open_conns n = c # open_conns (h_net h)"
      "next_conn n = next_conn (h_net h) + 1" by simp_all
    let ?h = "h\<lparr>h_net := n\<rparr>"
    have "m h = Some (Inr c, ?h)" using f Inr by (simp add: assms(1))
    with run have "act_finally (k c) (close_connection c) ?h = Some (r, h')" by (simp add: act_bind_Inr)
    then obtain h1 where h1: "k c ?h = Some (r, h1)" "h' = close_connection c h1"
      by (auto simp: act_finally_def)
    have "h_ok ?h" using ok by (auto simp: h_ok_def c)
    from tidyD [OF assms(3) this h1(1)] have "same_held ?h h1" .
    moreover have "filter (\<lambda>c'. c' \<noteq> c) (open_conns (h_net h)) = open_conns (h_net h)"
      using ok by (auto simp: filter_id_conv h_ok_def c)
    ultimately show ?thesis
      by (auto simp: same_held_def h_ok_def h1(2) close_connection_def close_conn_def c)
  qed
qed

lemma psycopg_connect_opens:
  "psycopg_connect x dsn kw n = (r, n') \<Longrightarrow> (case r of
      Inl x \<Rightarrow> n' = n
    | Inr c \<Rightarrow> c = next_conn n \<and> open_conns n' = c # open_conns n \<and> next_conn n' = next_conn n + 1)"
  by (auto simp: psycopg_connect_def split: option.splits)

lemma get_connection_opens:
  "get_connection env parse x dsn n = (r, n') \<Longrightarrow> (case r of
      Inl x \<Rightarrow> n' = n
    | Inr c \<Rightarrow> c = next_conn n \<and> open_conns n' = c # open_conns n \<and> next_conn n' = next_conn n + 1)"
  by (auto simp: get_connection_def Let_def dest: psycopg_connect_opens split: sum.splits)

lemma tidy_open_dsn [tidy_rules]:
  "(\<And>c. tidy (k c)) \<Longrightarrow> tidy (act_bind (open_dsn X dsn) (\<lambda>c. act_finally (k c) (close_connection c)))"
  by (rule tidy_connection [where f = "\<lambda>n. psycopg_connect (lb_connect X (next_conn n)) dsn [] n"])
    (auto simp: open_dsn_def dest: psycopg_connect_opens)

lemma tidy_open [tidy_rules]:
  "(\<And>c. tidy (k c)) \<Longrightarrow> tidy (act_bind (open_connection X) (\<lambda>c. act_finally (k c) (close_connection c)))"
  by (rule tidy_connection [where
        f = "\<lambda>n. get_connection (lb_environ X) (lb_parse X) (lb_connect X (next_conn n)) None n"])
    (auto simp: open_connection_def dest: get_connection_opens)

lemma tidy_with_dsn [tidy_rules]:
  "(\<And>p. lb_popen X p = None) \<Longrightarrow> tidy (measure_with_dsn X dsn q)"
  unfolding measure_with_dsn_def by (intro tidy_open_dsn tidy_throughput)

lemma tidy_raw [tidy_rules]: "tidy (raw_ceiling X n)"
  by (rule tidy_tables) (auto simp: raw_ceiling_def Let_def split: prod.splits)

text \<open>The two connections of the single process: the second attempt must not fail, see below.\<close>

lemma tidy_two_connections:
  assumes "\<And>c. lb_connect X c = None" "\<And>c c'. tidy (k c c')"
  shows "tidy (act_bind (open_connection X) (\<lambda>c. act_bind (open_connection X) (\<lambda>c'.
    act_finally (k c c') (close_connection c \<circ> close_connection c'))))"
proof -
  let ?inner = "\<lambda>c. act_bind (open_connection X) (\<lambda>c'. act_finally (k c c') (close_connection c'))"
  have opens: "(\<exists>x. \<forall>h. open_connection X h = Some (Inl x, h)) \<or> (\<forall>h. \<exists>c n. open_connection X h = Some (Inr c, h\<lparr>h_net := n\<rparr>))"
    using assms(1)
    by (cases "connection_kwargs (lb_parse X) (get_dsn (lb_environ X))")
      (auto simp: open_connection_def get_connection_def psycopg_connect_def str_or_def Let_def)
  then show ?thesis
  proof
    assume "\<exists>x. \<forall>h. open_connection X h = Some (Inl x, h)"
    then show ?thesis by (intro tidyI) (auto simp: act_bind_def intro: same_held_refl)
  next
    assume all: "\<forall>h. \<exists>c n. open_connection X h = Some (Inr c, h\<lparr>h_net := n\<rparr>)"
    have "act_bind (open_connection X) (\<lambda>c'. act_finally (k c c') (close_connection c \<circ> close_connection c')) h =
        act_finally (?inner c) (close_connection c) h" for c h
    proof -
      from all obtain c' n where "open_connection X h = Some (Inr c', h\<lparr>h_net := n\<rparr>)" by blast
      then show ?thesis by (cases "k c c' (h\<lparr>h_net := n\<rparr>)") (auto simp: act_bind_Inr act_finally_def)
    qed
    moreover have "tidy (act_bind (open_connection X) (\<lambda>c. act_finally (?inner c) (close_connection c)))"
      by (intro tidy_open assms(2))
    ultimately show ?thesis by presburger
  qed
qed

lemma tidy_library [tidy_rules]:
  assumes "\<And>c. lb_connect X c = None"
  shows "tidy (single_process_library X n batch_size)"
proof -
  let ?L = "\<lambda>h. lb_loop X (h_turn h)"
  let ?d = "\<lambda>h. library_setup n (lo_insert (?L h)) (lo_time (?L h)) (h_bench h)"
  have cycle: "tidy (\<lambda>h. case library_cycle s reg E n batch_size w a e d of None \<Rightarrow> None
      | Some (r, p) \<Rightarrow> Some (r, h\<lparr>h_bench := \<lparr> b_db = pdb p, b_samples = g (world p) \<rparr>\<rparr>))"
    for s reg E w a e d g
    by (rule tidy_tables) (auto split: option.splits)
  show ?thesis
  proof (rule tidyI)
    fix h r h' assume ok: "h_ok h" and run: "single_process_library X n batch_size h = Some (r, h')"
    let ?h = "h\<lparr>h_bench := \<lparr> b_db = ?d h, b_samples = [] \<rparr>, h_turn := h_turn h + 1\<rparr>"
    have "same_held h ?h" by (rule same_held_frame [OF ok]) simp_all
    moreover have "same_held ?h h'"
      by (rule tidyD [OF tidy_two_connections [OF assms cycle] same_held_ok [OF calculation]])
        (use run in \<open>simp add: single_process_library_def Let_def\<close>)
    ultimately show "same_held h h'" by (rule same_held_trans)
  qed
qed

end
