(* ===== verification/Suites.thy ===== *)
theory Suites
  imports Bench_Trials Slots
begin

section \<open>The suites and the command\<close>

text \<open>
  The rest of \<^verbatim>\<open>scripts/benchmark.py\<close>: the suites, line by line of what they print, and \<^verbatim>\<open>main\<close> with
  its options.
\<close>

subsection \<open>Format specifications\<close>

text \<open>\<^verbatim>\<open>.df\<close>, \<^verbatim>\<open>+.df\<close>, and \<^verbatim>\<open>f"{workers}w x {slots}s"\<close>.\<close>

definition zero_pad :: "nat \<Rightarrow> string \<Rightarrow> string" where
  "zero_pad w s = replicate (w - length s) CHR ''0'' @ s"

definition fixed_str :: "nat \<Rightarrow> real \<Rightarrow> string" where
  "fixed_str d x =
     (let n = nat (round_half_even (\<bar>x\<bar> * 10 ^ d))
      in (if x < 0 then ''-'' else '''') @
         (if d = 0 then nat_str n
          else nat_str (n div 10 ^ d) @ ''.'' @ zero_pad d (nat_str (n mod 10 ^ d))))"

definition plus_fixed :: "nat \<Rightarrow> real \<Rightarrow> string" where
  "plus_fixed d x = (if x < 0 then fixed_str d x else ''+'' @ fixed_str d x)"

definition split_str :: "int \<Rightarrow> int \<Rightarrow> string" where
  "split_str w slots = int_str w @ ''w x '' @ int_str slots @ ''s''"

lemma fixed_str_examples:
  "fixed_str 0 1234.5 = ''1234''" "fixed_str 0 1235.5 = ''1236''" "fixed_str 1 2.46 = ''2.5''"
  "fixed_str 2 1 = ''1.00''" "plus_fixed 0 (- 12.4) = ''-12''" "plus_fixed 0 0 = ''+0''"
  by (simp_all add: fixed_str_def plus_fixed_def round_half_even_def Let_def nat_str.simps zero_pad_def) code_simp+

subsection \<open>Suites\<close>

definition NAIVE :: "tp_options \<Rightarrow> tp_options" where
  "NAIVE q = q\<lparr>tp_concurrency := 1, tp_batch_size := 1, tp_use_notify := False\<rparr>"

definition TUNED :: "tp_options \<Rightarrow> tp_options" where
  "TUNED q = q\<lparr>tp_concurrency := 8, tp_batch_size := 25, tp_use_notify := True\<rparr>"

text \<open>\<^verbatim>\<open>run_scaling_suite\<close>: the loop's variable is \<^verbatim>\<open>single\<close>.\<close>

definition scaling_line :: "int \<Rightarrow> real \<Rightarrow> real \<Rightarrow> string" where
  "scaling_line w rate speedup =
     ''  '' @ align_right 7 (int_str w) @ ''   '' @ align_right 8 (fixed_str 0 rate) @ ''   '' @
     align_right 10 (fixed_str 2 speedup) @ ''x   '' @
     align_right 9 (fixed_str 0 (speedup / of_int w * 100)) @ ''%''"

definition scaling_row :: "lab \<Rightarrow> int \<Rightarrow> real \<Rightarrow> int \<Rightarrow> real option \<Rightarrow> real option act" where
  "scaling_row X n poll_interval w single =
     act_bind (measure_throughput X (tp_defaults n w poll_interval)) (\<lambda>(rate, _).
       let single = (case single of None \<Rightarrow> rate | Some s \<Rightarrow> s)
       in act_bind (act_of (py_div rate single)) (\<lambda>speedup.
            act_bind (print_lines [scaling_line w rate speedup]) (\<lambda>_. act_ret (Some single))))"

definition run_scaling_suite :: "lab \<Rightarrow> int \<Rightarrow> real \<Rightarrow> unit act" where
  "run_scaling_suite X n poll_interval =
     act_bind (print_lines ['''', ''  workers   jobs/sec   vs 1 worker   efficiency'']) (\<lambda>_.
       act_bind (act_fold (scaling_row X n poll_interval) [1, 2, 4, 8] None) (\<lambda>_. act_ret ()))"

definition concurrency_row :: "lab \<Rightarrow> int \<Rightarrow> int \<Rightarrow> real \<Rightarrow> int \<Rightarrow> real option \<Rightarrow> real option act" where
  "concurrency_row X n w poll_interval slots single =
     act_bind (measure_throughput X ((tp_defaults n w poll_interval)\<lparr>tp_concurrency := slots\<rparr>)) (\<lambda>(rate, _).
       let single = (case single of None \<Rightarrow> rate | Some s \<Rightarrow> s)
       in act_bind (act_of (py_div rate single)) (\<lambda>ratio.
            act_bind (print_lines [''  '' @ align_right 12 (int_str slots) @ ''   '' @
                align_right 8 (fixed_str 0 rate) @ ''   '' @ align_right 8 (fixed_str 2 ratio) @ ''x''])
              (\<lambda>_. act_ret (Some single))))"

definition run_concurrency_suite :: "lab \<Rightarrow> int \<Rightarrow> int \<Rightarrow> real \<Rightarrow> unit act" where
  "run_concurrency_suite X n w poll_interval =
     act_bind (print_lines ['''', ''  slots/worker   jobs/sec   vs 1 slot   ('' @ int_str w @ '' worker processes)''])
       (\<lambda>_. act_bind (act_fold (concurrency_row X n w poll_interval) [1, 2, 4, 8] None) (\<lambda>_. act_ret ()))"

text \<open>\<^verbatim>\<open>run_curve_suite\<close>, with its local \<^verbatim>\<open>rate_for\<close>.\<close>

definition rate_for :: "lab \<Rightarrow> int \<Rightarrow> real \<Rightarrow> int \<Rightarrow> int \<Rightarrow> real act" where
  "rate_for X n poll_interval w slots =
     act_bind (measure_throughput X
       ((tp_defaults (jobs_for n (w * slots)) w poll_interval)\<lparr>tp_concurrency := slots, tp_batch_size := 25\<rparr>))
       (\<lambda>(rate, _). act_ret rate)"

definition curve_row :: "lab \<Rightarrow> int \<Rightarrow> real \<Rightarrow> int \<times> int \<Rightarrow> real option \<Rightarrow> real option act" where
  "curve_row X n poll_interval = (\<lambda>(w, slots) previous.
     act_bind (rate_for X n poll_interval w slots) (\<lambda>rate.
       act_bind (case previous of
                   None \<Rightarrow> act_ret ''-''
                 | Some p \<Rightarrow> act_of (bind_result (py_div rate p) (\<lambda>m. Inr (fixed_str 2 m @ ''x''))))
         (\<lambda>marginal.
           act_bind (print_lines [''  '' @ align_right 10 (int_str (w * slots)) @ '' '' @
               align_right 10 (split_str w slots) @ '' '' @ align_right 10 (fixed_str 0 rate) @ '' '' @
               align_right 10 marginal])
             (\<lambda>_. act_ret (Some rate)))))"

definition split_row :: "lab \<Rightarrow> int \<Rightarrow> real \<Rightarrow> int \<times> int \<Rightarrow> unit \<Rightarrow> unit act" where
  "split_row X n poll_interval = (\<lambda>(w, slots) _.
     act_bind (rate_for X n poll_interval w slots) (\<lambda>rate.
       print_lines [''  '' @ align_right 10 (int_str 8) @ '' '' @ align_right 10 (split_str w slots) @ '' '' @
         align_right 10 (fixed_str 0 rate)]))"

definition run_curve_suite :: "lab \<Rightarrow> int \<Rightarrow> real \<Rightarrow> unit act" where
  "run_curve_suite X n poll_interval =
     act_bind (print_lines ['''', ''  '' @ align_right 10 ''in flight'' @ '' '' @ align_right 10 ''split'' @ '' '' @
         align_right 10 ''jobs/sec'' @ '' '' @ align_right 10 ''marginal'']) (\<lambda>_.
     act_bind (act_fold (curve_row X n poll_interval)
         [(1, 1), (1, 2), (1, 4), (1, 8), (2, 8), (4, 8), (8, 8)] None) (\<lambda>_.
     act_bind (print_lines ['''', ''  '' @ align_right 10 ''in flight'' @ '' '' @ align_right 10 ''split'' @ '' '' @
         align_right 10 ''jobs/sec'']) (\<lambda>_.
     act_fold (split_row X n poll_interval) [(8, 1), (4, 2), (2, 4), (1, 8)] ())))"

text \<open>\<^verbatim>\<open>run_connections_suite\<close>.\<close>

definition peak_open :: "(int \<times> int) list \<Rightarrow> int result" where
  "peak_open samples =
     (if samples = [] then Inl (ValueError ''max() iterable argument is empty'')
      else Inr (Max (set (map fst samples))))"

definition avg_busy :: "(int \<times> int) list \<Rightarrow> real result" where
  "avg_busy samples = py_div (of_int (sum_list (map snd samples))) (of_nat (length samples))"

definition connections_row :: "lab \<Rightarrow> real \<Rightarrow> string \<times> int \<times> int \<times> int \<Rightarrow> unit \<Rightarrow> unit act" where
  "connections_row X poll_interval = (\<lambda>(tsk, w, slots, n) _.
     act_bind (measure_throughput X ((tp_defaults n w poll_interval)\<lparr>tp_concurrency := slots, tp_batch_size := 25,
         task_name := tsk, tp_connections := True\<rparr>)) (\<lambda>(rate, samples).
     act_bind (act_of (peak_open samples)) (\<lambda>peak.
     act_bind (act_of (avg_busy samples)) (\<lambda>busy.
       print_lines [''  '' @ align_right 13 tsk @ '' '' @ align_right 9 (split_str w slots) @ '' '' @
         align_right 9 (fixed_str 0 rate) @ '' '' @ align_right 10 (int_str peak) @ '' '' @
         align_right 9 (fixed_str 1 busy)]))))"

definition run_connections_suite :: "lab \<Rightarrow> int \<Rightarrow> real \<Rightarrow> unit act" where
  "run_connections_suite X n poll_interval =
     act_bind (print_lines ['''', ''  '' @ align_right 13 ''task'' @ '' '' @ align_right 9 ''split'' @ '' '' @
         align_right 9 ''jobs/sec'' @ '' '' @ align_right 10 ''peak open'' @ '' '' @ align_right 9 ''avg busy'']) (\<lambda>_.
     act_fold (connections_row X poll_interval)
       [(''io_job'', 1, 8, n), (''io_job'', 1, 32, n * 2), (''io_job_varied'', 1, 32, n * 2),
        (''io_job'', 4, 32, n * 4), (''bench_job'', 1, 8, jobs_for n 8), (''bench_job'', 4, 8, jobs_for n 32)] ())"

text \<open>\<^verbatim>\<open>run_comparison_suite\<close>.\<close>

definition comparison_row :: "lab \<Rightarrow> int \<Rightarrow> real \<Rightarrow> int \<Rightarrow> unit \<Rightarrow> unit act" where
  "comparison_row X n poll_interval w _ =
     act_bind (measure_throughput X (NAIVE (tp_defaults (jobs_for n w) w poll_interval))) (\<lambda>(naive, _).
     act_bind (measure_throughput X (TUNED (tp_defaults (jobs_for n (w * 8)) w poll_interval))) (\<lambda>(tuned, _).
     act_bind (act_of (py_div tuned naive)) (\<lambda>speedup.
       print_lines [''  '' @ int_str w @ '' worker process(es)'' @ align_right 11 (fixed_str 0 naive) @
         align_right 11 (fixed_str 0 tuned) @ ''   '' @ align_right 6 (fixed_str 1 speedup) @ ''x''])))"

definition run_comparison_suite :: "lab \<Rightarrow> int \<Rightarrow> real \<Rightarrow> unit act" where
  "run_comparison_suite X n poll_interval =
     act_bind (print_lines ['''', ''  throughput (jobs/sec)      naive      tuned    speedup'']) (\<lambda>_.
     act_bind (act_fold (comparison_row X n poll_interval) [1, 2, 4, 8] ()) (\<lambda>_.
     act_bind (measure_latency X 10 4 poll_interval False) (\<lambda>naive_latency.
     act_bind (measure_latency X 10 4 poll_interval True) (\<lambda>tuned_latency.
     act_bind (act_of (percentile naive_latency (1 / 2))) (\<lambda>naive_p50.
     act_bind (act_of (percentile tuned_latency (1 / 2))) (\<lambda>tuned_p50.
       print_lines ['''', ''  enqueue -> start (ms)      naive      tuned    speedup'',
         ''  p50 latency        '' @ align_right 11 (fixed_str 1 naive_p50) @ align_right 11 (fixed_str 1 tuned_p50) @
         ''   '' @ align_right 6 (fixed_str 1 (naive_p50 / max tuned_p50 (1 / 1000))) @ ''x'']))))))"

text \<open>\<^verbatim>\<open>run_commit_delay_suite\<close>: the loop's variable is \<^verbatim>\<open>baseline\<close>.\<close>

definition none_divisor :: exn where
  "none_divisor = TypeError (''unsupported operand type(s) for /: '' @ [CHR 0x27] @ ''float'' @ [CHR 0x27] @
     '' and '' @ [CHR 0x27] @ ''NoneType'' @ [CHR 0x27])"

definition commit_delay_row :: "lab \<Rightarrow> int \<Rightarrow> int \<Rightarrow> real \<Rightarrow> int \<Rightarrow> real option \<Rightarrow> real option act" where
  "commit_delay_row X n w poll_interval delay_us baseline =
     act_bind (if delay_us = 0
               then act_bind (measure_throughput X (tp_defaults n w poll_interval)) (\<lambda>(rate, _). act_ret (rate, Some rate))
               else act_bind (measure_with_dsn X
                   (dsn_with (get_dsn (lb_environ X)) [(''commit_delay'', int_str delay_us), (''commit_siblings'', ''2'')])
                   (tp_defaults n w poll_interval)) (\<lambda>(rate, _). act_ret (rate, baseline)))
       (\<lambda>(rate, baseline).
          act_bind (act_of (case baseline of None \<Rightarrow> Inl none_divisor | Some b \<Rightarrow> py_div rate b)) (\<lambda>ratio.
            act_bind (print_lines [''  '' @ align_right 10 (int_str delay_us) @ ''us   '' @
                align_right 8 (fixed_str 0 rate) @ ''   '' @ align_right 6 (plus_fixed 0 ((ratio - 1) * 100)) @ ''%''])
              (\<lambda>_. act_ret baseline)))"

definition run_commit_delay_suite :: "lab \<Rightarrow> int \<Rightarrow> int \<Rightarrow> real \<Rightarrow> unit act" where
  "run_commit_delay_suite X n w poll_interval =
     act_bind (print_lines ['''', ''  commit_delay    jobs/sec   change'']) (\<lambda>_.
       act_bind (act_fold (commit_delay_row X n w poll_interval) [0, 500, 1000, 2000] None) (\<lambda>_. act_ret ()))"

definition run_baseline_suite :: "lab \<Rightarrow> int \<Rightarrow> unit act" where
  "run_baseline_suite X n =
     act_bind (raw_ceiling X n) (\<lambda>raw.
     act_bind (single_process_library X n 1) (\<lambda>unbatched.
     act_bind (single_process_library X n 10) (\<lambda>batched.
     act_bind (print_lines ['''', ''  single process, same workload'',
         ''  raw Postgres, one at a time   '' @ align_right 8 (fixed_str 0 raw) @ '' jobs/sec'']) (\<lambda>_.
     act_bind (act_of (py_div unbatched raw)) (\<lambda>ratio1.
     act_bind (print_lines [''  durable-queue, batch of 1     '' @ align_right 8 (fixed_str 0 unbatched) @
         '' jobs/sec   ('' @ plus_fixed 0 ((ratio1 - 1) * 100) @ ''% vs raw)'']) (\<lambda>_.
     act_bind (act_of (py_div batched raw)) (\<lambda>ratio2.
       print_lines [''  durable-queue, batch of 10    '' @ align_right 8 (fixed_str 0 batched) @
         '' jobs/sec   ('' @ plus_fixed 0 ((ratio2 - 1) * 100) @ ''% vs raw)''])))))))"

definition durability_row :: "lab \<Rightarrow> int \<Rightarrow> real \<Rightarrow> int \<times> int \<Rightarrow> unit \<Rightarrow> unit act" where
  "durability_row X n poll_interval = (\<lambda>(w, slots) _.
     let q = (tp_defaults (jobs_for n (w * slots)) w poll_interval)\<lparr>tp_concurrency := slots, tp_batch_size := 25\<rparr>;
         relaxed = relaxed_dsn (get_dsn (lb_environ X))
     in act_bind (measure_throughput X q) (\<lambda>(durable, _).
        act_bind (measure_throughput X (q\<lparr>tp_dsn := Some relaxed\<rparr>)) (\<lambda>(worker_relaxed, _).
        act_bind (measure_with_dsn X relaxed q) (\<lambda>(nothing_durable, _).
        act_bind (act_of (py_div durable worker_relaxed)) (\<lambda>ratio.
          print_lines [''  '' @ align_right 10 (int_str (w * slots)) @ '' '' @ align_right 9 (split_str w slots) @ '' '' @
            align_right 9 (fixed_str 0 durable) @ '' '' @ align_right 16 (fixed_str 0 worker_relaxed) @ '' '' @
            align_right 16 (fixed_str 0 nothing_durable) @ '' '' @ align_right 5 (fixed_str 0 ((1 - ratio) * 100)) @ ''%''])))))"

definition run_durability_suite :: "lab \<Rightarrow> int \<Rightarrow> real \<Rightarrow> unit act" where
  "run_durability_suite X n poll_interval =
     act_bind (print_lines ['''', ''  '' @ align_right 10 ''in flight'' @ '' '' @ align_right 9 ''split'' @ '' '' @
         align_right 9 ''durable'' @ '' '' @ align_right 16 ''workers relaxed'' @ '' '' @
         align_right 16 ''nothing durable'' @ '' '' @ align_right 6 ''cost'']) (\<lambda>_.
       act_fold (durability_row X n poll_interval) [(1, 4), (2, 8), (4, 8), (8, 8)] ())"

subsection \<open>Options\<close>

text \<open>
  \<^verbatim>\<open>argparse\<close> as far as \<^verbatim>\<open>main\<close> uses it: options by their full names, each with its value
  in the next word. It exits on anything else. What \<^verbatim>\<open>int\<close> and \<^verbatim>\<open>float\<close> read is a parameter.
\<close>

record bench_args =
  a_worker :: bool
  a_no_notify :: bool
  a_concurrency :: int
  a_batch_size :: int
  a_jobs :: int
  a_workers :: int
  a_latency_samples :: int
  a_poll_interval :: real
  a_repeat :: int
  a_suite :: string

definition default_args :: bench_args where
  "default_args =
     \<lparr> a_worker = False, a_no_notify = False, a_concurrency = 1, a_batch_size = 10, a_jobs = 1000,
       a_workers = 4, a_latency_samples = 15, a_poll_interval = 1, a_repeat = 1, a_suite = ''main'' \<rparr>"

definition suite_choices :: "string list" where
  "suite_choices = [''main'', ''baseline'', ''scaling'', ''concurrency'', ''curve'', ''durability'',
     ''commitdelay'', ''comparison'', ''connections'', ''all'']"

definition read_value :: "('a \<Rightarrow> bench_args \<Rightarrow> bench_args) \<Rightarrow> 'a option \<Rightarrow> bench_args \<Rightarrow> bench_args result" where
  "read_value f v a = (case v of None \<Rightarrow> Inl SystemExit | Some x \<Rightarrow> Inr (f x a))"

definition set_option :: "(string \<Rightarrow> int option) \<Rightarrow> (string \<Rightarrow> real option) \<Rightarrow> string \<Rightarrow> string \<Rightarrow> bench_args
    \<Rightarrow> bench_args result" where
  "set_option int_of float_of name v =
     (if name = ''--concurrency'' then read_value (\<lambda>n. a_concurrency_update (\<lambda>_. n)) (int_of v)
      else if name = ''--batch-size'' then read_value (\<lambda>n. a_batch_size_update (\<lambda>_. n)) (int_of v)
      else if name = ''--jobs'' then read_value (\<lambda>n. a_jobs_update (\<lambda>_. n)) (int_of v)
      else if name = ''--workers'' then read_value (\<lambda>n. a_workers_update (\<lambda>_. n)) (int_of v)
      else if name = ''--latency-samples'' then read_value (\<lambda>n. a_latency_samples_update (\<lambda>_. n)) (int_of v)
      else if name = ''--poll-interval'' then read_value (\<lambda>x. a_poll_interval_update (\<lambda>_. x)) (float_of v)
      else if name = ''--repeat'' then read_value (\<lambda>n. a_repeat_update (\<lambda>_. n)) (int_of v)
      else if name = ''--suite'' then
        read_value (\<lambda>s. a_suite_update (\<lambda>_. s)) (if v \<in> set suite_choices then Some v else None)
      else (\<lambda>a. Inl SystemExit))"

fun parse_args :: "(string \<Rightarrow> int option) \<Rightarrow> (string \<Rightarrow> real option) \<Rightarrow> string list \<Rightarrow> bench_args
    \<Rightarrow> bench_args result" where
  "parse_args int_of float_of [] a = Inr a"
| "parse_args int_of float_of (x # xs) a =
     (if x = ''--worker'' then parse_args int_of float_of xs (a\<lparr>a_worker := True\<rparr>)
      else if x = ''--no-notify'' then parse_args int_of float_of xs (a\<lparr>a_no_notify := True\<rparr>)
      else case xs of
             [] \<Rightarrow> Inl SystemExit
           | v # ys \<Rightarrow>
               (case set_option int_of float_of x v a of
                  Inl e \<Rightarrow> Inl e
                | Inr a' \<Rightarrow> parse_args int_of float_of ys a'))"

subsection \<open>The command\<close>

text \<open>
  The worker branch of \<^verbatim>\<open>main\<close>: the configuration \<^verbatim>\<open>run_worker\<close> is called with, its other
  parameters at their defaults, and the DSN that its connections are opened with.
\<close>

definition bench_worker :: "string \<Rightarrow> environ \<Rightarrow> bench_args \<Rightarrow> config \<times> string" where
  "bench_worker worker_id env a =
     (make_config worker_id (a_poll_interval a) DEFAULT_LEASE_SECONDS DEFAULT_MAX_EXECUTION_SECONDS
        (\<not> a_no_notify a) None (a_batch_size a) (nat (a_concurrency a)) False 30, get_dsn env)"

definition selected :: "string \<Rightarrow> string \<Rightarrow> string \<Rightarrow> unit act \<Rightarrow> unit act" where
  "selected suite name announcement m =
     (if suite \<in> {name, ''all''} then act_bind (print_lines [announcement]) (\<lambda>_. m) else act_ret ())"

definition run_suites :: "lab \<Rightarrow> bench_args \<Rightarrow> unit act" where
  "run_suites X a =
     (let run = selected (a_suite a); n = a_jobs a; w = a_workers a; s = a_poll_interval a
      in act_bind (run ''baseline'' ''baseline: raw Postgres vs durable-queue, single process...''
             (run_baseline_suite X (max (n div 2) 100))) (\<lambda>_.
         act_bind (run ''scaling'' ''scaling: 1/2/4/8 workers...'' (run_scaling_suite X n s)) (\<lambda>_.
         act_bind (run ''comparison'' ''comparison: naive vs tuned worker configuration...''
             (run_comparison_suite X n s)) (\<lambda>_.
         act_bind (run ''curve'' ''curve: throughput vs total jobs in flight...'' (run_curve_suite X n s)) (\<lambda>_.
         act_bind (run ''connections'' ''connections: peak connections held, IO-bound vs transactional...''
             (run_connections_suite X n s)) (\<lambda>_.
         act_bind (run ''concurrency'' ''concurrency: slots per worker process...''
             (run_concurrency_suite X n w s)) (\<lambda>_.
         act_bind (run ''durability'' ''durability: synchronous_commit on vs off...''
             (run_durability_suite X n s)) (\<lambda>_.
           run ''commitdelay'' ''commit_delay: group-commit tuning, durability unchanged...''
             (run_commit_delay_suite X n w s)))))))))"

definition report_line :: "real list \<Rightarrow> real list \<Rightarrow> string \<times> real \<Rightarrow> unit \<Rightarrow> unit act" where
  "report_line with_notify without_notify = (\<lambda>(label, pct) _.
     act_bind (act_of (percentile with_notify pct)) (\<lambda>notify_value.
     act_bind (act_of (percentile without_notify pct)) (\<lambda>poll_value.
       print_lines [''  '' @ label @ ''              '' @ align_right 12 (fixed_str 1 notify_value) @ '' ms '' @
         align_right 15 (fixed_str 1 poll_value) @ '' ms''])))"

definition main_measurements :: "lab \<Rightarrow> bench_args \<Rightarrow> (real \<times> real list \<times> real list) act" where
  "main_measurements X a =
     act_bind (print_lines [''throughput: '' @ int_str (a_jobs a) @ '' jobs, '' @ int_str (a_workers a) @
         '' workers...'']) (\<lambda>_.
     act_bind (measure_throughput X (tp_defaults (a_jobs a) (a_workers a) (a_poll_interval a))) (\<lambda>(rate, _).
     act_bind (print_lines [''latency: '' @ int_str (a_latency_samples a) @ '' samples, poll interval '' @
         lb_float X (a_poll_interval a) @ ''s...'']) (\<lambda>_.
     act_bind (measure_latency X (a_latency_samples a) (a_workers a) (a_poll_interval a) True) (\<lambda>with_notify.
     act_bind (measure_latency X (a_latency_samples a) (a_workers a) (a_poll_interval a) False) (\<lambda>without_notify.
       act_ret (rate, with_notify, without_notify))))))"

definition main_report :: "bench_args \<Rightarrow> real \<times> real list \<times> real list \<Rightarrow> unit act" where
  "main_report a = (\<lambda>(rate, with_notify, without_notify).
     act_bind (print_lines ['''', ''  throughput            '' @ align_right 10 (fixed_str 0 rate) @
         '' jobs/sec  ('' @ int_str (a_workers a) @ '' workers)'', '''',
         ''  enqueue -> start       LISTEN/NOTIFY      polling only'']) (\<lambda>_.
     act_bind (act_fold (report_line with_notify without_notify) [(''p50'', 1 / 2), (''p99'', 99 / 100)] ()) (\<lambda>_.
     act_bind (act_of (percentile without_notify (1 / 2))) (\<lambda>slow.
     act_bind (act_of (percentile with_notify (1 / 2))) (\<lambda>fast.
       print_lines ['''', ''  NOTIFY is '' @ fixed_str 0 (slow / max fast (1 / 1000)) @
         ''x faster to start an idle-queue job''])))))"

text \<open>The rest of \<^verbatim>\<open>main\<close>, for a process that is not a worker.\<close>

definition bench_main :: "lab \<Rightarrow> bench_args \<Rightarrow> unit act" where
  "bench_main X a h =
     (if a_suite a \<noteq> ''main''
      then act_bind (open_connection X) (\<lambda>c. act_finally (run_suites X a) (close_connection c))
      else act_bind (act_bind (open_connection X) (\<lambda>c. act_finally (main_measurements X a) (close_connection c)))
             (main_report a))
       (h\<lparr>h_repeat := a_repeat a\<rparr>)"

subsection \<open>The worker a measurement starts\<close>

definition trial1 :: trial where
  "trial1 = \<lparr> tr_settled = id, tr_raises = Some SystemExit, tr_stmt = (\<lambda>k. stmt_at 1), tr_time = (\<lambda>k. 0),
     tr_between = (\<lambda>k. id), tr_started_at = 1, tr_clock = 0, tr_polls = (\<lambda>b. polls1), tr_final = id,
     tr_database = ''d'', tr_pid = 1 \<rparr>"

definition lab1 :: lab where
  "lab1 = \<lparr> lb_environ = (\<lambda>_. None), lb_parse = (\<lambda>_. Inr []), lb_connect = (\<lambda>c. None), lb_popen = (\<lambda>p. None),
     lb_executable = ''python'', lb_file = ''benchmark.py'', lb_float = (\<lambda>x. ''1.0''), lb_str_of = (\<lambda>x. []),
     lb_reg = reg_bench, lb_trial = (\<lambda>n pids argv env. trial1),
     lb_loop = (\<lambda>n. \<lparr> lo_insert = stmt_at 1, lo_claim = (\<lambda>k. stmt_at 5), lo_finish = (\<lambda>k. stmt_at 5),
       lo_lib = lib_env1, lo_time = 0, lo_worker = ''w'', lo_started = 1, lo_ended = 3, lo_samples = (\<lambda>ws. []) \<rparr>) \<rparr>"

text \<open>
  C40: a worker process runs with the settings of its measurement. The command line that
  \<^verbatim>\<open>_spawn_workers\<close> builds is parsed back by \<^verbatim>\<open>main\<close> into exactly the poll interval, slots,
  batch size and use of notifications it was built from, provided \<^verbatim>\<open>int\<close> and \<^verbatim>\<open>float\<close> read
  what \<^verbatim>\<open>str\<close> shows. The settings in the DSN it is given reach it as well, but only where the
  caller's environment does not set \<^verbatim>\<open>DURABLE_QUEUE_DATABASE_URL\<close>: the worker prefers that
  variable, and connects as if the measurement had asked for nothing.
\<close>

theorem spawned_worker_settings:
  assumes "int_of (int_str slots) = Some slots" "int_of (int_str n) = Some n"
    and "float_of (lb_float X poll_interval) = Some poll_interval"
  shows "\<exists>a. parse_args int_of float_of (drop 2 (worker_argv X use_notify poll_interval slots n)) default_args = Inr a \<and>
    a_worker a \<and>
    bench_worker w (worker_environ env (Some dsn)) a =
      (make_config w poll_interval DEFAULT_LEASE_SECONDS DEFAULT_MAX_EXECUTION_SECONDS use_notify None n (nat slots)
         False 30,
       case env ''DURABLE_QUEUE_DATABASE_URL'' of
         None \<Rightarrow> dsn
       | Some url \<Rightarrow> if url = [] then dsn else url)"
  using assms
  by (cases use_notify; cases "env ''DURABLE_QUEUE_DATABASE_URL''")
    (simp_all add: worker_argv_def set_option_def read_value_def bench_worker_def worker_environ_def get_dsn_def
      str_or_def default_args_def)

lemma spawned_worker_settings_witness:
  "\<exists>a. parse_args (\<lambda>s. if s = ''8'' then Some 8 else Some 25) (\<lambda>s. Some 1)
      (drop 2 (worker_argv lab1 False 1 8 25)) default_args = Inr a \<and>
    snd (bench_worker ''w'' (worker_environ [''DURABLE_QUEUE_DATABASE_URL'' \<mapsto> ''u''] (Some ''v'')) a) = ''u''"
proof -
  have "int_str 8 = ''8''" "int_str 25 = ''25''" by code_simp+
  then show ?thesis
    using spawned_worker_settings [where slots = 8 and n = 25 and X = lab1 and poll_interval = 1
        and int_of = "\<lambda>s. if s = ''8'' then Some 8 else Some 25" and float_of = "\<lambda>s. Some 1"
        and use_notify = False and env = "[''DURABLE_QUEUE_DATABASE_URL'' \<mapsto> ''u'']" and dsn = "''v''" and w = "''w''"]
    by auto
qed

subsection \<open>What the benchmark leaves behind\<close>

lemma tidy_prod [tidy_rules]: "(\<And>a b. tidy (f a b)) \<Longrightarrow> tidy (case_prod f p)"
  by (cases p) simp

lemma tidy_let [tidy_rules]: "(\<And>x. tidy (k x)) \<Longrightarrow> tidy (Let a k)"
  by (simp add: Let_def)

lemma tidy_option [tidy_rules]: "tidy m \<Longrightarrow> (\<And>x. tidy (k x)) \<Longrightarrow> tidy (case v of None \<Rightarrow> m | Some x \<Rightarrow> k x)"
  by (cases v) simp_all

lemma tidy_rows:
  assumes "\<And>p. lb_popen X p = None"
  shows "tidy (scaling_row X n s w st)" "tidy (concurrency_row X n m s w st)" "tidy (curve_row X n s ws st)"
    "tidy (split_row X n s ws u)" "tidy (connections_row X s tws u)" "tidy (comparison_row X n s w u)"
    "tidy (commit_delay_row X n m s w st)" "tidy (durability_row X n s ws u)"
  by (cases ws; cases tws;
      simp only: scaling_row_def concurrency_row_def curve_row_def split_row_def rate_for_def connections_row_def
        comparison_row_def commit_delay_row_def durability_row_def prod.case;
      intro tidy_rules assms)+

lemma tidy_suites:
  assumes "\<And>p. lb_popen X p = None" "\<And>c. lb_connect X c = None"
  shows "tidy (run_baseline_suite X n)" "tidy (run_scaling_suite X n s)" "tidy (run_comparison_suite X n s)"
    "tidy (run_curve_suite X n s)" "tidy (run_connections_suite X n s)" "tidy (run_concurrency_suite X n m s)"
    "tidy (run_durability_suite X n s)" "tidy (run_commit_delay_suite X n m s)"
  unfolding run_baseline_suite_def run_scaling_suite_def run_comparison_suite_def run_curve_suite_def
    run_connections_suite_def run_concurrency_suite_def run_durability_suite_def run_commit_delay_suite_def
  by (intro tidy_rules tidy_rows assms)+

lemma tidy_selected: "tidy m \<Longrightarrow> tidy (selected suite name line m)"
  unfolding selected_def by (intro tidy_rules)

lemma tidy_run_suites:
  assumes "\<And>p. lb_popen X p = None" "\<And>c. lb_connect X c = None"
  shows "tidy (run_suites X a)"
  unfolding run_suites_def Let_def by (intro tidy_rules tidy_selected tidy_suites assms)

lemma tidy_report_line: "tidy (report_line f g x u)"
  by (cases x; simp only: report_line_def prod.case; intro tidy_rules)

lemma tidy_measurements: "(\<And>p. lb_popen X p = None) \<Longrightarrow> tidy (main_measurements X a)"
  unfolding main_measurements_def by (intro tidy_rules)

lemma tidy_main_report: "tidy (main_report a r)"
  unfolding main_report_def by (intro tidy_rules tidy_report_line)


definition harness1 :: harness where
  "harness1 = \<lparr> h_bench = \<lparr> b_db = db1, b_samples = [] \<rparr>, h_lines = [], h_net = net0, h_pids = [2], h_next_pid = 5,
     h_turn = 0, h_repeat = 1 \<rparr>"


text \<open>
  Where they do not, it leaks: the workers started before a start that fails, and the worker's connection
  if the heartbeat's fails.
\<close>

lemma popen_leaks:
  assumes "\<And>p. p < h_next_pid h + n \<Longrightarrow> lb_popen X p = None" "lb_popen X (h_next_pid h + n) = Some x" "n < m"
  shows "\<exists>h'. act_repeat m (popen X) h = Some (Inl x, h') \<and>
    h_pids h' = rev [h_next_pid h..<h_next_pid h + n] @ h_pids h"
  using assms
proof (induction n arbitrary: m h)
  case 0
  then obtain k where "m = Suc k" by (cases m) auto
  with 0 show ?case by (auto simp: act_bind_def popen_def Let_def)
next
  case (Suc n)
  then obtain k where m: "m = Suc k" "n < k" by (cases m) auto
  let ?h = "h\<lparr>h_next_pid := h_next_pid h + 1, h_pids := h_next_pid h # h_pids h\<rparr>"
  have "popen X h = Some (Inr (h_next_pid h), ?h)" using Suc.prems(1) [of "h_next_pid h"] by (simp add: popen_def Let_def)
  moreover obtain h' where "act_repeat k (popen X) ?h = Some (Inl x, h')"
    "h_pids h' = rev [h_next_pid ?h..<h_next_pid ?h + n] @ h_pids ?h"
    using Suc.IH [of ?h k] Suc.prems(1,2) m(2) by auto
  moreover have "[p..<p + Suc n] = p # [Suc p..<Suc p + n]" for p by (simp add: upt_conv_Cons)
  ultimately show ?case by (auto simp: m(1) act_bind_Inr act_bind_Inl simp del: upt_Suc)
qed

end
