(* ===== verification/Spec2Isabelle.thy ===== *)
theory Spec2Isabelle
  imports Leases Failures Reaping Enqueueing Inspection System Shutdown Connection Effects
    Scheduler Session Runner Cli Tables Suites
begin

text \<open>
  A model of durable-queue, a job queue in PostgreSQL, and the theorems that make it correct.

  \<^bold>\<open>The program.\<close> Jobs are rows of one table. Producers insert them, in a transaction of their own
  (\<^verbatim>\<open>jobs.enqueue\<close>) or of a SQLAlchemy session (\<^verbatim>\<open>sqlalchemy.py\<close>); schedulers insert them when
  a schedule comes due (\<^verbatim>\<open>scheduler.py\<close>). Workers claim batches with \<open>FOR UPDATE SKIP LOCKED\<close>
  under a lease, run them on slot threads, extend the leases of what they hold from a heartbeat thread,
  and complete or fail each one under the guard that they still own it; what a dead worker held is
  reaped when its lease lapses. Idle loops sleep on a generation counter (\<^verbatim>\<open>wakeup.py\<close>).

  \<^bold>\<open>Theories and sources\<close> (Python files are under \<^verbatim>\<open>src/durable_queue\<close>):
  \<^item> \<^theory_text>\<open>Prelude\<close>: exceptions, results as sums, time, the SQL constructs the statements use, rows by
    key, and generic lemmas.
  \<^item> \<^theory_text>\<open>Schema\<close>: \<^verbatim>\<open>sql/schema.sql\<close>: rows with their defaults and checks; the record \<open>db\<close> of
    tables, the id sequence and the queued notifications; commit and rollback; what a statement sees
    of the rest (\<open>stmt\<close>: its \<open>now()\<close>, rows locked elsewhere, the server's scan order).
  \<^item> \<^theory_text>\<open>Jobs\<close>: \<^verbatim>\<open>jobs.py\<close>, one definition per function, statement by statement.
    \<^theory_text>\<open>Jobs_Laws\<close> has the state machine of a job's status and the locales \<open>row_write\<close> and
    \<open>owned_write\<close>, the contract of a \<open>SET\<close> clause, interpreted on every one of them;
    \<^theory_text>\<open>Jobs_Steps\<close> what each operation keeps; \<^theory_text>\<open>Queue\<close> any interleaving of them
    (\<open>jobs_run\<close>), with the invariant \<open>jobs_ok\<close> and the history of a job.
    \<^theory_text>\<open>Leases\<close>, \<^theory_text>\<open>Failures\<close>, \<^theory_text>\<open>Reaping\<close>, \<^theory_text>\<open>Enqueueing\<close>,
    \<^theory_text>\<open>Inspection\<close>: what each group of operations does on every branch, and safety across
    workers.
  \<^item> \<^theory_text>\<open>Registry\<close>: \<^verbatim>\<open>registry.py\<close>. \<^theory_text>\<open>Effects\<close>: \<^verbatim>\<open>effects.py\<close> and
    the protocol its docstring prescribes.
  \<^item> \<^theory_text>\<open>Wakeup\<close>: \<^verbatim>\<open>wakeup.py\<close>, the locale \<open>wake_channel\<close>, and that no wake-up is lost.
    \<^theory_text>\<open>Connection\<close>: \<^verbatim>\<open>db.py\<close> and the session setups of \<^verbatim>\<open>worker.py\<close>, with the
    locale \<open>session_setup\<close>.
  \<^item> \<^theory_text>\<open>Heartbeat\<close>, \<^theory_text>\<open>Worker\<close>, \<^theory_text>\<open>Slots\<close>: \<^verbatim>\<open>worker.py\<close>: the beat;
    \<^verbatim>\<open>run_job\<close> and \<^verbatim>\<open>process_one\<close>; the main loop, slots, lost connections and shutdown of
    \<^verbatim>\<open>run_worker\<close> as the step relation \<open>worker_step\<close>, in which a slot's run is \<open>run_job\<close>.
    \<^theory_text>\<open>Slots_Safety\<close> and \<^theory_text>\<open>Shutdown\<close> have what any run of it keeps and how it
    ends. \<^theory_text>\<open>System\<close>: many workers and their tasks over one database; \<open>sys_step\<close> is the
    specification that \<open>run_job\<close>, and a whole worker, refines.
  \<^item> \<^theory_text>\<open>Clock\<close>, \<^theory_text>\<open>Scheduler\<close>: \<^verbatim>\<open>scheduler.py\<close>: clock times in a zone;
    registering, a pass (shown to be a run of the queue's operations), the loop \<open>sched_step\<close>, and the
    locale \<open>keyed_enqueue\<close> that says what a pass relies on when it repeats a key.
  \<^item> \<^theory_text>\<open>Session\<close>: \<^verbatim>\<open>sqlalchemy.py\<close>. \<^theory_text>\<open>Runner\<close>: \<^verbatim>\<open>runner.py\<close>.
    \<^theory_text>\<open>Cli\<close>: \<^verbatim>\<open>cli.py\<close>. \<^theory_text>\<open>Tables\<close>: the rows of all tables are well typed.
  \<^item> \<^theory_text>\<open>Benchmark\<close>, \<^theory_text>\<open>Bench_Loops\<close>, \<^theory_text>\<open>Bench_Trials\<close>, \<^theory_text>\<open>Suites\<close>:
    \<^verbatim>\<open>scripts/benchmark.py\<close>: its statistics, connection strings and queries; the two single-process
    loops, which end with every job done; the measurements of worker processes, as actions on the state
    of the harness; the suites, \<^verbatim>\<open>main\<close> and what they print.
  \<^item> This theory composes them: \<open>program_step\<close> has a rule for every entry point that writes to the
    database, and any run of it is one of \<open>sys_step\<close>.

  \<^bold>\<open>What the properties show.\<close> Transactional tasks take effect once and others at least once, whatever
  crashes, lapses and restarts happen in between; one claim per job and lease; only the owner
  completes, fails, releases or extends; failures back off and end; expired leases and nothing else
  are reaped, and crash loops end; keys deduplicate as long as the row exists; the batch insert is the
  loop of single ones; idle loops sleep neither past due work nor through a wake-up; leases are kept
  while a worker lives and lapse when a job hangs; a worker holds no more than its limit and hands
  back what it has not started; schedules advance, collapse missed runs, fire a slot once; daylight
  saving as documented; a session's jobs commit with its writes. Where the code does not do this -
  an overflowing backoff, a repeated key in a batch, a slot that dies, a schedule of interval
  zero - the property says what it does instead.

  \<^bold>\<open>Conventions.\<close> Instants and durations are integers of microseconds; Python's integers and
  \<open>bigserial\<close> are unbounded integers, and the range of an \<open>int\<close> column is checked where the code can
  exceed it (\<open>int4\<close>); floats are reals, except that an integer too big for a float raises.
  Exceptions are the left side of a sum. Concurrency is interleaving: a statement is a step and takes
  effect when it holds its rows. Every definition of an operation is total; the day searches of
  \<^theory_text>\<open>Clock\<close> come with their termination proofs, so nothing runs on fuel.

  \<^bold>\<open>Parameters.\<close> PostgreSQL's choices (scan order, time, what is locked) and failures are arguments; so
  are what tasks do, \<^verbatim>\<open>psycopg\<close>'s parser of connection strings, random samples, the tz database,
  \<^verbatim>\<open>fromisoformat\<close>, \<^verbatim>\<open>isoformat\<close> and the formatting of values for display.

  \<^bold>\<open>Not modelled.\<close> \<^verbatim>\<open>scripts/load_test.py\<close>, which says it is not implemented; tests and the
  tables only they use; logging; the option parsing of typer, and of argparse abbreviations,
  \<^verbatim>\<open>--opt=value\<close> and help; the inside of \<^verbatim>\<open>psycopg_pool\<close> and how long a thread waits for it;
  durability of a commit with \<open>synchronous_commit\<close> off; savepoints of SQLAlchemy sessions; Python's
  range of years; rounding in float arithmetic.
\<close>

section \<open>The program as a whole\<close>

text \<open>
  Everything a process of the program may do to the database, one rule per entry point: a run of a
  job, what the worker's main loop, its heartbeat and its shutdown do, a session's transaction, a pass
  of the scheduler, registering a schedule, and the commands. The application's own tables are lists
  of JSON documents here.
\<close>

inductive program_step :: "code registry \<Rightarrow> db \<Rightarrow> db \<Rightarrow> bool" for reg where
  job: "known (pdb p) i t \<Longrightarrow> others_run reg (re_during E) \<Longrightarrow> others_run reg (re_after E) \<Longrightarrow>
    keeps_rest (re_during E) \<Longrightarrow> keeps_rest (re_after E) \<Longrightarrow>
    run_job str_of reg E mt (i, t, a) w l m hbt p = (y, hbt', p') \<Longrightarrow> program_step reg (pdb p) (pdb p')"
| claim: "scan_ok e \<Longrightarrow> claim_jobs e w l n d = Inr (rows, d') \<Longrightarrow> program_step reg d d'"
| reap: "scan_ok e1 \<Longrightarrow> scan_ok e2 \<Longrightarrow> reap_expired_jobs e1 e2 n d = Inr (m, d') \<Longrightarrow> program_step reg d d'"
| beat: "beat e mt fails h d = (d', closes) \<Longrightarrow> program_step reg d d'"
| hand_back: "release_jobs us w d = (n, d') \<Longrightarrow> program_step reg d d'"
| sleep: "seconds_until_due e d = (secs, d') \<Longrightarrow> program_step reg d d'"
| transaction: "session_ops xs (new_session (d, app :: json list)) = Inr s \<Longrightarrow>
    d' = fst (ss_base (fst (session_commit (s, g)))) \<Longrightarrow> program_step reg d d'"
| rolled_back: "session_ops xs (new_session (d, app :: json list)) = Inr s \<Longrightarrow>
    d' = fst (ss_base (session_rollback s)) \<Longrightarrow> program_step reg d d'"
| schedules: "run_due_schedules e (d, g) = (x, d', g') \<Longrightarrow> program_step reg d d'"
| register: "register_schedule tz now1 now2 name tsk a rec first m (d, g) = Inr (d', g') \<Longrightarrow>
    program_step reg d d'"
| retry: "cli_retry e i d = (out, d') \<Longrightarrow> program_step reg d d'"
| purge: "cli_purge f e hours n d = Inr (out, d') \<Longrightarrow> program_step reg d d'"

lemma session_upkeep:
  assumes "session_ops xs (new_session (d, app)) = Inr s" "jobs_ok d"
  shows "upkeep_run d (fst (ss_base (fst (session_commit (s, g)))))"
    and "upkeep_run d (fst (ss_base (session_rollback s)))"
proof -
  have run: "upkeep_run d (fst (ss_view s))" and base: "fst (ss_base s) = d"
    using session_ops_run [OF assms(1)] by (simp_all add: in_transaction_def new_session_def)
  then show "upkeep_run d (fst (ss_base (fst (session_commit (s, g)))))"
    by (auto simp: session_commit_def after_commit_def Let_def intro: rtranclp.rtrancl_into_rtrancl
        upkeep_step.commit)
  have "jobs_id_seq d \<le> jobs_id_seq (fst (ss_view s))"
    using jobs_run_seq [OF upkeep_run_jobs [OF run] assms(2)] .
  then show "upkeep_run d (fst (ss_base (session_rollback s)))"
    by (auto simp: session_rollback_def after_rollback_def Let_def base intro!: elsewhere_run)
qed

lemma register_upkeep:
  "register_schedule tz now1 now2 name tsk a rec first m (d, g) = Inr (d', g') \<Longrightarrow> upkeep_run d d'"
  by (auto simp: register_schedule_def upsert_schedule_def split: if_splits option.splits
      intro!: elsewhere_run)

lemma program_step_run:
  assumes "program_step reg d d'" "tasks_safe reg" "jobs_ok d"
  shows "\<exists>ls A'. sys_run reg (d, A) ls (d', A')"
  using assms
proof cases
  case (job p i t E str_of mt a w l m hbt y hbt' p')
  with run_job_run [OF assms(2) _ job(3-5,8), of A] assms(3) show ?thesis by simp
next
  case (claim e w l n rows)
  then have "upkeep_run d d'" by (blast intro: upkeep_step.claim)
  then show ?thesis using upkeep_run_sys by metis
next
  case (reap e1 e2 n m)
  then show ?thesis using reap_expired_jobs_upkeep upkeep_run_sys by metis
next
  case (beat e mt fails h closes)
  then show ?thesis using beat_upkeep upkeep_run_sys by metis
next
  case (hand_back us w n)
  then have "upkeep_run d d'" by (blast intro: upkeep_step.release)
  then show ?thesis using upkeep_run_sys by metis
next
  case (sleep e secs)
  then have "upkeep_run d d'" by (auto simp: seconds_until_due_def intro: upkeep_step.commit)
  then show ?thesis using upkeep_run_sys by metis
next
  case (transaction xs app s g)
  then show ?thesis using session_upkeep(1) [OF transaction(1) assms(3)] upkeep_run_sys by metis
next
  case (rolled_back xs app s)
  then show ?thesis using session_upkeep(2) [OF rolled_back(1) assms(3)] upkeep_run_sys by metis
next
  case (schedules e g x g')
  then show ?thesis using run_due_schedules_upkeep [OF assms(3)] upkeep_run_sys by metis
next
  case (register tz now1 now2 name tsk a rec first m g g')
  then show ?thesis using register_upkeep upkeep_run_sys by metis
next
  case (retry e i out)
  then have "upkeep_run d d'"
    by (auto simp: cli_retry_def split: prod.splits intro: upkeep_step.retry)
  then show ?thesis using upkeep_run_sys by metis
next
  case (purge f e hours n out)
  then have "upkeep_run d d'" by (auto simp: cli_purge_def intro: upkeep_step.purge)
  then show ?thesis using upkeep_run_sys by metis
qed

lemma program_step_rest:
  assumes "program_step reg d d'" "tasks_keep_rest reg" "rest_ok d"
  shows "rest_ok d'"
  using assms(1)
proof cases
  case (job p i t E str_of mt a w l m hbt y hbt' p')
  with run_job_rest [OF job(8) assms(2) job(6,7)] assms(3) show ?thesis by simp
next
  case (claim e w l n rows)
  with rest_ok_claim assms(3) show ?thesis by blast
next
  case (reap e1 e2 n m)
  with rest_ok_reap assms(3) show ?thesis by blast
next
  case (beat e mt fails h closes)
  with rest_ok_beat assms(3) show ?thesis by blast
next
  case (hand_back us w n)
  with rest_ok_release assms(3) show ?thesis by blast
next
  case (sleep e secs)
  with assms(3) show ?thesis by (auto simp: seconds_until_due_def)
next
  case (transaction xs app s g)
  with session_ops_rest [OF transaction(1)] assms(3) show ?thesis
    by (simp add: session_commit_def after_commit_def Let_def new_session_def)
next
  case (rolled_back xs app s)
  have "fst (ss_base s) = d"
    using session_ops_run [OF rolled_back(1)] by (simp add: in_transaction_def new_session_def)
  with rolled_back(2) assms(3) show ?thesis
    by (simp add: session_rollback_def after_rollback_def Let_def)
next
  case (schedules e g x g')
  with pass_rest assms(3) show ?thesis by blast
next
  case (register tz now1 now2 name tsk a rec first m g g')
  with register_rest assms(3) show ?thesis by blast
next
  case (retry e i out)
  with assms(3) show ?thesis by (auto simp: cli_retry_def rest_ok_retry split: prod.splits)
next
  case (purge f e hours n out)
  with assms(3) show ?thesis
    by (auto simp: cli_purge_def bind_result_def rest_ok_purge split: sum.splits)
qed



subsection \<open>A deployment\<close>

text \<open>
  Worker processes with their threads, started and killed at any time, on one database, and
  clients that use every other entry point. Each worker's own copy of the database is brought up
  to date before it takes a step.
\<close>

record deployment =
  dep_db :: db
  dep_workers :: "(config \<times> worker) list"

inductive deploy_step :: "(exn \<Rightarrow> string) \<Rightarrow> code registry \<Rightarrow> deployment \<Rightarrow> deployment \<Rightarrow> bool"
  for str_of reg where
  spawn: "c = make_config w poll l maxexec ntf ri bs conc idle timeout \<Longrightarrow>
    deploy_step str_of reg D (D\<lparr>dep_workers := dep_workers D @ [(c, start_worker c (dep_db D))]\<rparr>)"
| killed: "dep_workers D = ws1 @ x # ws2 \<Longrightarrow> deploy_step str_of reg D (D\<lparr>dep_workers := ws1 @ ws2\<rparr>)"
| works: "dep_workers D = ws1 @ (c, s) # ws2 \<Longrightarrow>
    worker_step str_of reg c False (s\<lparr>wdb := dep_db D\<rparr>) s' \<Longrightarrow>
    deploy_step str_of reg D \<lparr> dep_db = wdb s', dep_workers = ws1 @ (c, s') # ws2 \<rparr>"
| client: "program_step reg (dep_db D) d' \<Longrightarrow> deploy_step str_of reg D (D\<lparr>dep_db := d'\<rparr>)"

definition knows_jobs :: "db \<Rightarrow> worker \<Rightarrow> bool" where
  "knows_jobs d s \<longleftrightarrow> (\<forall>i t a. (i, t, a) \<in> set (in_hand s) \<longrightarrow> known d i t)"

definition workers_ok :: "deployment \<Rightarrow> bool" where
  "workers_ok D \<longleftrightarrow> (\<forall>(c, s) \<in> set (dep_workers D). cap_inv c s \<and> knows_jobs (dep_db D) s)"

lemma workers_okD:
  assumes "workers_ok D" "(c, s) \<in> set (dep_workers D)"
  shows "cap_inv c s" "(i, t, a) \<in> set (in_hand s) \<Longrightarrow> known (dep_db D) i t"
  using bspec [OF assms(1) [unfolded workers_ok_def] assms(2)] by (simp_all add: knows_jobs_def) blast

lemma wdb_irrelevant [simp]:
  "cap_inv c (s\<lparr>wdb := d\<rparr>) = cap_inv c s" "in_hand (s\<lparr>wdb := d\<rparr>) = in_hand s"
  by (simp_all add: worker_defs in_hand_def)

lemma worker_ok_knows: "worker_ok s \<longleftrightarrow> jobs_ok (wdb s) \<and> knows_jobs (wdb s) s"
  by (simp add: worker_ok_def knows_jobs_def)

lemma knows_jobs_follow: "jobs_follow d d' \<Longrightarrow> knows_jobs d s \<Longrightarrow> knows_jobs d' s"
  by (auto simp: knows_jobs_def intro: known_follow)

lemma deploy_step_sys:
  "deploy_step str_of reg D D' \<Longrightarrow> tasks_safe reg \<Longrightarrow> jobs_ok (dep_db D) \<Longrightarrow> workers_ok D \<Longrightarrow>
   jobs_ok (dep_db D') \<and> workers_ok D' \<and> (\<exists>ls A'. sys_run reg (dep_db D, A) ls (dep_db D', A'))"
proof (induction rule: deploy_step.induct)
  case (spawn c w poll l maxexec ntf ri bs conc idle timeout D)
  have "0 \<le> c_max_outstanding c" using spawn(1) by (simp add: make_config_def Let_def)
  with spawn(2,3) have "cap_inv c (start_worker c (dep_db D))" by (blast intro: cap_inv_run)
  moreover have "knows_jobs (dep_db D) (start_worker c (dep_db D))"
    using worker_ok_start [OF spawn(3), of c] by (simp add: worker_ok_knows start_worker_def)
  ultimately show ?case
    using spawn(3,4) by (auto simp: workers_ok_def intro: sys_run.finish)
next
  case (killed D ws1 x ws2)
  then show ?case by (auto simp: workers_ok_def intro: sys_run.finish)
next
  case (works D ws1 c s ws2 s')
  then have s: "cap_inv c s" "knows_jobs (dep_db D) s" by (simp_all add: workers_ok_def)
  then have ok: "worker_ok (s\<lparr>wdb := dep_db D\<rparr>)" using works(4) by (simp add: worker_ok_knows knows_jobs_def)
  from worker_step_sys [OF works(2,3) ok, of A]
  obtain ls A' where ok': "worker_ok s'" and run: "sys_run reg (dep_db D, A) ls (wdb s', A')" by auto
  have "cap_inv c s'" using cap_inv_step [OF works(2)] works(4) s by simp
  moreover have "jobs_follow (dep_db D) (wdb s')" using sys_run_ok [OF run works(3)] works(4) by simp
  ultimately show ?case
    using works(1,5) ok' run by (auto simp: workers_ok_def worker_ok_knows intro: knows_jobs_follow)
next
  case (client D d')
  from program_step_run [OF client(1-3), of A]
  obtain ls A' where run: "sys_run reg (dep_db D, A) ls (d', A')" by auto
  with sys_run_ok [OF run client(2)] client(3,4) show ?case
    by (auto simp: workers_ok_def intro: knows_jobs_follow)
qed

lemma deploy_run_sys:
  assumes "(deploy_step str_of reg)\<^sup>*\<^sup>* D D'" "tasks_safe reg" "jobs_ok (dep_db D)" "workers_ok D"
  shows "jobs_ok (dep_db D') \<and> workers_ok D' \<and> (\<exists>ls A'. sys_run reg (dep_db D, A) ls (dep_db D', A'))"
  using assms(1)
proof (induction rule: rtranclp_induct)
  case base
  show ?case using assms(3,4) sys_run.finish by metis
next
  case (step D1 D2)
  then obtain ls A1 where ok: "jobs_ok (dep_db D1)" "workers_ok D1"
    and run: "sys_run reg (dep_db D, A) ls (dep_db D1, A1)" by blast
  from deploy_step_sys [OF step(2) assms(2) ok, of A1] sys_run_append [OF run] show ?case by blast
qed

text \<open>
  C4: the whole program is an instance of the system. However many workers are started and killed,
  and however their threads and every kind of client interleave, with whatever failures: the
  database goes through a sequence of the system's steps, so exactly once and at least once hold of it,
  and its jobs table stays well formed. Every worker that serves has no more in hand than its
  limit, and each job in hand is one whose row, if it is still there, is for the task it was
  claimed for.
\<close>

theorem program_refines_system:
  assumes "tasks_safe reg" and "jobs_ok d"
    and "(deploy_step str_of reg)\<^sup>*\<^sup>* \<lparr> dep_db = d, dep_workers = [] \<rparr> D"
  shows "jobs_ok (dep_db D) \<and> (\<exists>ls A'. sys_run reg (d, A) ls (dep_db D, A')) \<and>
    (\<forall>c s. (c, s) \<in> set (dep_workers D) \<longrightarrow>
       (serving (main s) \<longrightarrow> int (length (in_hand s)) \<le> c_max_outstanding c) \<and>
       (\<forall>i t a. (i, t, a) \<in> set (in_hand s) \<longrightarrow> known (dep_db D) i t))"
proof -
  have "workers_ok \<lparr> dep_db = d, dep_workers = [] \<rparr>" by (simp add: workers_ok_def)
  with deploy_run_sys [OF assms(3,1), of A] assms(2)
  have "jobs_ok (dep_db D)" "workers_ok D" "\<exists>ls A'. sys_run reg (d, A) ls (dep_db D, A')" by simp_all
  then show ?thesis using workers_okD cap_inv_in_hand(1) by blast
qed

lemma program_refines_system_witness:
  "\<exists>ls A'. sys_run reg_exit (db1, {}) ls (snd (cli_retry (stmt_at 9) 1 db1), A')"
proof -
  let ?D = "\<lparr> dep_db = db1, dep_workers = [] \<rparr>"
  have "deploy_step (\<lambda>_. []) reg_exit ?D (?D\<lparr>dep_workers := [(cfg1, start_worker cfg1 db1)]\<rparr>)"
    using deploy_step.spawn [OF cfg1_def, where D = ?D] by simp
  moreover have "deploy_step (\<lambda>_. []) reg_exit (?D\<lparr>dep_workers := [(cfg1, start_worker cfg1 db1)]\<rparr>)
      (?D\<lparr>dep_workers := [(cfg1, start_worker cfg1 db1)], dep_db := snd (cli_retry (stmt_at 9) 1 db1)\<rparr>)"
    by (rule deploy_step.client) (simp, rule program_step.retry, rule prod.collapse [symmetric])
  ultimately have "(deploy_step (\<lambda>_. []) reg_exit)\<^sup>*\<^sup>* ?D
      (?D\<lparr>dep_workers := [(cfg1, start_worker cfg1 db1)], dep_db := snd (cli_retry (stmt_at 9) 1 db1)\<rparr>)" by simp
  from program_refines_system [OF tasks_safe_reg_exit jobs_ok_db1 this] show ?thesis by simp
qed

end
